(* ===== verification/Prelude.thy ===== *)
theory Prelude
  imports Main "HOL-Library.Word" "HOL-Library.Monad_Syntax"
begin

text \<open>
  Shared vocabulary of the development.

  The simulator aborts the process when an \<open>assert\<close> fails, when \<open>panic\<close> is called and when it
  divides by zero (\<open>src/src/log.h\<close>; the default \<open>opt\<close> build keeps the assertions).  Every
  operation that can abort therefore returns an \<open>option\<close>: \<open>None\<close> is the aborted process,
  \<open>Some\<close> the normal return.  \<open>assert_that\<close> is the assertion; operations are composed with the
  \<open>do\<close> notation of the option monad, so an abort stops the rest of the operation exactly as in
  the source.

  The rest of the theory holds generic facts about first-match searches in arrays, counting the
  entries of an array that satisfy a predicate, and least-recently-used ranks, which the components
  share.
\<close>

named_theorems abort_simps \<open>evaluation of operations that may abort\<close>
named_theorems wf_dest \<open>facts drawn from a component's well-formedness\<close>

type_synonym address = nat
type_synonym cyc = nat

definition assert_that :: "bool \<Rightarrow> unit option" where
  "assert_that b = (if b then Some () else None)"

lemma assert_that_simps [simp, abort_simps]:
  "assert_that True = Some ()"
  "assert_that False = None"
  by (simp_all add: assert_that_def)

lemma assert_that_eq_Some [simp, abort_simps]: "assert_that b = Some u \<longleftrightarrow> b"
  by (simp add: assert_that_def)

lemma assert_bind_Some [simp, abort_simps]:
  "Option.bind (assert_that b) f = Some y \<longleftrightarrow> b \<and> f () = Some y"
  by (cases b) auto

lemma assert_bind_true [simp, abort_simps]: "b \<Longrightarrow> Option.bind (assert_that b) f = f ()"
  by simp

section \<open>First match in an array\<close>

text \<open>
  \<open>first_index P xs\<close> is the loop \<open>for (i = 0; i < n; i++) if (P(xs[i])) return i; return n;\<close> over
  an array of \<open>n = length xs\<close> entries.
\<close>

fun first_index :: "('a \<Rightarrow> bool) \<Rightarrow> 'a list \<Rightarrow> nat" where
  "first_index P [] = 0"
| "first_index P (x # xs) = (if P x then 0 else Suc (first_index P xs))"

lemma first_index_le [simp]: "first_index P xs \<le> length xs"
  by (induction xs) auto

lemma first_index_less_iff: "first_index P xs < length xs \<longleftrightarrow> (\<exists>x \<in> set xs. P x)"
  by (induction xs) auto

lemma first_index_eq_length_iff: "first_index P xs = length xs \<longleftrightarrow> (\<forall>x \<in> set xs. \<not> P x)"
  by (induction xs) auto

lemma first_index_nth: "first_index P xs < length xs \<Longrightarrow> P (xs ! first_index P xs)"
  by (induction xs) auto

lemma first_index_before: "i < first_index P xs \<Longrightarrow> \<not> P (xs ! i)"
  by (induction xs arbitrary: i) (auto simp: nth_Cons' split: if_splits)

lemma first_index_eqI:
  assumes "i < length xs" "P (xs ! i)" "\<And>j. j < i \<Longrightarrow> \<not> P (xs ! j)"
  shows "first_index P xs = i"
proof -
  have "first_index P xs < length xs"
    using assms(1,2) by (auto simp: first_index_less_iff)
  then have "P (xs ! first_index P xs)" by (rule first_index_nth)
  then have "\<not> first_index P xs < i" using assms(3) by blast
  moreover have "\<not> i < first_index P xs" using assms(2) first_index_before by metis
  ultimately show ?thesis by simp
qed

section \<open>Counting the entries of an array\<close>

definition count_if :: "('a \<Rightarrow> bool) \<Rightarrow> 'a list \<Rightarrow> nat" where
  "count_if P xs = length (filter P xs)"

lemma count_if_Nil [simp]: "count_if P [] = 0"
  and count_if_Cons [simp]: "count_if P (x # xs) = (if P x then 1 else 0) + count_if P xs"
  by (simp_all add: count_if_def)

lemma count_if_append [simp]: "count_if P (xs @ ys) = count_if P xs + count_if P ys"
  by (simp add: count_if_def)

lemma count_if_card: "count_if P xs = card {i. i < length xs \<and> P (xs ! i)}"
  by (simp add: count_if_def length_filter_conv_card)

lemma count_if_update:
  "i < length xs \<Longrightarrow>
   count_if P (xs[i := x]) + (if P (xs ! i) then 1 else 0) = count_if P xs + (if P x then 1 else 0)"
proof (induction xs arbitrary: i)
  case (Cons y ys)
  then show ?case by (cases i) (simp_all add: add.assoc)
qed simp

lemma count_if_map: "(\<And>x. x \<in> set xs \<Longrightarrow> P (f x) = P x) \<Longrightarrow> count_if P (map f xs) = count_if P xs"
  by (induction xs) auto

lemma count_if_zero_iff: "count_if P xs = 0 \<longleftrightarrow> (\<forall>x \<in> set xs. \<not> P x)"
  by (auto simp: count_if_def filter_empty_conv)

lemma count_if_ge2E:
  assumes "2 \<le> count_if P xs"
  obtains i j where "i < length xs" "j < length xs" "i \<noteq> j" "P (xs ! i)" "P (xs ! j)"
proof -
  let ?A = "{i. i < length xs \<and> P (xs ! i)}"
  have "2 \<le> card ?A" using assms by (simp add: count_if_card)
  then obtain i where i: "i \<in> ?A" by (metis card.empty equals0I not_numeral_le_zero)
  have "card (?A - {i}) = card ?A - 1" using i by (simp add: card_Diff_singleton)
  with \<open>2 \<le> card ?A\<close> have "card (?A - {i}) \<noteq> 0" by simp
  then have "?A - {i} \<noteq> {}" by (metis card.empty)
  then obtain j where "j \<in> ?A" "j \<noteq> i" by blast
  with i that show thesis by blast
qed

lemma count_if_ge2I:
  assumes "i < length xs" "j < length xs" "i \<noteq> j" "P (xs ! i)" "P (xs ! j)"
  shows "2 \<le> count_if P xs"
proof -
  let ?A = "{i. i < length xs \<and> P (xs ! i)}"
  have "{i, j} \<subseteq> ?A" using assms by auto
  then have "card {i, j} \<le> card ?A" by (intro card_mono) auto
  with assms(3) show ?thesis by (simp add: count_if_card)
qed

section \<open>Least-recently-used ranks\<close>

text \<open>
  Both the tag buffer and the page placement policy keep a rank per way, 0 for the most recently
  used.  Touching the way with rank \<open>v\<close> moves every rank below \<open>v\<close> up by one and gives the touched
  way rank 0.
\<close>

definition touch_rank :: "nat \<Rightarrow> nat \<Rightarrow> nat" where
  "touch_rank v r = (if r < v then Suc r else r)"

lemma touch_rank_less: "r < n \<Longrightarrow> v < n \<Longrightarrow> touch_rank v r < n"
  by (simp add: touch_rank_def)

lemma touch_rank_pos: "r \<noteq> v \<Longrightarrow> 0 < touch_rank v r"
  by (simp add: touch_rank_def)

lemma touch_rank_inj: "r \<noteq> v \<Longrightarrow> r' \<noteq> v \<Longrightarrow> r \<noteq> r' \<Longrightarrow> touch_rank v r \<noteq> touch_rank v r'"
  by (simp add: touch_rank_def)

lemma touch_rank_mono: "r < r' \<Longrightarrow> r' \<noteq> v \<Longrightarrow> touch_rank v r < touch_rank v r' \<or> r = v"
  by (auto simp: touch_rank_def)

definition ranks_ok :: "nat \<Rightarrow> (nat \<Rightarrow> nat) \<Rightarrow> nat set \<Rightarrow> bool" where
  "ranks_ok n f A \<longleftrightarrow> inj_on f A \<and> f ` A \<subseteq> {..<n}"

lemma ranks_ok_subset: "ranks_ok n f A \<Longrightarrow> B \<subseteq> A \<Longrightarrow> ranks_ok n f B"
  by (auto simp: ranks_ok_def intro: inj_on_subset)

lemma ranks_ok_cong: "(\<And>i. i \<in> A \<Longrightarrow> f i = g i) \<Longrightarrow> ranks_ok n f A = ranks_ok n g A"
  by (auto simp: ranks_ok_def inj_on_def)

lemma ranks_ok_touch:
  assumes "ranks_ok n f A" "w \<in> A"
  shows "ranks_ok n (\<lambda>i. if i = w then 0 else touch_rank (f w) (f i)) A"
proof -
  have inj: "f i \<noteq> f j" if "i \<in> A" "j \<in> A" "i \<noteq> j" for i j
    using assms(1) that by (auto simp: ranks_ok_def inj_on_def)
  have bound: "f i < n" if "i \<in> A" for i
    using assms(1) that by (auto simp: ranks_ok_def)
  define g where "g = (\<lambda>i. if i = w then 0 else touch_rank (f w) (f i))"
  have "g i \<noteq> g j" if "i \<in> A" "j \<in> A" "i \<noteq> j" for i j
    using that inj assms(2) touch_rank_pos [of "f i" "f w"] touch_rank_pos [of "f j" "f w"]
      touch_rank_inj [of "f i" "f w" "f j"]
    by (cases "i = w"; cases "j = w") (auto simp: g_def)
  moreover have "g i < n" if "i \<in> A" for i
    using that bound [OF that] bound [OF assms(2)] by (auto simp: g_def intro: touch_rank_less)
  ultimately have "inj_on g A \<and> g ` A \<subseteq> {..<n}" unfolding inj_on_def by blast
  then show ?thesis by (simp add: ranks_ok_def g_def)
qed

lemma ranks_full:
  assumes "ranks_ok n f {..<n}" "r < n"
  shows "\<exists>i < n. f i = r"
proof -
  have "card (f ` {..<n}) = n"
    using assms(1) by (simp add: ranks_ok_def card_image)
  then have "f ` {..<n} = {..<n}"
    using assms(1) card_subset_eq [of "{..<n}" "f ` {..<n}"] by (simp add: ranks_ok_def)
  with assms(2) show ?thesis by (metis imageE lessThan_iff)
qed

section \<open>Arrays\<close>

lemma nth_list_update_if:
  "j < length xs \<Longrightarrow> (xs[i := x]) ! j = (if i = j then x else xs ! j)"
  by (auto simp: nth_list_update)

lemma sum_list_update_nat:
  fixes xs :: "nat list"
  shows "i < length xs \<Longrightarrow> sum_list (xs[i := x]) + xs ! i = sum_list xs + x"
  by (induction xs arbitrary: i) (auto simp: nth_Cons split: nat.splits)

lemma map_upt_nth: "map (\<lambda>i. f (xs ! i)) [0..<length xs] = map f xs"
  by (rule nth_equalityI) auto

section \<open>Loops that may abort\<close>

text \<open>A \<open>for\<close> loop over a list, threading a state through a body that may abort.\<close>

fun foldM :: "('a \<Rightarrow> 's \<Rightarrow> 's option) \<Rightarrow> 'a list \<Rightarrow> 's \<Rightarrow> 's option" where
  "foldM f [] s = Some s"
| "foldM f (x # xs) s = do { s' \<leftarrow> f x s; foldM f xs s' }"

lemma foldM_Nil: "foldM f [] = Some"
  by (rule ext) simp

lemma foldM_append: "foldM f (xs @ ys) s = do { s' \<leftarrow> foldM f xs s; foldM f ys s' }"
  by (induction xs arbitrary: s) (auto split: bind_split)

lemma foldM_inv:
  assumes "P s" "\<And>x s. x \<in> set xs \<Longrightarrow> P s \<Longrightarrow> \<exists>s'. f x s = Some s' \<and> P s'"
  shows "\<exists>s'. foldM f xs s = Some s' \<and> P s'"
  using assms
proof (induction xs arbitrary: s)
  case (Cons x xs)
  then obtain s1 where "f x s = Some s1" "P s1" by (meson list.set_intros(1))
  moreover have "\<exists>s'. foldM f xs s1 = Some s' \<and> P s'"
    using Cons.IH [OF \<open>P s1\<close>] Cons.prems(2) by (meson list.set_intros(2))
  ultimately show ?case by simp
qed simp

section \<open>Reasoning about code that may abort\<close>

text \<open>\<open>ok m P\<close>: the computation returns, and its result satisfies \<open>P\<close>.\<close>

definition ok :: "'a option \<Rightarrow> ('a \<Rightarrow> bool) \<Rightarrow> bool" where
  "ok m P \<longleftrightarrow> (\<exists>x. m = Some x \<and> P x)"

lemma ok_simps [simp]:
  "ok (Some x) P \<longleftrightarrow> P x"
  "ok None P \<longleftrightarrow> False"
  "ok (Option.bind (assert_that b) f) P \<longleftrightarrow> b \<and> ok (f ()) P"
  by (auto simp: ok_def assert_that_def)

lemma ok_bind: "ok m Q \<Longrightarrow> (\<And>x. Q x \<Longrightarrow> ok (f x) P) \<Longrightarrow> ok (Option.bind m f) P"
  by (auto simp: ok_def)

lemma ok_conseq: "ok m Q \<Longrightarrow> (\<And>x. Q x \<Longrightarrow> P x) \<Longrightarrow> ok m P"
  by (auto simp: ok_def)

lemma ok_if: "(b \<Longrightarrow> ok m P) \<Longrightarrow> (\<not> b \<Longrightarrow> ok m' P) \<Longrightarrow> ok (if b then m else m') P"
  by simp

lemma ok_exI: "m = Some x \<Longrightarrow> P x \<Longrightarrow> ok m P"
  by (simp add: ok_def)

lemma ok_foldM:
  assumes "P s" "\<And>x s. x \<in> set xs \<Longrightarrow> P s \<Longrightarrow> ok (f x s) P"
  shows "ok (foldM f xs s) P"
  using foldM_inv [of P s xs f] assms by (simp add: ok_def)

text \<open>A counting loop whose invariant speaks about the counter.\<close>

lemma ok_foldM_upt:
  assumes "a \<le> b" "P a s" "\<And>i s. a \<le> i \<Longrightarrow> i < b \<Longrightarrow> P i s \<Longrightarrow> ok (f i s) (P (Suc i))"
  shows "ok (foldM f [a..<b] s) (P b)"
  using assms
proof (induction b)
  case (Suc b)
  show ?case
  proof (cases "a \<le> b")
    case True
    have "ok (foldM f [a..<b] s) (P b)" using Suc True by simp
    then have "ok (foldM f [a..<b] s \<bind> (\<lambda>s'. foldM f [b] s')) (P (Suc b))"
      by (rule ok_bind) (use Suc.prems(3) [OF True] in \<open>simp add: foldM_Nil\<close>)
    then show ?thesis using True by (simp add: foldM_append)
  next
    case False
    then have "a = Suc b" using Suc.prems(1) by simp
    then show ?thesis using Suc.prems(2) by simp
  qed
qed simp

end
