(* ===== verification/Numerics.thy ===== *)
theory Numerics
  imports Complex_Main Prelude "HOL-Library.Log_Nat"
begin

text \<open>
  The floating-point arithmetic and the pseudo-random numbers that the placement policies and the
  bandwidth balancer use.

  A \<open>double\<close> is the rational number it denotes.  The result of an operation is rounded to 53
  significant bits, to nearest with ties to even (\<open>rnd\<close>), as IEEE 754 binary64 does; exponents are
  unbounded, since every value of the simulator is far inside the range of a double.  No
  operation of the modelled code can produce an infinity; the one quotient that may be \<open>0/0\<close> is
  only compared with \<open><\<close>, where a NaN and the rational \<open>0\<close> give the same answer for the
  nonnegative samples it is compared with.

  \<open>drand48_r\<close> and \<open>lrand48_r\<close> are the POSIX generator: a 48-bit linear congruential sequence, of
  which the first returns the whole state scaled to \<open>[0,1)\<close> (exact in a double) and the second the
  31 high bits.
\<close>

type_synonym double = rat

definition ilog2_rat :: "rat \<Rightarrow> int" where
  "ilog2_rat x =
     (let (a, b) = quotient_of x;
          k = int (floorlog 2 (nat a)) - int (floorlog 2 (nat b))
      in if 2 powi k \<le> x then k else k - 1)"

definition round_even :: "rat \<Rightarrow> int" where
  "round_even x =
     (let f = \<lfloor>x\<rfloor>; d = x - of_int f
      in if d < 1 / 2 then f else if d > 1 / 2 then f + 1 else if even f then f else f + 1)"

definition rnd :: "rat \<Rightarrow> double" where
  "rnd x =
     (if x = 0 then 0
      else let u = 2 powi (ilog2_rat \<bar>x\<bar> - 52) in of_int (round_even (x / u)) * u)"

definition dadd :: "double \<Rightarrow> double \<Rightarrow> double" where "dadd x y = rnd (x + y)"
definition dsub :: "double \<Rightarrow> double \<Rightarrow> double" where "dsub x y = rnd (x - y)"
definition dmul :: "double \<Rightarrow> double \<Rightarrow> double" where "dmul x y = rnd (x * y)"
definition ddiv :: "double \<Rightarrow> double \<Rightarrow> double" where "ddiv x y = rnd (x / y)"
definition dnat :: "nat \<Rightarrow> double" where "dnat n = rnd (of_nat n)"

text \<open>Conversion of a double to \<open>int64_t\<close>: truncation towards zero.\<close>

definition dtrunc :: "double \<Rightarrow> int" where
  "dtrunc x = (if 0 \<le> x then \<lfloor>x\<rfloor> else \<lceil>x\<rceil>)"

type_synonym rand48 = nat

definition rand48_next :: "rand48 \<Rightarrow> rand48" where
  "rand48_next x = (25214903917 * x + 11) mod 2 ^ 48"

definition srand48 :: "nat \<Rightarrow> rand48" where
  "srand48 seed = (seed mod 2 ^ 32) * 2 ^ 16 + 13070"

definition drand48 :: "rand48 \<Rightarrow> double \<times> rand48" where
  "drand48 x = (let x' = rand48_next x in (of_nat x' / 2 ^ 48, x'))"

definition lrand48 :: "rand48 \<Rightarrow> nat \<times> rand48" where
  "lrand48 x = (let x' = rand48_next x in (x' div 2 ^ 17, x'))"

section \<open>Exponents\<close>

lemma floorlog2_bounds:
  assumes "0 < n"
  shows "(2::rat) powi (int (floorlog 2 n) - 1) \<le> of_nat n"
    and "of_nat n < (2::rat) powi int (floorlog 2 n)"
proof -
  have b: "2 ^ (floorlog 2 n - 1) \<le> n" "n < 2 ^ floorlog 2 n"
    using floorlog_bounds [of n 2] assms by auto
  have pos: "0 < floorlog 2 n" using assms b(2) by (cases "floorlog 2 n") auto
  have "(2::rat) powi (int (floorlog 2 n) - 1) = of_nat (2 ^ (floorlog 2 n - 1))"
    using pos by (simp add: power_int_def nat_diff_distrib)
  also have "\<dots> \<le> of_nat n" using b(1) of_nat_le_iff by blast
  finally show "(2::rat) powi (int (floorlog 2 n) - 1) \<le> of_nat n" .
  have "(of_nat n :: rat) < of_nat (2 ^ floorlog 2 n)" using b(2) of_nat_less_iff by blast
  then show "of_nat n < (2::rat) powi int (floorlog 2 n)" by (simp add: power_int_def)
qed

lemma powi_le_iff: "(2::rat) powi a \<le> 2 powi b \<longleftrightarrow> a \<le> b"
proof
  assume "a \<le> b"
  then show "(2::rat) powi a \<le> 2 powi b" by (intro power_int_increasing) simp_all
next
  assume le: "(2::rat) powi a \<le> 2 powi b"
  show "a \<le> b"
  proof (rule ccontr)
    assume "\<not> a \<le> b"
    then have "(2::rat) powi b < 2 powi a" by (intro power_int_strict_increasing) simp_all
    with le show False by simp
  qed
qed

lemma powi_plus: "(2::rat) powi a * 2 powi b = 2 powi (a + b)"
  by (simp add: power_int_add)

lemma powi_pos: "0 < (2::rat) powi k"
  by (simp add: zero_less_power_int)

lemma ilog2_rat_bounds:
  assumes "0 < x"
  shows "2 powi (ilog2_rat x) \<le> x" and "x < 2 powi (ilog2_rat x + 1)"
proof -
  obtain a b where q: "quotient_of x = (a, b)" by fastforce
  have b: "0 < b" using quotient_of_denom_pos [OF q] .
  have x: "x = of_int a / of_int b" using quotient_of_div [OF q] .
  have a: "0 < a" using assms b x by (simp add: zero_less_divide_iff)
  define k where "k = int (floorlog 2 (nat a)) - int (floorlog 2 (nat b))"
  have na: "(of_nat (nat a) :: rat) = of_int a" and nb: "(of_nat (nat b) :: rat) = of_int b"
    using a b by (simp_all add: of_nat_nat)
  note ba = floorlog2_bounds [of "nat a", unfolded na] and bb = floorlog2_bounds [of "nat b", unfolded nb]
  have lo: "2 powi (k - 1) \<le> x"
  proof -
    have "2 powi (k - 1) * of_int b \<le> 2 powi (k - 1) * (2::rat) powi int (floorlog 2 (nat b))"
      using bb(2) b powi_pos [of "k - 1"] by (intro mult_left_mono) auto
    also have "\<dots> = 2 powi (int (floorlog 2 (nat a)) - 1)"
      unfolding powi_plus k_def by simp
    also have "\<dots> \<le> of_int a" using ba(1) a by simp
    finally show ?thesis using b x by (simp add: pos_le_divide_eq)
  qed
  have hi: "x < 2 powi (k + 1)"
  proof -
    have "(of_int a :: rat) < 2 powi int (floorlog 2 (nat a))" using ba(2) a by simp
    also have "\<dots> = 2 powi (k + 1) * 2 powi (int (floorlog 2 (nat b)) - 1)"
      unfolding powi_plus k_def by simp
    also have "\<dots> \<le> 2 powi (k + 1) * of_int b"
      using bb(1) b powi_pos [of "k + 1"] by (intro mult_left_mono) auto
    finally show ?thesis using b x by (simp add: pos_divide_less_eq)
  qed
  have l: "ilog2_rat x = (if 2 powi k \<le> x then k else k - 1)"
    by (simp add: ilog2_rat_def q k_def Let_def)
  show "2 powi (ilog2_rat x) \<le> x" using lo by (simp add: l)
  show "x < 2 powi (ilog2_rat x + 1)" using hi by (simp add: l)
qed

lemma ilog2_rat_mono:
  assumes "0 < x" "x \<le> y"
  shows "ilog2_rat x \<le> ilog2_rat y"
proof -
  have "(2::rat) powi (ilog2_rat x) < 2 powi (ilog2_rat y + 1)"
    using ilog2_rat_bounds(1) [of x] ilog2_rat_bounds(2) [of y] assms by simp
  then have "ilog2_rat x < ilog2_rat y + 1"
    using powi_le_iff [of "ilog2_rat y + 1" "ilog2_rat x"] by simp
  then show ?thesis by simp
qed

lemma ilog2_rat_le: "0 < x \<Longrightarrow> x < 2 powi (k + 1) \<Longrightarrow> ilog2_rat x \<le> k"
  using ilog2_rat_bounds(1) [of x] powi_le_iff [of "k + 1" "ilog2_rat x"] by force

section \<open>Rounding\<close>

lemma round_even_of_int [simp]: "round_even (of_int n) = n"
  by (simp add: round_even_def)

lemma round_even_numeral [simp]: "round_even (numeral n) = numeral n"
  using round_even_of_int [of "numeral n"] by (simp del: round_even_of_int)

lemma round_even_mono:
  assumes "x \<le> y"
  shows "round_even x \<le> round_even y"
proof (cases "\<lfloor>x\<rfloor> = \<lfloor>y\<rfloor>")
  case True
  then show ?thesis using assms by (auto simp: round_even_def Let_def)
next
  case False
  then have "\<lfloor>x\<rfloor> + 1 \<le> \<lfloor>y\<rfloor>" using floor_mono [OF assms] by simp
  then show ?thesis by (auto simp: round_even_def Let_def)
qed

lemma rnd_zero [simp]: "rnd 0 = 0"
  by (simp add: rnd_def)

lemma rnd_pos_unfold:
  "0 < x \<Longrightarrow> rnd x = of_int (round_even (x / 2 powi (ilog2_rat x - 52))) * 2 powi (ilog2_rat x - 52)"
  by (simp add: rnd_def Let_def)

lemma rnd_lower:
  assumes "0 < x"
  shows "2 powi (ilog2_rat x) \<le> rnd x"
proof -
  let ?u = "(2::rat) powi (ilog2_rat x - 52)"
  have eq: "(2::rat) powi (ilog2_rat x) = of_int (2 ^ 52) * ?u"
    by (simp add: power_int_diff)
  then have "of_int (2 ^ 52) \<le> x / ?u"
    using ilog2_rat_bounds(1) [OF assms] powi_pos [of "ilog2_rat x - 52"]
    by (simp add: pos_le_divide_eq)
  then have "2 ^ 52 \<le> round_even (x / ?u)"
    using round_even_mono [of "of_int (2 ^ 52)" "x / ?u"] by simp
  then have "of_int (2 ^ 52) \<le> (of_int (round_even (x / ?u)) :: rat)"
    using of_int_le_iff by blast
  then show ?thesis
    unfolding rnd_pos_unfold [OF assms] eq
    using powi_pos [of "ilog2_rat x - 52"] by (intro mult_right_mono) auto
qed

lemma rnd_upper:
  assumes "0 < x"
  shows "rnd x \<le> 2 powi (ilog2_rat x + 1)"
proof -
  let ?u = "(2::rat) powi (ilog2_rat x - 52)"
  have eq: "(2::rat) powi (ilog2_rat x + 1) = of_int (2 ^ 53) * ?u"
    by (simp add: power_int_diff power_int_add)
  then have "x / ?u \<le> of_int (2 ^ 53)"
    using ilog2_rat_bounds(2) [OF assms] powi_pos [of "ilog2_rat x - 52"]
    by (simp add: pos_divide_le_eq)
  then have "round_even (x / ?u) \<le> 2 ^ 53"
    using round_even_mono [of "x / ?u" "of_int (2 ^ 53)"] by simp
  then have "(of_int (round_even (x / ?u)) :: rat) \<le> of_int (2 ^ 53)"
    using of_int_le_iff by blast
  then show ?thesis
    unfolding rnd_pos_unfold [OF assms] eq
    using powi_pos [of "ilog2_rat x - 52"] by (intro mult_right_mono) auto
qed

lemma rnd_mono:
  assumes "0 \<le> x" "x \<le> y"
  shows "rnd x \<le> rnd y"
proof (cases "x = 0")
  case True
  show ?thesis
  proof (cases "y = 0")
    case False
    then have "0 < rnd y"
      using less_le_trans [OF powi_pos rnd_lower, of y] assms True by simp
    then show ?thesis by (simp add: True)
  qed (simp add: True)
next
  case False
  then have x: "0 < x" and y: "0 < y" using assms by auto
  show ?thesis
  proof (cases "ilog2_rat x = ilog2_rat y")
    case True
    let ?u = "(2::rat) powi (ilog2_rat y - 52)"
    have "x / ?u \<le> y / ?u" using assms(2) powi_pos [of "ilog2_rat y - 52"] by (simp add: divide_right_mono)
    then show ?thesis
      unfolding rnd_pos_unfold [OF x] rnd_pos_unfold [OF y] True
      using powi_pos [of "ilog2_rat y - 52"] round_even_mono by (intro mult_right_mono) auto
  next
    case False
    then have "ilog2_rat x + 1 \<le> ilog2_rat y" using ilog2_rat_mono [OF x assms(2)] by simp
    then have "(2::rat) powi (ilog2_rat x + 1) \<le> 2 powi (ilog2_rat y)" by (simp add: powi_le_iff)
    then show ?thesis using rnd_upper [OF x] rnd_lower [OF y] by simp
  qed
qed

lemma rnd_pos: "0 < x \<Longrightarrow> 0 < rnd x"
  using less_le_trans [OF powi_pos rnd_lower] .

lemma rnd_nonneg: "0 \<le> x \<Longrightarrow> 0 \<le> rnd x"
  using rnd_mono [of 0 x] by simp

text \<open>A number with at most 53 significant bits is a double.\<close>

lemma rnd_exact:
  assumes "0 < x" "x = of_int m * 2 powi (ilog2_rat x - 52)"
  shows "rnd x = x"
proof -
  let ?u = "(2::rat) powi (ilog2_rat x - 52)"
  have "x / ?u = of_int m" using assms(2) powi_pos [of "ilog2_rat x - 52"] by (simp add: field_simps)
  then show ?thesis unfolding rnd_pos_unfold [OF assms(1)] using assms(2) by simp
qed

lemma rnd_dyadic:
  assumes "n < 2 ^ 53"
  shows "rnd (of_nat n / 2 ^ k) = of_nat n / 2 ^ k"
proof (cases "n = 0")
  case False
  define x :: rat where "x = of_nat n / 2 ^ k"
  have pos: "0 < x" using False by (simp add: x_def)
  have "(of_nat n :: rat) < of_nat (2 ^ 53)" using assms of_nat_less_iff by blast
  then have "x < 2 ^ 53 / 2 ^ k" by (simp add: x_def divide_strict_right_mono)
  also have "\<dots> = 2 powi (52 - int k + 1)" using power_int_diff [of "2::rat" 53 "int k"] by (simp add: power_int_def)
  finally have le: "ilog2_rat x \<le> 52 - int k" by (rule ilog2_rat_le [OF pos])
  define j where "j = nat (52 - int k - ilog2_rat x)"
  have j: "int j = 52 - int k - ilog2_rat x" using le by (simp add: j_def)
  have "x = of_int (int n * 2 ^ j) * 2 powi (ilog2_rat x - 52)"
  proof -
    have "(2::rat) ^ j * 2 powi (ilog2_rat x - 52) = 2 powi (- int k)"
      using powi_plus [of "int j" "ilog2_rat x - 52"] unfolding j power_int_of_nat [symmetric] by simp
    then show ?thesis by (simp add: x_def power_int_minus divide_inverse mult.assoc)
  qed
  from rnd_exact [OF pos this] show ?thesis by (simp add: x_def)
qed simp

lemma dnat_exact [simp]: "n < 2 ^ 53 \<Longrightarrow> dnat n = of_nat n"
  using rnd_dyadic [of n 0] by (simp add: dnat_def)

lemma rnd_le_one: "0 \<le> x \<Longrightarrow> x \<le> 1 \<Longrightarrow> rnd x \<le> 1"
  using rnd_mono [of x 1] dnat_exact [of 1] by (simp add: dnat_def)

section \<open>The random numbers\<close>

lemma drand48_range: "drand48 x = (f, x') \<Longrightarrow> 0 \<le> f \<and> f < 1"
proof -
  assume eq: "drand48 x = (f, x')"
  have "rand48_next x < 2 ^ 48" by (simp add: rand48_next_def)
  then have "(of_nat (rand48_next x) :: rat) < of_nat (2 ^ 48)" using of_nat_less_iff by blast
  with eq show ?thesis by (auto simp: drand48_def Let_def)
qed

lemma lrand48_range: "lrand48 x = (r, x') \<Longrightarrow> r < 2 ^ 31"
proof -
  assume eq: "lrand48 x = (r, x')"
  have "rand48_next x < 2 ^ 48" by (simp add: rand48_next_def)
  with eq show ?thesis by (auto simp: lrand48_def Let_def less_mult_imp_div_less)
qed

end
