(* ===== verification/Tag_Buffer.thy ===== *)
theory Tag_Buffer
  imports Numerics
begin

text \<open>
  The tag buffer of Banshee (\<open>TagBuffer\<close> in \<open>src/src/mc.h\<close> and \<open>src/src/mc.cpp\<close>): a small
  set-associative buffer next to the memory controller that remembers which pages were remapped
  (moved into or out of the DRAM cache) since the page table was last updated.  An entry with its
  remap bit set must not be lost before the buffer is flushed; entries without it are only hints and
  are replaced in least-recently-used order.

  Tag 0 marks an unused entry, so the source cannot tell an unused entry from an entry for page 0.
  The invariant \<open>tb_inv\<close> says what the code keeps true in spite of that.  The interface that the
  memory controller relies on is the locale \<open>remap_table\<close>; it is interpreted on the definitions
  below.
\<close>

record TagBufferEntry =
  tbe_tag :: address
  tbe_remap :: bool
  tbe_lru :: nat

record TagBuffer =
  tag_buffer :: "TagBufferEntry list list"
  tb_num_ways :: nat
  tb_num_sets :: nat
  entry_occupied :: nat
  last_clear_time :: cyc

type_synonym tb_set = "TagBufferEntry list"

definition fresh_entries :: "nat \<Rightarrow> tb_set" where
  "fresh_entries n = map (\<lambda>j. \<lparr>tbe_tag = 0, tbe_remap = False, tbe_lru = j\<rparr>) [0..<n]"

text \<open>The constructor does not initialise \<open>_last_clear_time\<close>; \<open>t0\<close> is whatever it holds.\<close>

definition TagBuffer_new :: "nat \<Rightarrow> cyc \<Rightarrow> TagBuffer" where
  "TagBuffer_new tb_size t0 =
     (let num_ways = 8; num_sets = tb_size div num_ways
      in \<lparr>tag_buffer = replicate num_sets (fresh_entries num_ways),
          tb_num_ways = num_ways, tb_num_sets = num_sets,
          entry_occupied = 0, last_clear_time = t0\<rparr>)"

definition tb_set_of :: "TagBuffer \<Rightarrow> address \<Rightarrow> nat" where
  "tb_set_of tb tag = tag mod tb_num_sets tb"

definition tb_entries :: "TagBuffer \<Rightarrow> address \<Rightarrow> tb_set" where
  "tb_entries tb tag = tag_buffer tb ! tb_set_of tb tag"

text \<open>\<open>tag % _num_sets\<close> traps when the buffer was configured with no set.\<close>

definition existInTB :: "TagBuffer \<Rightarrow> address \<Rightarrow> nat option" where
  "existInTB tb tag = do {
     assert_that (0 < tb_num_sets tb);
     Some (first_index (\<lambda>e. tbe_tag e = tag) (tb_entries tb tag)) }"

definition remap_count :: "TagBuffer \<Rightarrow> nat" where
  "remap_count tb = sum_list (map (count_if tbe_remap) (tag_buffer tb))"

definition canInsert :: "TagBuffer \<Rightarrow> address \<Rightarrow> bool option" where
  "canInsert tb tag = do {
     assert_that (remap_count tb = entry_occupied tb);
     assert_that (0 < tb_num_sets tb);
     Some (\<exists>e \<in> set (tb_entries tb tag). \<not> tbe_remap e \<or> tbe_tag e = tag) }"

definition canInsert2 :: "TagBuffer \<Rightarrow> address \<Rightarrow> address \<Rightarrow> bool option" where
  "canInsert2 tb tag1 tag2 = do {
     assert_that (0 < tb_num_sets tb);
     if tb_set_of tb tag1 \<noteq> tb_set_of tb tag2
     then do {
       b \<leftarrow> canInsert tb tag1;
       if b then canInsert tb tag2 else Some False }
     else Some (2 \<le> count_if (\<lambda>e. \<not> tbe_remap e \<or> tbe_tag e = tag1 \<or> tbe_tag e = tag2)
                    (tb_entries tb tag1)) }"

definition tb_touch :: "tb_set \<Rightarrow> nat \<Rightarrow> tb_set" where
  "tb_touch es way =
     (let v = tbe_lru (es ! way);
          es' = map (\<lambda>e. if \<not> tbe_remap e \<and> tbe_lru e < v then e\<lparr>tbe_lru := tbe_lru e + 1\<rparr> else e) es
      in es'[way := (es' ! way)\<lparr>tbe_lru := 0\<rparr>])"

definition updateLRU_tb :: "TagBuffer \<Rightarrow> nat \<Rightarrow> nat \<Rightarrow> TagBuffer option" where
  "updateLRU_tb tb set_num way = do {
     assert_that (\<not> tbe_remap (tag_buffer tb ! set_num ! way));
     Some (tb\<lparr>tag_buffer := (tag_buffer tb)[set_num := tb_touch (tag_buffer tb ! set_num) way]\<rparr>) }"

text \<open>
  The victim search of \<open>insert\<close>: the last way, in order, among the entries without remap bit, whose
  rank is at least every rank seen before; \<open>_num_ways\<close> when there is none.
\<close>

fun tb_victim :: "tb_set \<Rightarrow> nat \<Rightarrow> nat \<Rightarrow> nat \<Rightarrow> nat" where
  "tb_victim [] i max_lru replace_way = replace_way"
| "tb_victim (e # es) i max_lru replace_way =
     (if \<not> tbe_remap e \<and> max_lru \<le> tbe_lru e
      then tb_victim es (Suc i) (tbe_lru e) i
      else tb_victim es (Suc i) max_lru replace_way)"

text \<open>The pairwise check at the start of \<open>insert\<close>: no tag other than 0 occurs twice.\<close>

fun tags_distinct :: "tb_set \<Rightarrow> bool" where
  "tags_distinct [] = True"
| "tags_distinct (e # es) =
     ((\<forall>e' \<in> set es. tbe_tag e \<noteq> tbe_tag e' \<or> tbe_tag e = 0) \<and> tags_distinct es)"

definition tb_upd :: "TagBuffer \<Rightarrow> nat \<Rightarrow> nat \<Rightarrow> (TagBufferEntry \<Rightarrow> TagBufferEntry) \<Rightarrow> TagBuffer" where
  "tb_upd tb set_num way f =
     tb\<lparr>tag_buffer := (tag_buffer tb)[set_num :=
          (tag_buffer tb ! set_num)[way := f (tag_buffer tb ! set_num ! way)]]\<rparr>"

definition tb_insert :: "TagBuffer \<Rightarrow> address \<Rightarrow> bool \<Rightarrow> TagBuffer option" where
  "tb_insert tb tag remap = do {
     let set_num = tb_set_of tb tag;
     exist_way \<leftarrow> existInTB tb tag;
     let es = tag_buffer tb ! set_num;
     assert_that (tags_distinct es);
     if exist_way < tb_num_ways tb
     then do {
       assert_that (tag = tbe_tag (es ! exist_way));
       if remap
       then Some ((tb_upd tb set_num exist_way (\<lambda>e. e\<lparr>tbe_remap := True\<rparr>))
                    \<lparr>entry_occupied :=
                       entry_occupied tb + (if tbe_remap (es ! exist_way) then 0 else 1)\<rparr>)
       else if \<not> tbe_remap (es ! exist_way) then updateLRU_tb tb set_num exist_way
       else Some tb }
     else do {
       let replace_way = tb_victim es 0 0 (tb_num_ways tb);
       assert_that (replace_way \<noteq> tb_num_ways tb);
       let tb' = tb_upd tb set_num replace_way (\<lambda>e. e\<lparr>tbe_tag := tag, tbe_remap := remap\<rparr>);
       if \<not> remap then updateLRU_tb tb' set_num replace_way
       else Some (tb'\<lparr>entry_occupied := entry_occupied tb' + 1\<rparr>) } }"

definition clearTagBuffer :: "TagBuffer \<Rightarrow> TagBuffer" where
  "clearTagBuffer tb =
     tb\<lparr>entry_occupied := 0,
        tag_buffer := replicate (tb_num_sets tb) (fresh_entries (tb_num_ways tb))\<rparr>"

definition setClearTime :: "TagBuffer \<Rightarrow> cyc \<Rightarrow> TagBuffer" where
  "setClearTime tb t = tb\<lparr>last_clear_time := t\<rparr>"

definition getOccupancy :: "TagBuffer \<Rightarrow> double" where
  "getOccupancy tb =
     ddiv (ddiv (dmul 1 (dnat (entry_occupied tb))) (dnat (tb_num_ways tb))) (dnat (tb_num_sets tb))"

section \<open>Invariant and abstraction\<close>

text \<open>
  A set is well formed when it has one entry per way, no tag but 0 twice, entries without remap bit
  have distinct ranks below the associativity, a remapped entry for page 0 is the first
  entry with tag 0 (so that \<open>existInTB\<close> finds it), and every tag belongs to the set.
\<close>

definition free_ways :: "tb_set \<Rightarrow> nat set" where
  "free_ways es = {i. i < length es \<and> \<not> tbe_remap (es ! i)}"

definition set_inv :: "nat \<Rightarrow> nat \<Rightarrow> nat \<Rightarrow> tb_set \<Rightarrow> bool" where
  "set_inv ways sets s es \<longleftrightarrow>
     length es = ways \<and>
     (\<forall>i < ways. \<forall>j < ways. i \<noteq> j \<longrightarrow> tbe_tag (es ! i) = tbe_tag (es ! j) \<longrightarrow> tbe_tag (es ! i) = 0) \<and>
     ranks_ok ways (\<lambda>i. tbe_lru (es ! i)) (free_ways es) \<and>
     (\<forall>j < ways. tbe_remap (es ! j) \<longrightarrow> (\<forall>i < j. tbe_tag (es ! i) \<noteq> tbe_tag (es ! j))) \<and>
     (\<forall>i < ways. tbe_remap (es ! i) \<or> tbe_tag (es ! i) \<noteq> 0 \<longrightarrow> tbe_tag (es ! i) mod sets = s)"

definition tb_inv :: "TagBuffer \<Rightarrow> bool" where
  "tb_inv tb \<longleftrightarrow>
     0 < tb_num_sets tb \<and> 0 < tb_num_ways tb \<and>
     length (tag_buffer tb) = tb_num_sets tb \<and>
     (\<forall>s < tb_num_sets tb. set_inv (tb_num_ways tb) (tb_num_sets tb) s (tag_buffer tb ! s)) \<and>
     entry_occupied tb = remap_count tb"

text \<open>The abstract content: the pages whose remapping the buffer still has to report.\<close>

definition remapped_in :: "tb_set \<Rightarrow> address set" where
  "remapped_in es = {tbe_tag e |e. e \<in> set es \<and> tbe_remap e}"

definition remapped :: "TagBuffer \<Rightarrow> address set" where
  "remapped tb = (\<Union>es \<in> set (tag_buffer tb). remapped_in es)"

section \<open>One set of the buffer\<close>

lemma set_invD [wf_dest]:
  assumes "set_inv ways sets s es"
  shows "length es = ways"
    and "\<And>i j. i < ways \<Longrightarrow> j < ways \<Longrightarrow> i \<noteq> j \<Longrightarrow> tbe_tag (es ! i) = tbe_tag (es ! j) \<Longrightarrow>
           tbe_tag (es ! i) = 0"
    and "ranks_ok ways (\<lambda>i. tbe_lru (es ! i)) (free_ways es)"
    and "\<And>i j. j < ways \<Longrightarrow> tbe_remap (es ! j) \<Longrightarrow> i < j \<Longrightarrow> tbe_tag (es ! i) \<noteq> tbe_tag (es ! j)"
    and "\<And>i. i < ways \<Longrightarrow> tbe_remap (es ! i) \<or> tbe_tag (es ! i) \<noteq> 0 \<Longrightarrow> tbe_tag (es ! i) mod sets = s"
  using assms by (auto simp: set_inv_def)

lemma set_invI:
  assumes "length es = ways"
    and "\<And>i j. i < ways \<Longrightarrow> j < ways \<Longrightarrow> i \<noteq> j \<Longrightarrow> tbe_tag (es ! i) = tbe_tag (es ! j) \<Longrightarrow>
           tbe_tag (es ! i) = 0"
    and "ranks_ok ways (\<lambda>i. tbe_lru (es ! i)) (free_ways es)"
    and "\<And>i j. j < ways \<Longrightarrow> tbe_remap (es ! j) \<Longrightarrow> i < j \<Longrightarrow> tbe_tag (es ! i) \<noteq> tbe_tag (es ! j)"
    and "\<And>i. i < ways \<Longrightarrow> tbe_remap (es ! i) \<or> tbe_tag (es ! i) \<noteq> 0 \<Longrightarrow> tbe_tag (es ! i) mod sets = s"
  shows "set_inv ways sets s es"
  unfolding set_inv_def using assms by blast

text \<open>A change of tags and remap bits that frees no way keeps the ranks in order.\<close>

lemma ranks_ok_same_lru:
  assumes "ranks_ok ways (\<lambda>i. tbe_lru (es ! i)) (free_ways es)"
    and "free_ways es' \<subseteq> free_ways es"
    and "\<And>i. i \<in> free_ways es' \<Longrightarrow> tbe_lru (es' ! i) = tbe_lru (es ! i)"
  shows "ranks_ok ways (\<lambda>i. tbe_lru (es' ! i)) (free_ways es')"
proof -
  have "ranks_ok ways (\<lambda>i. tbe_lru (es ! i)) (free_ways es')"
    using assms(1,2) by (rule ranks_ok_subset)
  then show ?thesis by (subst ranks_ok_cong [OF assms(3)])
qed

lemma tags_distinct_iff:
  "tags_distinct es \<longleftrightarrow>
   (\<forall>j < length es. \<forall>i < j. tbe_tag (es ! i) = tbe_tag (es ! j) \<longrightarrow> tbe_tag (es ! i) = 0)"
proof (induction es)
  case (Cons e es)
  show ?case unfolding tags_distinct.simps Cons.IH
    by (auto simp: all_set_conv_all_nth nth_Cons less_Suc_eq_0_disj split: nat.splits)
qed simp

lemma set_inv_tags_distinct: "set_inv ways sets s es \<Longrightarrow> tags_distinct es"
proof -
  assume inv: "set_inv ways sets s es"
  have "tbe_tag (es ! i) = 0" if "j < length es" "i < j" "tbe_tag (es ! i) = tbe_tag (es ! j)" for i j
    using set_invD(2) [OF inv, of i j] set_invD(1) [OF inv] that by simp
  then show ?thesis unfolding tags_distinct_iff by blast
qed

lemma fresh_entries_nth [simp]:
  "length (fresh_entries n) = n"
  "i < n \<Longrightarrow> fresh_entries n ! i = \<lparr>tbe_tag = 0, tbe_remap = False, tbe_lru = i\<rparr>"
  by (simp_all add: fresh_entries_def)

lemma fresh_set_inv: "set_inv ways sets s (fresh_entries ways)"
proof -
  have "ranks_ok ways (\<lambda>i. tbe_lru (fresh_entries ways ! i)) (free_ways (fresh_entries ways))"
    by (auto simp: ranks_ok_def free_ways_def inj_on_def)
  then show ?thesis by (auto simp: set_inv_def)
qed

lemma fresh_count [simp]: "count_if tbe_remap (fresh_entries n) = 0"
  by (auto simp: count_if_zero_iff fresh_entries_def)

text \<open>Setting the remap bit of the entry that \<open>existInTB\<close> finds.\<close>

lemma mark_set_inv:
  assumes "set_inv ways sets s es" "tag mod sets = s"
    and w: "w = first_index (\<lambda>e. tbe_tag e = tag) es" "w < ways"
  shows "set_inv ways sets s (es[w := (es ! w)\<lparr>tbe_remap := True\<rparr>])"
proof -
  note d = set_invD [OF assms(1)]
  have tw: "tbe_tag (es ! w) = tag" using first_index_nth [of "\<lambda>e. tbe_tag e = tag" es] w d(1) by simp
  have before: "tbe_tag (es ! i) \<noteq> tag" if "i < w" for i
    using first_index_before [of i "\<lambda>e. tbe_tag e = tag"] that w(1) by blast
  let ?es = "es[w := (es ! w)\<lparr>tbe_remap := True\<rparr>]"
  have tags: "tbe_tag (?es ! i) = tbe_tag (es ! i)" if "i < ways" for i
    using that d(1) by (simp add: nth_list_update_if)
  show ?thesis
  proof (rule set_invI)
    show "ranks_ok ways (\<lambda>i. tbe_lru (?es ! i)) (free_ways ?es)"
      using d(3) by (rule ranks_ok_same_lru)
        (use d(1) in \<open>auto simp: free_ways_def nth_list_update_if split: if_splits\<close>)
  next
    fix i j assume j: "j < ways" "tbe_remap (?es ! j)" "i < j"
    show "tbe_tag (?es ! i) \<noteq> tbe_tag (?es ! j)"
    proof (cases "j = w")
      case True
      then show ?thesis using before [of i] j tags tw by simp
    next
      case False
      then have "tbe_remap (es ! j)" using j d(1) by (simp add: nth_list_update_if)
      then show ?thesis using d(4) [of j i] j tags by simp
    qed
  next
    fix i assume "i < ways" "tbe_remap (?es ! i) \<or> tbe_tag (?es ! i) \<noteq> 0"
    then show "tbe_tag (?es ! i) mod sets = s"
      using tags [of i] d(1) d(5) [of i] tw assms(2)
      by (cases "i = w") (simp_all add: nth_list_update_if)
  qed (use d(1,2) tags in auto)
qed

lemma tb_touch_nth:
  assumes "way < length es" "i < length es"
  shows "tb_touch es way ! i =
    (es ! i)\<lparr>tbe_lru := (if i = way then 0
       else if tbe_remap (es ! i) then tbe_lru (es ! i)
       else touch_rank (tbe_lru (es ! way)) (tbe_lru (es ! i)))\<rparr>"
  using assms by (auto simp: tb_touch_def Let_def nth_list_update_if touch_rank_def)

lemma tb_touch_length [simp]: "length (tb_touch es way) = length es"
  by (simp add: tb_touch_def Let_def)

lemma touch_set_inv:
  assumes "set_inv ways sets s es" "way < ways" "\<not> tbe_remap (es ! way)"
  shows "set_inv ways sets s (tb_touch es way)"
proof -
  note d = set_invD [OF assms(1)]
  have free: "free_ways (tb_touch es way) = free_ways es"
    using assms(2) d(1) by (auto simp: free_ways_def tb_touch_nth)
  have "way \<in> free_ways es" using assms(2,3) d(1) by (simp add: free_ways_def)
  then have "ranks_ok ways
      (\<lambda>i. if i = way then 0 else touch_rank (tbe_lru (es ! way)) (tbe_lru (es ! i))) (free_ways es)"
    using d(3) by (rule ranks_ok_touch [rotated])
  then have "ranks_ok ways (\<lambda>i. tbe_lru (tb_touch es way ! i)) (free_ways (tb_touch es way))"
    unfolding free using assms(2) d(1)
    by (subst ranks_ok_cong [where g = "\<lambda>i. if i = way then 0
          else touch_rank (tbe_lru (es ! way)) (tbe_lru (es ! i))"])
       (auto simp: free_ways_def tb_touch_nth)
  moreover have "tbe_tag (tb_touch es way ! i) = tbe_tag (es ! i)"
      "tbe_remap (tb_touch es way ! i) = tbe_remap (es ! i)" if "i < ways" for i
    using that assms(2) d(1) by (simp_all add: tb_touch_nth)
  ultimately show ?thesis using d(1,2,4,5) by (intro set_invI) auto
qed

text \<open>Overwriting an entry without remap bit by a tag that the set does not hold.\<close>

lemma replace_set_inv:
  assumes "set_inv ways sets s es" "tag mod sets = s" "v < ways" "\<not> tbe_remap (es ! v)"
    and "\<forall>e \<in> set es. tbe_tag e \<noteq> tag"
  shows "set_inv ways sets s (es[v := (es ! v)\<lparr>tbe_tag := tag, tbe_remap := remap\<rparr>])"
proof -
  note d = set_invD [OF assms(1)]
  have ne: "tbe_tag (es ! i) \<noteq> tag" if "i < ways" for i
    using assms(5) that d(1) by (auto simp: all_set_conv_all_nth)
  let ?es = "es[v := (es ! v)\<lparr>tbe_tag := tag, tbe_remap := remap\<rparr>]"
  have nth: "?es ! i = (if i = v then (es ! v)\<lparr>tbe_tag := tag, tbe_remap := remap\<rparr> else es ! i)"
    if "i < ways" for i
    using that d(1) by (simp add: nth_list_update_if)
  show ?thesis
  proof (rule set_invI)
    show "ranks_ok ways (\<lambda>i. tbe_lru (?es ! i)) (free_ways ?es)"
      using d(3) by (rule ranks_ok_same_lru)
        (use d(1) assms(4) in \<open>auto simp: free_ways_def nth_list_update_if split: if_splits\<close>)
  next
    fix i j assume j: "j < ways" "tbe_remap (?es ! j)" "i < j"
    then have i: "i < ways" by simp
    show "tbe_tag (?es ! i) \<noteq> tbe_tag (?es ! j)"
      using j(2,3) ne [OF i] ne [OF j(1)] d(4) [of j i] j(1) unfolding nth [OF i] nth [OF j(1)]
      by (cases "i = v"; cases "j = v") auto
  next
    fix i j assume "i < ways" "j < ways" "i \<noteq> j" "tbe_tag (?es ! i) = tbe_tag (?es ! j)"
    then show "tbe_tag (?es ! i) = 0"
      using ne [of i] ne [of j] d(2) [of i j] by (cases "i = v"; cases "j = v") (auto simp: nth)
  next
    fix i assume "i < ways" "tbe_remap (?es ! i) \<or> tbe_tag (?es ! i) \<noteq> 0"
    then show "tbe_tag (?es ! i) mod sets = s"
      using assms(2) d(5) [of i] by (cases "i = v") (auto simp: nth)
  qed (use d(1) in simp)
qed

section \<open>The victim of an insertion\<close>

lemma tb_victim_cases:
  "(tb_victim es i m rw = rw \<and> (\<forall>e \<in> set es. \<not> tbe_remap e \<longrightarrow> tbe_lru e < m)) \<or>
   (\<exists>j < length es. tb_victim es i m rw = i + j \<and> \<not> tbe_remap (es ! j) \<and> m \<le> tbe_lru (es ! j) \<and>
      (\<forall>e \<in> set es. \<not> tbe_remap e \<longrightarrow> tbe_lru e \<le> tbe_lru (es ! j)))"
proof (induction es arbitrary: i m rw)
  case (Cons e es)
  show ?case
  proof (cases "\<not> tbe_remap e \<and> m \<le> tbe_lru e")
    case True
    then have eq: "tb_victim (e # es) i m rw = tb_victim es (Suc i) (tbe_lru e) i" by simp
    from Cons.IH [of "Suc i" "tbe_lru e" i] show ?thesis
    proof (elim disjE exE conjE)
      assume "tb_victim es (Suc i) (tbe_lru e) i = i"
        and "\<forall>e' \<in> set es. \<not> tbe_remap e' \<longrightarrow> tbe_lru e' < tbe_lru e"
      with True show ?thesis
        by (intro disjI2 exI [of _ 0]) (auto simp: eq simp del: tb_victim.simps intro: less_imp_le)
    next
      fix j assume "j < length es" "tb_victim es (Suc i) (tbe_lru e) i = Suc i + j"
        "\<not> tbe_remap (es ! j)" "tbe_lru e \<le> tbe_lru (es ! j)"
        "\<forall>e' \<in> set es. \<not> tbe_remap e' \<longrightarrow> tbe_lru e' \<le> tbe_lru (es ! j)"
      with True show ?thesis
        by (intro disjI2 exI [of _ "Suc j"]) (auto simp: eq simp del: tb_victim.simps)
    qed
  next
    case False
    then have eq: "tb_victim (e # es) i m rw = tb_victim es (Suc i) m rw" by auto
    from Cons.IH [of "Suc i" m rw] show ?thesis
    proof (elim disjE exE conjE)
      assume "tb_victim es (Suc i) m rw = rw" "\<forall>e' \<in> set es. \<not> tbe_remap e' \<longrightarrow> tbe_lru e' < m"
      with False show ?thesis by (intro disjI1) (auto simp: eq simp del: tb_victim.simps)
    next
      fix j assume "j < length es" "tb_victim es (Suc i) m rw = Suc i + j"
        "\<not> tbe_remap (es ! j)" "m \<le> tbe_lru (es ! j)"
        "\<forall>e' \<in> set es. \<not> tbe_remap e' \<longrightarrow> tbe_lru e' \<le> tbe_lru (es ! j)"
      with False show ?thesis
        by (intro disjI2 exI [of _ "Suc j"]) (auto simp: eq simp del: tb_victim.simps)
    qed
  qed
qed simp

lemma tb_victim_free:
  assumes "\<exists>e \<in> set es. \<not> tbe_remap e"
  obtains v where "tb_victim es 0 0 n = v" "v < length es" "\<not> tbe_remap (es ! v)"
    "\<And>i. i < length es \<Longrightarrow> \<not> tbe_remap (es ! i) \<Longrightarrow> tbe_lru (es ! i) \<le> tbe_lru (es ! v)"
proof -
  from tb_victim_cases [of es 0 0 n] assms obtain v where "v < length es"
    "tb_victim es 0 0 n = v" "\<not> tbe_remap (es ! v)"
    "\<forall>e \<in> set es. \<not> tbe_remap e \<longrightarrow> tbe_lru e \<le> tbe_lru (es ! v)" by auto
  then show thesis by (intro that) auto
qed

lemma tb_victim_none:
  assumes "\<forall>e \<in> set es. tbe_remap e"
  shows "tb_victim es 0 0 n = n"
  using tb_victim_cases [of es 0 0 n] assms by auto

section \<open>The whole buffer\<close>

lemma tb_invD [wf_dest]:
  assumes "tb_inv tb"
  shows "0 < tb_num_sets tb" "0 < tb_num_ways tb" "length (tag_buffer tb) = tb_num_sets tb"
    and "\<And>s. s < tb_num_sets tb \<Longrightarrow> set_inv (tb_num_ways tb) (tb_num_sets tb) s (tag_buffer tb ! s)"
    and "entry_occupied tb = remap_count tb"
  using assms by (auto simp: tb_inv_def)

lemma tb_set_of_less [simp]: "tb_inv tb \<Longrightarrow> tb_set_of tb tag < tb_num_sets tb"
  by (simp add: tb_set_of_def tb_inv_def)

lemma tb_entries_inv:
  "tb_inv tb \<Longrightarrow> set_inv (tb_num_ways tb) (tb_num_sets tb) (tb_set_of tb tag) (tb_entries tb tag)"
  by (simp add: tb_entries_def tb_invD(4))

lemma remap_count_update:
  assumes "s < length (tag_buffer tb)"
  shows "remap_count (tb\<lparr>tag_buffer := (tag_buffer tb)[s := es]\<rparr>) + count_if tbe_remap (tag_buffer tb ! s)
       = remap_count tb + count_if tbe_remap es"
  using sum_list_update_nat [of s "map (count_if tbe_remap) (tag_buffer tb)" "count_if tbe_remap es"] assms
  by (simp add: remap_count_def map_update)

lemma tb_inv_update:
  assumes "tb_inv tb" "s < tb_num_sets tb" "set_inv (tb_num_ways tb) (tb_num_sets tb) s es"
    and "n + count_if tbe_remap (tag_buffer tb ! s) = entry_occupied tb + count_if tbe_remap es"
  shows "tb_inv (tb\<lparr>tag_buffer := (tag_buffer tb)[s := es], entry_occupied := n\<rparr>)"
proof -
  note d = tb_invD [OF assms(1)]
  have "remap_count (tb\<lparr>tag_buffer := (tag_buffer tb)[s := es], entry_occupied := n\<rparr>) =
      remap_count (tb\<lparr>tag_buffer := (tag_buffer tb)[s := es]\<rparr>)"
    by (simp add: remap_count_def)
  then have "n = remap_count (tb\<lparr>tag_buffer := (tag_buffer tb)[s := es], entry_occupied := n\<rparr>)"
    using remap_count_update [of s tb es] assms(2,4) d(3,5) by simp
  then show ?thesis
    using d assms(2,3) by (simp add: tb_inv_def nth_list_update_if)
qed

lemma remapped_alt: "remapped tb = (\<Union>s < length (tag_buffer tb). remapped_in (tag_buffer tb ! s))"
  by (auto simp: remapped_def set_conv_nth)

lemma remapped_update:
  assumes "s < length (tag_buffer tb)" "remapped_in es = remapped_in (tag_buffer tb ! s) \<union> X"
  shows "remapped (tb\<lparr>tag_buffer := (tag_buffer tb)[s := es], entry_occupied := n\<rparr>) = remapped tb \<union> X"
  using assms unfolding remapped_alt
  by (auto simp: nth_list_update_if split: if_splits)

lemma remapped_in_nth: "t \<in> remapped_in es \<longleftrightarrow> (\<exists>i < length es. tbe_remap (es ! i) \<and> tbe_tag (es ! i) = t)"
  by (auto simp: remapped_in_def in_set_conv_nth)

lemma updateLRU_tb_Some:
  "\<not> tbe_remap (tag_buffer tb ! s ! way) \<Longrightarrow>
   updateLRU_tb tb s way = Some (tb\<lparr>tag_buffer := (tag_buffer tb)[s := tb_touch (tag_buffer tb ! s) way]\<rparr>)"
  by (simp add: updateLRU_tb_def)

text \<open>
  \<open>inserted\<close> relates a set before and after an insertion of \<open>tag\<close>: one way \<open>w\<close> holds the tag
  afterwards, it was free or held the tag before, it is the first way with the tag if there was
  one, and all other ways keep their tag and their remap bit.
\<close>

definition inserted :: "nat \<Rightarrow> tb_set \<Rightarrow> address \<Rightarrow> bool \<Rightarrow> tb_set \<Rightarrow> nat \<Rightarrow> bool" where
  "inserted ways es tag r es' w \<longleftrightarrow>
     w < ways \<and> length es' = ways \<and> tbe_tag (es' ! w) = tag \<and>
     (tbe_remap (es' ! w) \<longleftrightarrow> r \<or> tbe_tag (es ! w) = tag \<and> tbe_remap (es ! w)) \<and>
     (\<forall>i < ways. i \<noteq> w \<longrightarrow> tbe_tag (es' ! i) = tbe_tag (es ! i) \<and> tbe_remap (es' ! i) = tbe_remap (es ! i)) \<and>
     (\<not> tbe_remap (es ! w) \<or> tbe_tag (es ! w) = tag) \<and>
     (\<forall>i. i < w \<or> i < ways \<and> tbe_tag (es ! w) \<noteq> tag \<longrightarrow> tbe_tag (es ! i) \<noteq> tag)"

lemma inserted_hit:
  assumes ti: "set_inv ways sets s es" and x: "x = first_index (\<lambda>e. tbe_tag e = tag) es" "x < ways"
  shows "inserted ways es tag True (es[x := (es ! x)\<lparr>tbe_remap := True\<rparr>]) x"
    and "\<not> tbe_remap (es ! x) \<Longrightarrow> inserted ways es tag False (tb_touch es x) x"
    and "tbe_remap (es ! x) \<Longrightarrow> inserted ways es tag False es x"
proof -
  note sd = set_invD [OF ti]
  have tx: "tbe_tag (es ! x) = tag"
    using first_index_nth [of "\<lambda>e. tbe_tag e = tag" es] x sd(1) by simp
  have before: "tbe_tag (es ! i) \<noteq> tag" if "i < x" for i
    using first_index_before [of i "\<lambda>e. tbe_tag e = tag" es] that x by blast
  show "inserted ways es tag True (es[x := (es ! x)\<lparr>tbe_remap := True\<rparr>]) x"
    using x(2) tx before sd(1) by (simp add: inserted_def nth_list_update_if)
  show "inserted ways es tag False (tb_touch es x) x" if "\<not> tbe_remap (es ! x)"
    using x(2) tx before sd(1) that by (simp add: inserted_def tb_touch_nth)
  show "inserted ways es tag False es x" if "tbe_remap (es ! x)"
    using x(2) tx before sd(1) that by (simp add: inserted_def)
qed

lemma inserted_miss:
  assumes ti: "set_inv ways sets s es" and none: "\<forall>e \<in> set es. tbe_tag e \<noteq> tag"
    and v: "v < ways" "\<not> tbe_remap (es ! v)"
  shows "inserted ways es tag r (es[v := (es ! v)\<lparr>tbe_tag := tag, tbe_remap := r\<rparr>]) v"
    and "\<not> r \<Longrightarrow> inserted ways es tag r (tb_touch (es[v := (es ! v)\<lparr>tbe_tag := tag, tbe_remap := r\<rparr>]) v) v"
proof -
  note sd = set_invD [OF ti]
  have none': "tbe_tag (es ! i) \<noteq> tag" if "i < ways" for i
    using none that sd(1) by (auto simp: all_set_conv_all_nth)
  show "inserted ways es tag r (es[v := (es ! v)\<lparr>tbe_tag := tag, tbe_remap := r\<rparr>]) v"
    using v none' sd(1) by (simp add: inserted_def nth_list_update_if)
  show "inserted ways es tag r (tb_touch (es[v := (es ! v)\<lparr>tbe_tag := tag, tbe_remap := r\<rparr>]) v) v" if "\<not> r"
    using v none' sd(1) that by (simp add: inserted_def tb_touch_nth nth_list_update_if)
qed

lemma insertedD:
  assumes "inserted ways es tag r es' w"
  shows "w < ways" "length es' = ways" "tbe_tag (es' ! w) = tag"
    and "tbe_remap (es' ! w) \<longleftrightarrow> r \<or> tbe_tag (es ! w) = tag \<and> tbe_remap (es ! w)"
    and "\<And>i. i < ways \<Longrightarrow> i \<noteq> w \<Longrightarrow> tbe_tag (es' ! i) = tbe_tag (es ! i)"
    and "\<And>i. i < ways \<Longrightarrow> i \<noteq> w \<Longrightarrow> tbe_remap (es' ! i) = tbe_remap (es ! i)"
    and "\<not> tbe_remap (es ! w) \<or> tbe_tag (es ! w) = tag"
    and "\<And>i. i < w \<Longrightarrow> tbe_tag (es ! i) \<noteq> tag"
    and "\<And>i. i < ways \<Longrightarrow> tbe_tag (es ! w) \<noteq> tag \<Longrightarrow> tbe_tag (es ! i) \<noteq> tag"
  using assms unfolding inserted_def by blast+

lemma inserted_count:
  assumes "inserted ways es tag r es' w" "length es = ways"
  shows "count_if tbe_remap es' + (if tbe_remap (es ! w) then 1 else 0) =
         count_if tbe_remap es + (if tbe_remap (es' ! w) then 1 else 0)"
proof -
  note d = insertedD [OF assms(1)]
  have "tbe_remap (es' ! i) = tbe_remap (es[w := es' ! w] ! i)" if "i < ways" for i
    using that d(1,2) d(6) [of i] assms(2) by (cases "i = w") (simp_all add: nth_list_update_if)
  then have "count_if tbe_remap es' = count_if tbe_remap (es[w := es' ! w])"
    unfolding count_if_card using d(2) assms(2)
    by (intro arg_cong [where f = card] Collect_cong) (simp cong: conj_cong)
  then show ?thesis using count_if_update [of w es tbe_remap "es' ! w"] d(1) assms(2) by simp
qed

lemma inserted_remapped_in:
  assumes ins: "inserted ways es tag r es' w" "length es = ways"
  shows "remapped_in es' = (if r then insert tag (remapped_in es) else remapped_in es)"
proof -
  note d = insertedD [OF ins(1)]
  have "t \<in> remapped_in es' \<longleftrightarrow> (r \<and> t = tag) \<or> t \<in> remapped_in es" for t
  proof
    assume "t \<in> remapped_in es'"
    then obtain i where i: "i < ways" "tbe_remap (es' ! i)" "tbe_tag (es' ! i) = t"
      using d(2) by (auto simp: remapped_in_nth)
    show "(r \<and> t = tag) \<or> t \<in> remapped_in es"
      using i d(3,4) d(5,6) [of i] ins(2) unfolding remapped_in_nth by (cases "i = w") auto
  next
    assume "(r \<and> t = tag) \<or> t \<in> remapped_in es"
    then show "t \<in> remapped_in es'"
    proof
      assume "r \<and> t = tag"
      then show ?thesis using d(1-4) unfolding remapped_in_nth by blast
    next
      assume "t \<in> remapped_in es"
      then obtain i where i: "i < ways" "tbe_remap (es ! i)" "tbe_tag (es ! i) = t"
        using ins(2) by (auto simp: remapped_in_nth)
      have "tbe_remap (es' ! i) \<and> tbe_tag (es' ! i) = t"
        using i d(3,4,7) d(5,6) [of i] by (cases "i = w") auto
      then show ?thesis using i(1) d(2) unfolding remapped_in_nth by blast
    qed
  qed
  then show ?thesis by auto
qed

lemma tb_insert_hit:
  assumes inv: "tb_inv tb"
    and x: "x = first_index (\<lambda>e. tbe_tag e = tag) (tb_entries tb tag)" "x < tb_num_ways tb"
  shows "\<exists>es' n. tb_insert tb tag r =
           Some (tb\<lparr>tag_buffer := (tag_buffer tb)[tb_set_of tb tag := es'], entry_occupied := n\<rparr>) \<and>
         set_inv (tb_num_ways tb) (tb_num_sets tb) (tb_set_of tb tag) es' \<and>
         n = entry_occupied tb + (if r \<and> \<not> tbe_remap (tb_entries tb tag ! x) then 1 else 0) \<and>
         inserted (tb_num_ways tb) (tb_entries tb tag) tag r es' x"
proof -
  define es where "es = tb_entries tb tag"
  note ti = tb_entries_inv [OF inv, of tag, folded es_def]
  have ts: "tag_buffer tb ! tb_set_of tb tag = es" by (simp add: es_def tb_entries_def)
  have ex: "existInTB tb tag = Some x"
    using tb_invD(1) [OF inv] x by (simp add: existInTB_def)
  have tx: "tbe_tag (es ! x) = tag"
    using first_index_nth [of "\<lambda>e. tbe_tag e = tag" es] x set_invD(1) [OF ti] by (simp add: es_def)
  note td = set_inv_tags_distinct [OF ti] and ih = inserted_hit [OF ti x(1) [folded es_def] x(2)]
  have tag: "tag mod tb_num_sets tb = tb_set_of tb tag" by (simp add: tb_set_of_def)
  show ?thesis
  proof (cases r)
    case True
    show ?thesis using True td tx x(2) ih(1) mark_set_inv [OF ti tag x(1) [folded es_def] x(2)]
      by (simp add: tb_insert_def ex ts tb_upd_def flip: es_def) blast
  next
    case False
    show ?thesis
    proof (cases "tbe_remap (es ! x)")
      case True
      have "tb = tb\<lparr>tag_buffer := (tag_buffer tb)[tb_set_of tb tag := es], entry_occupied := entry_occupied tb\<rparr>"
        by (simp flip: ts)
      then show ?thesis using False True td tx x(2) ih(3) ti
        by (simp add: tb_insert_def ex ts flip: es_def) blast
    next
      case nr: False
      have "tb\<lparr>tag_buffer := bs\<rparr> = tb\<lparr>tag_buffer := bs, entry_occupied := entry_occupied tb\<rparr>" for bs
        by simp
      then show ?thesis using False nr td tx x(2) ih(2) touch_set_inv [OF ti x(2)]
        by (simp add: tb_insert_def ex ts updateLRU_tb_Some flip: es_def) blast
    qed
  qed
qed

lemma tb_insert_miss:
  assumes inv: "tb_inv tb"
    and none: "\<forall>e \<in> set (tb_entries tb tag). tbe_tag e \<noteq> tag"
    and free: "\<exists>e \<in> set (tb_entries tb tag). \<not> tbe_remap e"
  shows "\<exists>es' n v. tb_insert tb tag r =
           Some (tb\<lparr>tag_buffer := (tag_buffer tb)[tb_set_of tb tag := es'], entry_occupied := n\<rparr>) \<and>
         set_inv (tb_num_ways tb) (tb_num_sets tb) (tb_set_of tb tag) es' \<and>
         n = entry_occupied tb + (if r \<and> \<not> tbe_remap (tb_entries tb tag ! v) then 1 else 0) \<and>
         inserted (tb_num_ways tb) (tb_entries tb tag) tag r es' v"
proof -
  define es where "es = tb_entries tb tag"
  note ti = tb_entries_inv [OF inv, of tag, folded es_def]
  have ts: "tag_buffer tb ! tb_set_of tb tag = es" by (simp add: es_def tb_entries_def)
  have len: "length es = tb_num_ways tb" using set_invD(1) [OF ti] .
  have ex: "existInTB tb tag = Some (tb_num_ways tb)"
    using tb_invD(1) [OF inv] none first_index_eq_length_iff [of "\<lambda>e. tbe_tag e = tag" es] len
    by (simp add: existInTB_def es_def)
  obtain v where v: "tb_victim es 0 0 (tb_num_ways tb) = v" "v < tb_num_ways tb" "\<not> tbe_remap (es ! v)"
    by (rule tb_victim_free [of es "tb_num_ways tb"]) (use free len in \<open>simp_all add: es_def\<close>)
  have tag: "tag mod tb_num_sets tb = tb_set_of tb tag" by (simp add: tb_set_of_def)
  note none' = none [folded es_def] and td = set_inv_tags_distinct [OF ti]
  note im = inserted_miss [OF ti none' v(2,3)] and ri = replace_set_inv [OF ti tag v(2,3) none']
  have s: "tb_set_of tb tag < length (tag_buffer tb)" using inv tb_invD(3) by simp
  show ?thesis
  proof (cases r)
    case True
    show ?thesis using True td v im(1) ri [of r]
      by (simp add: tb_insert_def ex ts tb_upd_def flip: es_def) blast
  next
    case False
    have "tb\<lparr>tag_buffer := bs\<rparr> = tb\<lparr>tag_buffer := bs, entry_occupied := entry_occupied tb\<rparr>" for bs
      by simp
    then show ?thesis using False td v s len im(2) touch_set_inv [OF ri v(2), of r]
      by (simp add: tb_insert_def ex ts tb_upd_def updateLRU_tb_def flip: es_def) blast
  qed
qed

lemma tb_insert_cases:
  assumes inv: "tb_inv tb"
    and can: "\<exists>e \<in> set (tb_entries tb tag). \<not> tbe_remap e \<or> tbe_tag e = tag"
  obtains es' n w where
    "tb_insert tb tag r = Some (tb\<lparr>tag_buffer := (tag_buffer tb)[tb_set_of tb tag := es'], entry_occupied := n\<rparr>)"
    "set_inv (tb_num_ways tb) (tb_num_sets tb) (tb_set_of tb tag) es'"
    "n = entry_occupied tb + (if r \<and> \<not> tbe_remap (tb_entries tb tag ! w) then 1 else 0)"
    "inserted (tb_num_ways tb) (tb_entries tb tag) tag r es' w"
proof (cases "\<exists>e \<in> set (tb_entries tb tag). tbe_tag e = tag")
  case True
  then have "first_index (\<lambda>e. tbe_tag e = tag) (tb_entries tb tag) < tb_num_ways tb"
    using set_invD(1) [OF tb_entries_inv [OF inv, of tag]]
      first_index_less_iff [of "\<lambda>e. tbe_tag e = tag" "tb_entries tb tag"] by simp
  from tb_insert_hit [OF inv refl this, of r] that show thesis by blast
next
  case False
  with can have "\<forall>e \<in> set (tb_entries tb tag). tbe_tag e \<noteq> tag" "\<exists>e \<in> set (tb_entries tb tag). \<not> tbe_remap e"
    by auto
  from tb_insert_miss [OF inv this, of r] that show thesis by blast
qed

lemma canInsert_eq:
  "tb_inv tb \<Longrightarrow>
   canInsert tb tag = Some (\<exists>e \<in> set (tb_entries tb tag). \<not> tbe_remap e \<or> tbe_tag e = tag)"
  using tb_invD(1,5) by (simp add: canInsert_def)

lemma canInsert2_total: "tb_inv tb \<Longrightarrow> \<exists>b. canInsert2 tb t u = Some b"
  using tb_invD(1) by (auto simp: canInsert2_def canInsert_eq)

lemma tb_insert_ok:
  assumes inv: "tb_inv tb" and can: "canInsert tb tag = Some True"
  shows "\<exists>tb'. tb_insert tb tag r = Some tb' \<and> tb_inv tb' \<and>
    remapped tb' = (if r then insert tag (remapped tb) else remapped tb) \<and>
    tb_num_ways tb' = tb_num_ways tb \<and> tb_num_sets tb' = tb_num_sets tb"
proof -
  have "\<exists>e \<in> set (tb_entries tb tag). \<not> tbe_remap e \<or> tbe_tag e = tag"
    using can canInsert_eq [OF inv, of tag] by simp
  from tb_insert_cases [OF inv this, of r] obtain es' n w where
    ins: "tb_insert tb tag r =
        Some (tb\<lparr>tag_buffer := (tag_buffer tb)[tb_set_of tb tag := es'], entry_occupied := n\<rparr>)"
    and si: "set_inv (tb_num_ways tb) (tb_num_sets tb) (tb_set_of tb tag) es'"
    and n: "n = entry_occupied tb + (if r \<and> \<not> tbe_remap (tb_entries tb tag ! w) then 1 else 0)"
    and i: "inserted (tb_num_ways tb) (tb_entries tb tag) tag r es' w" by blast
  have s: "tb_set_of tb tag < length (tag_buffer tb)" using inv tb_invD(3) by simp
  have len: "length (tb_entries tb tag) = tb_num_ways tb" using set_invD(1) [OF tb_entries_inv [OF inv]] .
  have "n + count_if tbe_remap (tb_entries tb tag) = entry_occupied tb + count_if tbe_remap es'"
    using inserted_count [OF i len] insertedD(4,7) [OF i] n by (auto split: if_splits)
  then have "tb_inv (tb\<lparr>tag_buffer := (tag_buffer tb)[tb_set_of tb tag := es'], entry_occupied := n\<rparr>)"
    using inv si by (intro tb_inv_update) (simp_all add: tb_entries_def)
  moreover have "remapped (tb\<lparr>tag_buffer := (tag_buffer tb)[tb_set_of tb tag := es'], entry_occupied := n\<rparr>)
      = remapped tb \<union> (if r then {tag} else {})"
    using s inserted_remapped_in [OF i len] by (intro remapped_update) (auto simp: tb_entries_def)
  ultimately show ?thesis using ins by auto
qed

lemma tb_insert_exists:
  assumes inv: "tb_inv tb" and ins: "tb_insert tb tag r = Some tb'" and can: "canInsert tb tag = Some True"
  shows "\<exists>w < tb_num_ways tb'. existInTB tb' tag = Some w"
proof -
  have "\<exists>e \<in> set (tb_entries tb tag). \<not> tbe_remap e \<or> tbe_tag e = tag"
    using can canInsert_eq [OF inv, of tag] by simp
  from tb_insert_cases [OF inv this, of r] obtain es' n w where
    "tb_insert tb tag r =
      Some (tb\<lparr>tag_buffer := (tag_buffer tb)[tb_set_of tb tag := es'], entry_occupied := n\<rparr>)"
    and i: "inserted (tb_num_ways tb) (tb_entries tb tag) tag r es' w" by blast
  with ins have tb': "tb' = tb\<lparr>tag_buffer := (tag_buffer tb)[tb_set_of tb tag := es'], entry_occupied := n\<rparr>"
    by simp
  have "tb_entries tb' tag = es'"
    using tb_set_of_less [OF inv, of tag] tb_invD(3) [OF inv]
    by (simp add: tb' tb_entries_def tb_set_of_def)
  moreover have "first_index (\<lambda>e. tbe_tag e = tag) es' < length es'"
    unfolding first_index_less_iff using insertedD(1-3) [OF i] by (intro bexI [of _ "es' ! w"]) simp_all
  ultimately show ?thesis
    using insertedD(2) [OF i] tb_invD(1) [OF inv] by (auto simp: existInTB_def tb')
qed

text \<open>
  The check for two tags leaves room for the second one after the first was inserted.  When both
  fall into the same set, the two ways counted by \<open>canInsert2\<close> cannot both be taken by the first
  insertion: a second way with the same tag is an unused entry, which has no remap bit.
\<close>

lemma two_ways_room:
  assumes si: "set_inv ways sets s es" and ne: "t \<noteq> u"
    and two: "2 \<le> count_if (\<lambda>e. \<not> tbe_remap e \<or> tbe_tag e = t \<or> tbe_tag e = u) es"
  shows "\<exists>e \<in> set es. \<not> tbe_remap e \<or> tbe_tag e = t"
proof (rule ccontr)
  assume no: "\<not> ?thesis"
  obtain i j where ij: "i < length es" "j < length es" "i \<noteq> j"
    "tbe_tag (es ! i) = u" "tbe_tag (es ! j) = u" "tbe_remap (es ! i)" "tbe_remap (es ! j)"
    by (rule count_if_ge2E [OF two]) (use no in \<open>auto simp: all_set_conv_all_nth\<close>)
  then show False
    using set_invD(1) [OF si] set_invD(4) [OF si, of i j] set_invD(4) [OF si, of j i]
    by (cases "i < j") auto
qed

lemma two_ways_room_after:
  assumes si: "set_inv ways sets s es" and ne: "t \<noteq> u" and ins: "inserted ways es t r es' w"
    and two: "2 \<le> count_if (\<lambda>e. \<not> tbe_remap e \<or> tbe_tag e = t \<or> tbe_tag e = u) es"
  shows "\<exists>e \<in> set es'. \<not> tbe_remap e \<or> tbe_tag e = u"
proof -
  note d = insertedD [OF ins] and len = set_invD(1) [OF si]
  obtain k where k: "k < ways" "k \<noteq> w" "\<not> tbe_remap (es ! k) \<or> tbe_tag (es ! k) = t \<or> tbe_tag (es ! k) = u"
    by (rule count_if_ge2E [OF two]) (use len in metis)
  have "\<not> (tbe_tag (es ! k) = t \<and> tbe_remap (es ! k))"
    using k(1,2) d(8) [of k] d(9) [of k] set_invD(4) [OF si, of k w] by (cases "k < w") auto
  then have "\<not> tbe_remap (es' ! k) \<or> tbe_tag (es' ! k) = u" using k d(5,6) [of k] by auto
  moreover have "es' ! k \<in> set es'" using k(1) d(2) by simp
  ultimately show ?thesis by blast
qed

lemma canInsert2_cases:
  assumes inv: "tb_inv tb" and can: "canInsert2 tb t u = Some True"
  shows "tb_set_of tb t \<noteq> tb_set_of tb u \<and> canInsert tb t = Some True \<and> canInsert tb u = Some True \<or>
    tb_set_of tb t = tb_set_of tb u \<and>
    2 \<le> count_if (\<lambda>e. \<not> tbe_remap e \<or> tbe_tag e = t \<or> tbe_tag e = u) (tb_entries tb t)"
  using can tb_invD(1) [OF inv]
  by (auto simp: canInsert2_def bind_eq_Some_conv split: if_splits)

lemma canInsert2_room1:
  assumes inv: "tb_inv tb" and can: "canInsert2 tb t u = Some True" and ne: "t \<noteq> u"
  shows "canInsert tb t = Some True"
  using canInsert2_cases [OF inv can]
proof (elim disjE conjE)
  assume "2 \<le> count_if (\<lambda>e. \<not> tbe_remap e \<or> tbe_tag e = t \<or> tbe_tag e = u) (tb_entries tb t)"
  from two_ways_room [OF tb_entries_inv [OF inv] ne this] show ?thesis
    by (simp add: canInsert_eq [OF inv])
qed

lemma canInsert2_room2:
  assumes inv: "tb_inv tb" and can: "canInsert2 tb t u = Some True" and ne: "t \<noteq> u"
    and ins: "tb_insert tb t True = Some tb'"
  shows "canInsert tb' u = Some True"
proof -
  have ct: "canInsert tb t = Some True" by (rule canInsert2_room1 [OF inv can ne])
  from tb_insert_ok [OF inv ct, of True] ins have inv': "tb_inv tb'" by simp
  have "\<exists>e \<in> set (tb_entries tb t). \<not> tbe_remap e \<or> tbe_tag e = t"
    using ct canInsert_eq [OF inv, of t] by simp
  from tb_insert_cases [OF inv this, of True] obtain es' n w where
    "tb_insert tb t True = Some (tb\<lparr>tag_buffer := (tag_buffer tb)[tb_set_of tb t := es'], entry_occupied := n\<rparr>)"
    and i: "inserted (tb_num_ways tb) (tb_entries tb t) t True es' w" by blast
  with ins have tb': "tb' = tb\<lparr>tag_buffer := (tag_buffer tb)[tb_set_of tb t := es'], entry_occupied := n\<rparr>"
    by simp
  show ?thesis
  proof (cases "tb_set_of tb t = tb_set_of tb u")
    case True
    have "tb_entries tb' u = es'"
      using True tb_set_of_less [OF inv, of t] tb_invD(3) [OF inv]
      by (simp add: tb' tb_entries_def tb_set_of_def)
    then show ?thesis
      using two_ways_room_after [OF tb_entries_inv [OF inv] ne i] canInsert2_cases [OF inv can] True
      by (simp add: canInsert_eq [OF inv'])
  next
    case False
    then have "tb_entries tb' u = tb_entries tb u" by (simp add: tb' tb_entries_def tb_set_of_def)
    then show ?thesis
      using False canInsert2_cases [OF inv can] by (simp add: canInsert_eq [OF inv] canInsert_eq [OF inv'])
  qed
qed

lemma clear_inv: "tb_inv tb \<Longrightarrow> tb_inv (clearTagBuffer tb)"
  by (simp add: tb_inv_def clearTagBuffer_def fresh_set_inv remap_count_def sum_list_0)

lemma clear_remapped: "remapped (clearTagBuffer tb) = {}"
  by (auto simp: remapped_def clearTagBuffer_def remapped_in_def fresh_entries_def)

lemma clear_canInsert: "tb_inv tb \<Longrightarrow> canInsert (clearTagBuffer tb) tag = Some True"
proof -
  assume inv: "tb_inv tb"
  have "tb_entries (clearTagBuffer tb) tag = fresh_entries (tb_num_ways tb)"
    using tb_invD(1) [OF inv] by (simp add: tb_entries_def tb_set_of_def clearTagBuffer_def)
  moreover have "\<exists>e \<in> set (fresh_entries (tb_num_ways tb)). \<not> tbe_remap e"
    using tb_invD(2) [OF inv] by (auto simp: fresh_entries_def)
  ultimately show ?thesis using canInsert_eq [OF clear_inv [OF inv], of tag] by auto
qed

lemma setClearTime_simps [simp]:
  "tb_inv (setClearTime tb t) = tb_inv tb"
  "remapped (setClearTime tb t) = remapped tb"
  "canInsert (setClearTime tb t) tag = canInsert tb tag"
  by (simp_all add: setClearTime_def tb_inv_def remapped_def remap_count_def canInsert_def
      tb_entries_def tb_set_of_def)

section \<open>The interface of the buffer\<close>

text \<open>
  What the memory controller may assume of the buffer: checks never abort, an insertion that was
  checked succeeds and adds exactly the remapped tag to the content, a checked pair of insertions
  succeeds, and clearing empties the content and makes room for any tag.
\<close>

locale remap_table =
  fixes inv :: "'tb \<Rightarrow> bool"
    and content :: "'tb \<Rightarrow> address set"
    and can1 :: "'tb \<Rightarrow> address \<Rightarrow> bool option"
    and can2 :: "'tb \<Rightarrow> address \<Rightarrow> address \<Rightarrow> bool option"
    and ins :: "'tb \<Rightarrow> address \<Rightarrow> bool \<Rightarrow> 'tb option"
    and clr :: "'tb \<Rightarrow> 'tb"
  assumes can1_total: "inv tb \<Longrightarrow> \<exists>b. can1 tb t = Some b"
    and can2_total: "inv tb \<Longrightarrow> \<exists>b. can2 tb t u = Some b"
    and ins_ok: "inv tb \<Longrightarrow> can1 tb t = Some True \<Longrightarrow>
      \<exists>tb'. ins tb t r = Some tb' \<and> inv tb' \<and> content tb' = (if r then insert t (content tb) else content tb)"
    and can2_can1: "inv tb \<Longrightarrow> can2 tb t u = Some True \<Longrightarrow> t \<noteq> u \<Longrightarrow> can1 tb t = Some True"
    and can2_room: "inv tb \<Longrightarrow> can2 tb t u = Some True \<Longrightarrow> t \<noteq> u \<Longrightarrow> ins tb t True = Some tb' \<Longrightarrow>
      can1 tb' u = Some True"
    and clr_inv: "inv tb \<Longrightarrow> inv (clr tb)"
    and clr_content: "inv tb \<Longrightarrow> content (clr tb) = {}"
    and clr_can1: "inv tb \<Longrightarrow> can1 (clr tb) t = Some True"
begin

lemma ins_pair:
  assumes "inv tb" "can2 tb t u = Some True" "t \<noteq> u"
  shows "\<exists>tb1 tb2. ins tb t True = Some tb1 \<and> ins tb1 u True = Some tb2 \<and> inv tb2 \<and>
    content tb2 = {t, u} \<union> content tb"
proof -
  obtain tb1 where 1: "ins tb t True = Some tb1" "inv tb1" "content tb1 = insert t (content tb)"
    using ins_ok [OF assms(1) can2_can1 [OF assms], of True] by auto
  obtain tb2 where "ins tb1 u True = Some tb2" "inv tb2" "content tb2 = insert u (content tb1)"
    using ins_ok [OF 1(2) can2_room [OF assms 1(1)], of True] by auto
  with 1 show ?thesis by auto
qed

lemma ins_after_clear:
  assumes "inv tb"
  shows "\<exists>tb'. ins (clr tb) t r = Some tb' \<and> inv tb' \<and> content tb' = (if r then {t} else {})"
  using ins_ok [OF clr_inv [OF assms] clr_can1 [OF assms], of t r] clr_content [OF assms] by auto

end

interpretation tb: remap_table tb_inv remapped canInsert canInsert2 tb_insert clearTagBuffer
proof
  show "\<exists>b. canInsert tb t = Some b" if "tb_inv tb" for tb t
    using canInsert_eq [OF that] by blast
  show "\<exists>tb'. tb_insert tb t r = Some tb' \<and> tb_inv tb' \<and>
      remapped tb' = (if r then insert t (remapped tb) else remapped tb)"
    if "tb_inv tb" "canInsert tb t = Some True" for tb t r
    using tb_insert_ok [OF that] by blast
qed (use canInsert2_total canInsert2_room1 canInsert2_room2 clear_inv clear_remapped clear_canInsert in auto)

section \<open>Occupancy\<close>

lemma card_remapped_in:
  assumes "set_inv ways sets s es"
  shows "card (remapped_in es) = count_if tbe_remap es"
proof -
  note d = set_invD [OF assms]
  have "remapped_in es = (\<lambda>i. tbe_tag (es ! i)) ` {i. i < length es \<and> tbe_remap (es ! i)}"
    using remapped_in_nth [of _ es] by auto
  moreover have "inj_on (\<lambda>i. tbe_tag (es ! i)) {i. i < length es \<and> tbe_remap (es ! i)}"
  proof (rule inj_onI)
    fix i j
    assume "i \<in> {i. i < length es \<and> tbe_remap (es ! i)}" "j \<in> {i. i < length es \<and> tbe_remap (es ! i)}"
      "tbe_tag (es ! i) = tbe_tag (es ! j)"
    then show "i = j" using d(1) d(4) [of i j] d(4) [of j i] by (cases i j rule: linorder_cases) auto
  qed
  ultimately show ?thesis by (simp add: card_image count_if_card)
qed

lemma remapped_mod: "tb_inv tb \<Longrightarrow> s < tb_num_sets tb \<Longrightarrow> t \<in> remapped_in (tag_buffer tb ! s) \<Longrightarrow> t mod tb_num_sets tb = s"
  using tb_invD(4) [of tb s] set_invD(1,5) [of "tb_num_ways tb" "tb_num_sets tb" s "tag_buffer tb ! s"]
  by (auto simp: remapped_in_nth)

lemma card_remapped:
  assumes inv: "tb_inv tb"
  shows "card (remapped tb) = entry_occupied tb"
proof -
  have si: "set_inv (tb_num_ways tb) (tb_num_sets tb) s (tag_buffer tb ! s)" if "s < length (tag_buffer tb)" for s
    using tb_invD(3,4) [OF inv] that by simp
  have fin: "finite (remapped_in es)" for es :: tb_set
    by (simp add: remapped_in_def)
  have "card (remapped tb) = (\<Sum>s < length (tag_buffer tb). card (remapped_in (tag_buffer tb ! s)))"
    unfolding remapped_alt
  proof (rule card_UN_disjoint)
    show "\<forall>i \<in> {..<length (tag_buffer tb)}. \<forall>j \<in> {..<length (tag_buffer tb)}. i \<noteq> j \<longrightarrow>
        remapped_in (tag_buffer tb ! i) \<inter> remapped_in (tag_buffer tb ! j) = {}"
      using tb_invD(3) [OF inv] remapped_mod [OF inv] by (metis disjoint_iff lessThan_iff)
  qed (use fin in auto)
  also have "\<dots> = (\<Sum>s < length (tag_buffer tb). count_if tbe_remap (tag_buffer tb ! s))"
    by (rule sum.cong) (simp_all add: card_remapped_in [OF si])
  also have "\<dots> = remap_count tb"
    by (simp add: remap_count_def sum_list_sum_nth atLeast0LessThan)
  finally show ?thesis using tb_invD(5) [OF inv] by simp
qed

lemma remapped_exists:
  assumes inv: "tb_inv tb" and t: "t \<in> remapped tb"
  shows "\<exists>w < tb_num_ways tb. existInTB tb t = Some w \<and> tbe_tag (tb_entries tb t ! w) = t \<and> tbe_remap (tb_entries tb t ! w)"
proof -
  obtain s where s: "s < tb_num_sets tb" "t \<in> remapped_in (tag_buffer tb ! s)"
    using t tb_invD(3) [OF inv] by (auto simp: remapped_alt)
  then have es: "tb_entries tb t = tag_buffer tb ! s" using remapped_mod [OF inv] by (simp add: tb_entries_def tb_set_of_def)
  note d = set_invD [OF tb_entries_inv [OF inv, of t]]
  obtain j where j: "j < tb_num_ways tb" "tbe_remap (tb_entries tb t ! j)" "tbe_tag (tb_entries tb t ! j) = t"
    using s(2) es d(1) by (auto simp: remapped_in_nth)
  have "first_index (\<lambda>e. tbe_tag e = t) (tb_entries tb t) = j"
    by (rule first_index_eqI) (use j d(1) d(4) [of j] in auto)
  then show ?thesis using j tb_invD(1) [OF inv] by (simp add: existInTB_def)
qed

lemma TagBuffer_new_inv:
  assumes "8 \<le> tb_size"
  shows "tb_inv (TagBuffer_new tb_size t0)" and "remapped (TagBuffer_new tb_size t0) = {}"
proof -
  have "TagBuffer_new tb_size t0 = clearTagBuffer (TagBuffer_new tb_size t0)"
    by (simp add: TagBuffer_new_def clearTagBuffer_def Let_def)
  then show "remapped (TagBuffer_new tb_size t0) = {}" using clear_remapped by metis
  have "0 < tb_size div 8" using assms by (simp add: div_greater_zero_iff)
  then show "tb_inv (TagBuffer_new tb_size t0)"
    by (simp add: tb_inv_def TagBuffer_new_def fresh_set_inv remap_count_def sum_list_0 Let_def)
qed

section \<open>The flush threshold\<close>

text \<open>
  The controller flushes when the floating-point occupancy exceeds the double nearest to 0.7.  This is
  the exact comparison of integers, although 0.7 is not a double: the next double after it is closer
  to 0.7 than any larger occupancy can be.
\<close>

lemma rnd_seven_tenths: "rnd (7 / 10) = 6305039478318694 / 9007199254740992"
  by code_simp

lemma occupancy_exact:
  assumes "tb_num_ways tb = 8" "0 < tb_num_sets tb" "tb_num_sets tb < 2 ^ 32" "entry_occupied tb < 2 ^ 53"
  shows "getOccupancy tb = rnd (of_nat (entry_occupied tb) / (8 * of_nat (tb_num_sets tb)))"
proof -
  have 1: "dnat 8 = 8" using dnat_exact [of 8] by simp
  have 2: "dnat (tb_num_sets tb) = of_nat (tb_num_sets tb)" using assms(3) by (intro dnat_exact) simp
  have 3: "dmul 1 (dnat (entry_occupied tb)) = of_nat (entry_occupied tb)"
    using assms(4) rnd_dyadic [OF assms(4), of 0] by (simp add: dmul_def)
  have 4: "ddiv (of_nat (entry_occupied tb)) 8 = of_nat (entry_occupied tb) / 8"
    using rnd_dyadic [OF assms(4), of 3] by (simp add: ddiv_def)
  show ?thesis unfolding getOccupancy_def assms(1) 1 2 3 4 by (simp add: ddiv_def)
qed

lemma flush_threshold:
  assumes "tb_num_ways tb = 8" "0 < tb_num_sets tb" "tb_num_sets tb < 2 ^ 32" "entry_occupied tb < 2 ^ 53"
  shows "rnd (7 / 10) < getOccupancy tb \<longleftrightarrow> 7 * (8 * tb_num_sets tb) < 10 * entry_occupied tb"
proof -
  define n s where d: "n = entry_occupied tb" "s = tb_num_sets tb"
  define x :: rat where "x = of_nat n / (8 * of_nat s)"
  have s: "(0::rat) < of_nat s" "(of_nat s :: rat) < 2 ^ 32" using assms(2,3) by (simp_all add: d)
  have occ: "getOccupancy tb = rnd x" using occupancy_exact [OF assms] by (simp add: x_def d)
  have iff: "7 * (8 * s) < 10 * n \<longleftrightarrow> 7 / 10 < x"
  proof -
    have "7 / 10 < x \<longleftrightarrow> 7 * (8 * (of_nat s :: rat)) < 10 * of_nat n" using s by (simp add: x_def field_simps)
    also have "\<dots> \<longleftrightarrow> (of_nat (7 * (8 * s)) :: rat) < of_nat (10 * n)" by simp
    finally show ?thesis by (simp only: of_nat_less_iff)
  qed
  have "rnd (7 / 10) < rnd x" if "7 / 10 < x"
  proof -
    have "(of_nat (7 * (8 * s)) :: rat) + 1 \<le> of_nat (10 * n)" using iff that by (simp flip: of_nat_Suc)
    then have "(of_nat (7 * (8 * s)) + 1) / (80 * of_nat s :: rat) \<le> of_nat (10 * n) / (80 * of_nat s)"
      using s by (intro divide_right_mono) simp_all
    moreover have "(of_nat (7 * (8 * s)) + 1) / (80 * of_nat s :: rat) = 7 / 10 + 1 / (80 * of_nat s)"
      "of_nat (10 * n) / (80 * of_nat s) = x" using s by (simp_all add: x_def field_simps)
    ultimately have gap: "7 / 10 + 1 / (80 * of_nat s) \<le> x" by simp
    have "1 / (80 * 2 ^ 32) \<le> 1 / (80 * of_nat s :: rat)" using s by (simp add: frac_le)
    then have "6305039478318695 / 2 ^ 53 \<le> x" using gap by simp
    then have "rnd (6305039478318695 / 2 ^ 53) \<le> rnd x" by (intro rnd_mono) simp_all
    moreover have "rnd (6305039478318695 / 2 ^ 53) = 6305039478318695 / 2 ^ 53"
      using rnd_dyadic [of 6305039478318695 53] by simp
    ultimately show ?thesis by (simp add: rnd_seven_tenths)
  qed
  moreover have "\<not> rnd (7 / 10) < rnd x" if "\<not> 7 / 10 < x"
    using that rnd_mono [of x "7 / 10"] s by (simp add: x_def not_less)
  ultimately show ?thesis using iff occ by (auto simp: d)
qed

section \<open>Properties\<close>

text \<open>
  C16. The tag buffer refines a set of remapped pages: an insertion that \<open>canInsert\<close> allows never aborts,
  keeps the buffer well formed, adds the page to the set if it was remapped, and loses no page that
  was entered before.
\<close>

theorem tag_buffer_insert:
  assumes "tb_inv tb" "canInsert tb tag = Some True"
  shows "\<exists>tb'. tb_insert tb tag remap = Some tb' \<and> tb_inv tb' \<and>
    remapped tb' = (if remap then insert tag (remapped tb) else remapped tb)"
  using tb.ins_ok [OF assms] .

theorem tag_buffer_insert_witness:
  "\<exists>tb'. tb_insert (TagBuffer_new 16 0) 5 True = Some tb' \<and> tb_inv tb' \<and> remapped tb' = {5}"
proof -
  have "canInsert (TagBuffer_new 16 0) 5 = Some True" by code_simp
  from tag_buffer_insert [OF TagBuffer_new_inv(1) this, of True] show ?thesis
    by (simp add: TagBuffer_new_inv(2))
qed

text \<open>
  C15. The check before a replacement is sufficient: if \<open>canInsert\<close> answers yes for two different
  pages, entering both as remapped succeeds one after the other, and the buffer then holds both besides
  everything it held.
\<close>

theorem tag_buffer_insert_pair:
  assumes "tb_inv tb" "canInsert2 tb tag1 tag2 = Some True" "tag1 \<noteq> tag2"
  shows "\<exists>tb1 tb2. tb_insert tb tag1 True = Some tb1 \<and> tb_insert tb1 tag2 True = Some tb2 \<and> tb_inv tb2 \<and>
    remapped tb2 = {tag1, tag2} \<union> remapped tb"
  using tb.ins_pair [OF assms] .

theorem tag_buffer_insert_pair_witness:
  "\<exists>tb1 tb2. tb_insert (TagBuffer_new 16 0) 5 True = Some tb1 \<and> tb_insert tb1 7 True = Some tb2 \<and> remapped tb2 = {5, 7}"
proof -
  have "canInsert2 (TagBuffer_new 16 0) 5 7 = Some True" by code_simp
  from tag_buffer_insert_pair [OF TagBuffer_new_inv(1) this] show ?thesis
    using TagBuffer_new_inv(2) [of 16 0] by auto
qed

text \<open>
  C17. A remapped page is never lost to a lookup: \<open>existInTB\<close> finds the way that holds it with
  its remap bit set, and the occupancy counter is the number of remapped pages.
\<close>

theorem tag_buffer_lookup:
  assumes "tb_inv tb" "tag \<in> remapped tb"
  shows "\<exists>way < tb_num_ways tb. existInTB tb tag = Some way \<and> tbe_tag (tb_entries tb tag ! way) = tag \<and>
      tbe_remap (tb_entries tb tag ! way) \<and> entry_occupied tb = card (remapped tb)"
  using remapped_exists [OF assms] card_remapped [OF assms(1)] by auto

theorem tag_buffer_lookup_witness:
  "\<exists>tb. tb_insert (TagBuffer_new 16 0) 5 True = Some tb \<and> entry_occupied tb = 1 \<and>
     (\<exists>way < 8. existInTB tb 5 = Some way \<and> tbe_remap (tb_entries tb 5 ! way))"
proof -
  have can: "canInsert (TagBuffer_new 16 0) 5 = Some True" by code_simp
  obtain tb where tb: "tb_insert (TagBuffer_new 16 0) 5 True = Some tb" "tb_inv tb" "remapped tb = {5}"
    "tb_num_ways tb = 8"
    using tb_insert_ok [OF TagBuffer_new_inv(1) can, of True] TagBuffer_new_inv(2) [of 16 0]
    by (auto simp: TagBuffer_new_def)
  then show ?thesis using tag_buffer_lookup [OF tb(2), of 5] by auto
qed

text \<open>
  C18. The controller flushes the buffer exactly when more than seven tenths of its entries are
  remapped: the comparison \<open>getOccupancy() > 0.7\<close>, which rounds three times, agrees with the
  comparison of integers.
\<close>

theorem tag_buffer_flush_threshold:
  assumes "tb_num_ways tb = 8" "0 < tb_num_sets tb" "tb_num_sets tb < 2 ^ 32"
    and "entry_occupied tb \<le> 8 * tb_num_sets tb"
  shows "rnd (7 / 10) < getOccupancy tb \<longleftrightarrow> 7 * (8 * tb_num_sets tb) < 10 * entry_occupied tb"
  using flush_threshold [OF assms(1-3)] assms(3,4) by simp

theorem tag_buffer_flush_threshold_witness:
  "\<not> rnd (7 / 10) < getOccupancy ((TagBuffer_new 1024 0)\<lparr>entry_occupied := 716\<rparr>) \<and>
   rnd (7 / 10) < getOccupancy ((TagBuffer_new 1024 0)\<lparr>entry_occupied := 717\<rparr>)"
  using tag_buffer_flush_threshold [of "(TagBuffer_new 1024 0)\<lparr>entry_occupied := 716\<rparr>"]
    tag_buffer_flush_threshold [of "(TagBuffer_new 1024 0)\<lparr>entry_occupied := 717\<rparr>"]
  by (simp add: TagBuffer_new_def)

end
