(* ===== verification/Mem_Types.thy ===== *)
theory Mem_Types
  imports Prelude
begin

text \<open>
  The types of the memory hierarchy (\<open>src/src/memory_hierarchy.h\<close>): access and invalidation types,
  MESI states, requests with their flags, and what a memory answers to a request.

  A request carries a pointer to the coherence state of the requester's line; \<open>req_state\<close> is the
  content of that cell, and an operation that writes through the pointer returns the new content.
  The pointer to the child's lock is left out: locks are not modelled, an operation of a component
  runs from its lock acquisition to its release as one step.
\<close>

datatype AccessType = GETS | GETX | PUTS | PUTX

datatype InvType = INV | INVX | FWD

datatype MESIState = StI | StS | StE | StM

definition IsGet :: "AccessType \<Rightarrow> bool" where "IsGet t \<longleftrightarrow> t = GETS \<or> t = GETX"
definition IsPut :: "AccessType \<Rightarrow> bool" where "IsPut t \<longleftrightarrow> t = PUTS \<or> t = PUTX"

text \<open>The names are looked up in arrays by the number of the enumerator; \<open>None\<close> is the failed bounds check.\<close>

fun AccessType_num :: "AccessType \<Rightarrow> nat" where
  "AccessType_num GETS = 0" | "AccessType_num GETX = 1" | "AccessType_num PUTS = 2" | "AccessType_num PUTX = 3"

fun InvType_num :: "InvType \<Rightarrow> nat" where
  "InvType_num INV = 0" | "InvType_num INVX = 1" | "InvType_num FWD = 2"

fun MESIState_num :: "MESIState \<Rightarrow> nat" where
  "MESIState_num StI = 0" | "MESIState_num StS = 1" | "MESIState_num StE = 2" | "MESIState_num StM = 3"

definition name_at :: "string list \<Rightarrow> nat \<Rightarrow> string option" where
  "name_at names i = (if i < length names then Some (names ! i) else None)"

definition AccessTypeName :: "AccessType \<Rightarrow> string option" where
  "AccessTypeName t = name_at [''GETS'', ''GETX'', ''PUTS'', ''PUTX''] (AccessType_num t)"

definition InvTypeName :: "InvType \<Rightarrow> string option" where
  "InvTypeName t = name_at [''INV'', ''INVX''] (InvType_num t)"

definition MESIStateName :: "MESIState \<Rightarrow> string option" where
  "MESIStateName s = name_at [''I'', ''S'', ''E'', ''M''] (MESIState_num s)"

text \<open>The flags of a request, one bit each of a 32-bit word.\<close>

type_synonym flags = "32 word"

definition IFETCH :: flags where "IFETCH = 2"
definition NOEXCL :: flags where "NOEXCL = 4"
definition NONINCLWB :: flags where "NONINCLWB = 8"
definition PUTX_KEEPEXCL :: flags where "PUTX_KEEPEXCL = 16"
definition PREFETCH :: flags where "PREFETCH = 32"

unbundle bit_operations_syntax

record MemReq =
  lineAddr :: address
  req_type :: AccessType
  childId :: nat
  req_state :: MESIState
  cycle :: cyc
  initialState :: MESIState
  srcId :: nat
  req_flags :: flags

definition req_set :: "MemReq \<Rightarrow> flags \<Rightarrow> MemReq" where
  "req_set req f = req\<lparr>req_flags := req_flags req OR f\<rparr>"

definition req_is :: "MemReq \<Rightarrow> flags \<Rightarrow> bool" where
  "req_is req f \<longleftrightarrow> req_flags req AND f \<noteq> 0"

text \<open>
  The switch with which every memory (\<open>MemoryController\<close>, \<open>SimpleMemory\<close>, \<open>MD1Memory\<close>,
  \<open>DDRMemory\<close>) sets the state of the requester's line.
\<close>

definition mem_grant :: "MemReq \<Rightarrow> MESIState" where
  "mem_grant req =
     (case req_type req of
        PUTS \<Rightarrow> StI
      | PUTX \<Rightarrow> StI
      | GETS \<Rightarrow> (if req_is req NOEXCL then StS else StE)
      | GETX \<Rightarrow> StM)"

lemma or_and_absorb: "(a OR f) AND f = f" for a f :: "'a::len word"
  by (rule bit_word_eqI) (auto simp: bit_simps)

lemma req_is_set [simp]: "f \<noteq> 0 \<Longrightarrow> req_is (req_set req f) f"
  by (simp add: req_is_def req_set_def or_and_absorb)

lemma mem_grant_simps [simp]:
  "mem_grant (req\<lparr>cycle := c\<rparr>) = mem_grant req"
  "mem_grant (req\<lparr>lineAddr := a\<rparr>) = mem_grant req"
  "mem_grant (req\<lparr>req_state := st\<rparr>) = mem_grant req"
  by (simp_all add: mem_grant_def req_is_def)

end
