(* ===== verification/Placement.thy ===== *)
theory Placement
  imports Tag_Buffer Mem_Types
begin

text \<open>
  The data the memory controller shares with its placement policies (\<open>src/src/mc.h\<close>) and the two
  simple policies: \<open>LinePlacementPolicy\<close> for the Alloy cache (\<open>src/src/line_placement.cpp\<close>) and
  \<open>OSPlacementPolicy\<close> for HMA (\<open>src/src/os_placement.cpp\<close>), whose bodies are commented out in the
  source.

  A \<open>Set\<close> is the array of its ways; \<open>num_ways\<close> of the C++ class is the length of that array.
\<close>

datatype ReqType = LOAD | STORE

datatype Scheme = AlloyCache | UnisonCache | HMA | HybridCache | NoCache | CacheOnly | Tagless

record Way =
  way_tag :: address
  way_valid :: bool
  way_dirty :: bool

type_synonym Set = "Way list"

definition getEmptyWay :: "Set \<Rightarrow> nat" where
  "getEmptyWay ws = first_index (\<lambda>w. \<not> way_valid w) ws"

definition hasEmptyWay :: "Set \<Rightarrow> bool" where
  "hasEmptyWay ws \<longleftrightarrow> getEmptyWay ws < length ws"

record TLBEntry =
  tlb_tag :: address
  tlb_way :: nat
  tlb_count :: nat
  touch_bitvec :: "64 word"
  dirty_bitvec :: "64 word"

section \<open>Line placement\<close>

record LinePlacementPolicy =
  lp_buffer :: rand48
  lp_sample_rate :: double
  lp_enable_replace :: bool

text \<open>\<open>seed\<close> is the value \<open>rand()\<close> returns.\<close>

definition lp_initialize :: "nat \<Rightarrow> double \<Rightarrow> bool \<Rightarrow> LinePlacementPolicy" where
  "lp_initialize seed sampleRate enableReplace =
     \<lparr>lp_buffer = srand48 seed, lp_sample_rate = sampleRate, lp_enable_replace = enableReplace\<rparr>"

definition lp_handleCacheMiss :: "LinePlacementPolicy \<Rightarrow> Way \<Rightarrow> bool \<times> LinePlacementPolicy" where
  "lp_handleCacheMiss lp current_tad =
     (if \<not> way_valid current_tad then (True, lp)
      else if \<not> lp_enable_replace lp then (False, lp)
      else let (f, buffer) = drand48 (lp_buffer lp)
           in (f < lp_sample_rate lp, lp\<lparr>lp_buffer := buffer\<rparr>))"

section \<open>OS placement\<close>

definition os_handleCacheAccess :: "address \<Rightarrow> ReqType \<Rightarrow> unit" where
  "os_handleCacheAccess tag type = ()"

definition os_remapPages :: nat where
  "os_remapPages = 0"

section \<open>Lemmas\<close>

lemma getEmptyWay_le [simp]: "getEmptyWay ws \<le> length ws"
  by (simp add: getEmptyWay_def)

lemma getEmptyWay_invalid: "getEmptyWay ws < length ws \<Longrightarrow> \<not> way_valid (ws ! getEmptyWay ws)"
  unfolding getEmptyWay_def by (rule first_index_nth)

lemma getEmptyWay_before: "i < getEmptyWay ws \<Longrightarrow> way_valid (ws ! i)"
  unfolding getEmptyWay_def by (drule first_index_before) simp

lemma no_empty_way: "\<not> hasEmptyWay ws \<Longrightarrow> i < length ws \<Longrightarrow> way_valid (ws ! i)"
  using getEmptyWay_before [of i ws] by (simp add: hasEmptyWay_def)

lemma lp_empty_placed: "\<not> way_valid w \<Longrightarrow> lp_handleCacheMiss lp w = (True, lp)"
  by (simp add: lp_handleCacheMiss_def)

lemma lp_rate_one:
  "lp_enable_replace lp \<Longrightarrow> 1 \<le> lp_sample_rate lp \<Longrightarrow> fst (lp_handleCacheMiss lp w)"
  using drand48_range [of "lp_buffer lp"]
  by (auto simp: lp_handleCacheMiss_def split: prod.splits intro: less_le_trans)

lemma lp_rate_zero:
  "way_valid w \<Longrightarrow> lp_sample_rate lp \<le> 0 \<Longrightarrow> \<not> fst (lp_handleCacheMiss lp w)"
  using drand48_range [of "lp_buffer lp"]
  by (cases "drand48 (lp_buffer lp)") (auto simp: lp_handleCacheMiss_def)

end
