(* ===== verification/Page_Placement.thy ===== *)
theory Page_Placement
  imports Placement
begin

text \<open>
  The page placement policy of the Unison and Hybrid (Banshee) schemes
  (\<open>src/src/page_placement.cpp\<close>): least-recently-used replacement with sampling, or Banshee's
  frequency-based replacement (FBR), in which every cache set has a chunk of counters, the first
  \<open>num_ways\<close> for the pages that are cached and the others for candidates.

  The policy reads the controller through its accessors; \<open>mc_view\<close> holds what they return.
  The fields \<open>_granularity\<close> and \<open>_access_count_threshold\<close> are never read or written and are left out.
\<close>

record mc_view =
  mv_num_ways :: nat
  mv_num_sets :: nat
  mv_num_requests :: nat
  mv_granularity :: nat
  mv_miss_rate :: double
  mv_tag_buffer :: "TagBuffer option"

datatype RepScheme = LRU | FBR

record ChunkEntry =
  ce_valid :: bool
  ce_tag :: address
  ce_count :: nat

record ChunkInfo =
  access_count :: nat
  entries :: "ChunkEntry list"
  num_hits :: nat
  num_misses :: nat

record PagePlacementPolicy =
  placement_policy :: RepScheme
  pp_buffer :: rand48
  pp_scheme :: Scheme
  lru_bits :: "nat list list"
  chunks :: "ChunkInfo list"
  num_chunks :: nat
  num_entries_per_chunk :: nat
  pp_sample_rate :: double
  max_count_size :: nat
  pp_enable_replace :: bool
  num_counter_read :: nat
  num_counter_write :: nat
  num_empty_replace :: nat

definition clearStats :: "PagePlacementPolicy \<Rightarrow> PagePlacementPolicy" where
  "clearStats pp = pp\<lparr>num_counter_read := 0, num_counter_write := 0, num_empty_replace := 0\<rparr>"

definition getTraffic :: "PagePlacementPolicy \<Rightarrow> nat" where
  "getTraffic pp = num_counter_read pp + num_counter_write pp"

text \<open>
  \<open>raw i\<close> is what the freshly allocated chunk \<open>i\<close> happens to hold: the source initialises the hit
  counts and the valid bits only.  \<open>rand\<close> is the value \<open>rand()\<close> returns.
\<close>

definition init_chunk :: "nat \<Rightarrow> ChunkInfo \<Rightarrow> ChunkInfo" where
  "init_chunk n raw =
     raw\<lparr>num_hits := 0, num_misses := 0,
         entries := map (\<lambda>j. (entries raw ! j)\<lparr>ce_valid := False\<rparr>) [0..<n]\<rparr>"

definition pp_initialize ::
    "mc_view \<Rightarrow> Scheme \<Rightarrow> double \<Rightarrow> bool \<Rightarrow> string \<Rightarrow> nat \<Rightarrow> (nat \<Rightarrow> ChunkInfo) \<Rightarrow> PagePlacementPolicy option" where
  "pp_initialize mv scheme sampleRate enableReplace placementPolicy rand raw = do {
     let n = 9;
     assert_that (mv_num_ways mv < n);
     policy \<leftarrow> (if placementPolicy = ''LRU'' then Some LRU
               else if placementPolicy = ''FBR'' then Some FBR
               else None);
     Some (clearStats
       \<lparr>placement_policy = policy, pp_buffer = srand48 rand, pp_scheme = scheme,
        lru_bits = replicate (mv_num_sets mv) [0..<mv_num_ways mv],
        chunks = map (\<lambda>i. init_chunk n (raw i)) [0..<mv_num_sets mv],
        num_chunks = mv_num_sets mv, num_entries_per_chunk = n,
        pp_sample_rate = sampleRate,
        max_count_size =
          (if sampleRate < 1 then (if 4096 < mv_granularity mv then 255 else 31) else 255),
        pp_enable_replace = enableReplace,
        num_counter_read = 0, num_counter_write = 0, num_empty_replace = 0\<rparr>) }"

definition touch_row :: "nat list \<Rightarrow> nat \<Rightarrow> nat list" where
  "touch_row row way = (map (touch_rank (row ! way)) row)[way := 0]"

definition pp_updateLRU :: "PagePlacementPolicy \<Rightarrow> nat \<Rightarrow> nat \<Rightarrow> PagePlacementPolicy" where
  "pp_updateLRU pp set_num way =
     pp\<lparr>lru_bits := (lru_bits pp)[set_num := touch_row (lru_bits pp ! set_num) way]\<rparr>"

definition sampleOrNot ::
    "mc_view \<Rightarrow> PagePlacementPolicy \<Rightarrow> double \<Rightarrow> bool \<Rightarrow> bool \<times> PagePlacementPolicy" where
  "sampleOrNot mv pp sample_rate miss_rate_tune =
     (let miss_rate = mv_miss_rate mv;
          (f, buffer) = drand48 (pp_buffer pp);
          pp' = pp\<lparr>pp_buffer := buffer\<rparr>
      in if miss_rate_tune then (f < dmul sample_rate miss_rate, pp') else (f < sample_rate, pp'))"

text \<open>The two arguments are pointers; \<open>None\<close> is the null pointer.\<close>

definition compareCounter ::
    "mc_view \<Rightarrow> PagePlacementPolicy \<Rightarrow> ChunkEntry option \<Rightarrow> ChunkEntry option \<Rightarrow> bool" where
  "compareCounter mv pp entry1 entry2 =
     (case entry1 of
        None \<Rightarrow> False
      | Some e1 \<Rightarrow>
          (case entry2 of
             None \<Rightarrow> 0 < ce_count e1
           | Some e2 \<Rightarrow>
               dadd (dnat (ce_count e2)) (dmul (dnat (mv_granularity mv div 64 div 2)) (pp_sample_rate pp))
                 \<le> dnat (ce_count e1)))"

text \<open>\<open>initialize\<close> asserts \<open>num_ways < num_entries_per_chunk\<close>, so the modulus is positive.\<close>

definition getChunkEntry ::
    "nat \<Rightarrow> nat \<Rightarrow> address \<Rightarrow> bool \<Rightarrow> ChunkEntry list \<Rightarrow> rand48 \<Rightarrow> (nat \<times> ChunkEntry list \<times> rand48) option" where
  "getChunkEntry ways n tag allocate es buffer =
     (let found = first_index (\<lambda>e. ce_valid e \<and> ce_tag e = tag) es;
          free = first_index (\<lambda>e. \<not> ce_valid e) es
      in if found < n then Some (found, es, buffer)
         else do {
           (idx, buffer') \<leftarrow>
             (if free = n \<and> allocate
              then do {
                let (r, b1) = lrand48 buffer;
                let (f, b2) = drand48 b1;
                assert_that (ways < n);
                let i = ways + r mod (n - ways);
                assert_that (ways \<le> i);
                Some (if 0 < ce_count (es ! i) \<and> ddiv 1 (dnat (ce_count (es ! i))) < f then n else i, b2) }
              else Some (free, buffer));
           if idx < n
           then Some (idx, es[idx := \<lparr>ce_valid = True, ce_tag = tag, ce_count = 0\<rparr>], buffer')
           else Some (idx, es, buffer') })"

fun pick_victim :: "ChunkEntry list \<Rightarrow> nat \<Rightarrow> nat \<Rightarrow> nat \<Rightarrow> nat option" where
  "pick_victim [] i min_count min_idx = Some min_idx"
| "pick_victim (e # es) i min_count min_idx = do {
     assert_that (ce_valid e);
     if ce_count e < min_count
     then pick_victim es (Suc i) (ce_count e) i
     else pick_victim es (Suc i) min_count min_idx }"

definition pickVictimWay :: "nat \<Rightarrow> ChunkEntry list \<Rightarrow> nat option" where
  "pickVictimWay ways es = pick_victim (take ways es) 0 10000 ways"

definition handleCounterOverflow :: "ChunkEntry list \<Rightarrow> nat \<Rightarrow> ChunkEntry list" where
  "handleCounterOverflow es idx =
     map (\<lambda>i. (es ! i)\<lparr>ce_count := (if i = idx then ce_count (es ! i) + 1 else ce_count (es ! i)) div 2\<rparr>)
       [0..<length es]"

text \<open>\<open>chunk_entry->count ++\<close> and the overflow check that follows it in both handlers.\<close>

definition count_access :: "nat \<Rightarrow> ChunkEntry list \<Rightarrow> nat \<Rightarrow> ChunkEntry list" where
  "count_access max_count es idx =
     (let es' = es[idx := (es ! idx)\<lparr>ce_count := ce_count (es ! idx) + 1\<rparr>]
      in if max_count \<le> ce_count (es' ! idx) then handleCounterOverflow es' idx else es')"

text \<open>The checks both handlers start with: the first entries of the chunk are the cached pages.\<close>

definition chunk_matches :: "nat \<Rightarrow> Set \<Rightarrow> ChunkEntry list \<Rightarrow> bool" where
  "chunk_matches ways ws es \<longleftrightarrow>
     (\<forall>way < ways. way_valid (ws ! way) \<longrightarrow> way_tag (ws ! way) = ce_tag (es ! way))"

definition set_entries :: "PagePlacementPolicy \<Rightarrow> nat \<Rightarrow> ChunkEntry list \<Rightarrow> PagePlacementPolicy" where
  "set_entries pp k es = pp\<lparr>chunks := (chunks pp)[k := (chunks pp ! k)\<lparr>entries := es\<rparr>]\<rparr>"

definition count_traffic :: "PagePlacementPolicy \<Rightarrow> PagePlacementPolicy" where
  "count_traffic pp =
     pp\<lparr>num_counter_read := num_counter_read pp + 1, num_counter_write := num_counter_write pp + 1\<rparr>"

text \<open>The sampling rate that applies to this access, and whether the recent miss rate scales it.\<close>

definition sample_params :: "mc_view \<Rightarrow> PagePlacementPolicy \<Rightarrow> double \<times> bool" where
  "sample_params mv pp =
     (if mv_num_requests mv < mv_num_sets mv * mv_num_ways mv * 64 * 8 then 1 else pp_sample_rate pp,
      pp_sample_rate pp \<noteq> 1)"

definition pp_miss_LRU ::
    "mc_view \<Rightarrow> PagePlacementPolicy \<Rightarrow> address \<Rightarrow> nat \<Rightarrow> Set \<Rightarrow> (nat \<times> PagePlacementPolicy) option" where
  "pp_miss_LRU mv pp tag set_num ws =
     (if hasEmptyWay ws
      then Some (getEmptyWay ws, pp_updateLRU pp set_num (getEmptyWay ws))
      else if \<not> pp_enable_replace pp then Some (mv_num_ways mv, pp)
      else let (f, b1) = drand48 (pp_buffer pp);
               (w, b2) = lrand48 b1;
               pp' = pp\<lparr>pp_buffer := b2\<rparr>
           in if f < pp_sample_rate pp
              then let i = first_index (\<lambda>r. r = mv_num_ways mv - 1) (lru_bits pp ! set_num)
                   in if mv_num_ways mv \<le> i then None
                      else if pp_scheme pp = HybridCache
                      then do {
                        tb \<leftarrow> mv_tag_buffer mv;
                        ok \<leftarrow> canInsert2 tb tag (way_tag (ws ! i));
                        Some (if ok then (i, pp_updateLRU pp' set_num i) else (mv_num_ways mv, pp')) }
                      else Some (i, pp_updateLRU pp' set_num i)
              else Some (mv_num_ways mv, pp'))"

text \<open>The part of the FBR handler behind the sampling decision.\<close>

definition pp_miss_update ::
    "mc_view \<Rightarrow> PagePlacementPolicy \<Rightarrow> address \<Rightarrow> nat \<Rightarrow> Set \<Rightarrow> (nat \<times> PagePlacementPolicy) option" where
  "pp_miss_update mv pp tag k ws = do {
     let ways = mv_num_ways mv;
     let n = num_entries_per_chunk pp;
     let empty_way = getEmptyWay ws;
     (idx, es, buffer) \<leftarrow> getChunkEntry ways n tag True (entries (chunks pp ! k)) (pp_buffer pp);
     let pp = (set_entries (count_traffic pp) k es)\<lparr>pp_buffer := buffer\<rparr>;
     if idx = n then Some (ways, pp)
     else do {
       let es = count_access (max_count_size pp) es idx;
       let pp = set_entries pp k es;
       if empty_way < ways
       then do {
         assert_that (idx = empty_way);
         Some (empty_way, pp\<lparr>num_empty_replace := num_empty_replace pp + 1\<rparr>) }
       else do {
         assert_that (ways \<le> idx);
         victim_way \<leftarrow> pickVictimWay ways es;
         assert_that (victim_way < ways);
         replace \<leftarrow>
           (if compareCounter mv pp (Some (es ! idx)) (Some (es ! victim_way))
            then do { tb \<leftarrow> mv_tag_buffer mv; canInsert2 tb tag (ce_tag (es ! victim_way)) }
            else Some False);
         if replace
         then Some (victim_way, set_entries pp k (es[idx := es ! victim_way, victim_way := es ! idx]))
         else Some (ways, pp) } } }"

definition pp_miss_FBR ::
    "mc_view \<Rightarrow> PagePlacementPolicy \<Rightarrow> address \<Rightarrow> ReqType \<Rightarrow> nat \<Rightarrow> Set \<Rightarrow> bool \<Rightarrow>
     (nat \<times> bool \<times> PagePlacementPolicy) option" where
  "pp_miss_FBR mv pp tag type k ws counter_access = do {
     assert_that (pp_enable_replace pp);
     assert_that (chunk_matches (mv_num_ways mv) ws (entries (chunks pp ! k)));
     if type = STORE then Some (mv_num_ways mv, counter_access, pp)
     else
       let (rate, tune) = sample_params mv pp;
           (updateFBR, pp') = (if hasEmptyWay ws then (True, pp) else sampleOrNot mv pp rate tune)
       in if updateFBR
          then do { (way, pp'') \<leftarrow> pp_miss_update mv pp' tag k ws; Some (way, True, pp'') }
          else Some (mv_num_ways mv, counter_access, pp') }"

definition count_miss :: "PagePlacementPolicy \<Rightarrow> nat \<Rightarrow> PagePlacementPolicy" where
  "count_miss pp k =
     pp\<lparr>chunks := (chunks pp)[k := (chunks pp ! k)\<lparr>num_misses := num_misses (chunks pp ! k) + 1\<rparr>]\<rparr>"

definition pp_handleCacheMiss ::
    "mc_view \<Rightarrow> PagePlacementPolicy \<Rightarrow> address \<Rightarrow> ReqType \<Rightarrow> nat \<Rightarrow> Set \<Rightarrow> bool \<Rightarrow>
     (nat \<times> bool \<times> PagePlacementPolicy) option" where
  "pp_handleCacheMiss mv pp tag type set_num ws counter_access =
     (let pp = count_miss pp set_num
      in case placement_policy pp of
           LRU \<Rightarrow> do { (way, pp') \<leftarrow> pp_miss_LRU mv pp tag set_num ws; Some (way, counter_access, pp') }
         | FBR \<Rightarrow> pp_miss_FBR mv pp tag type set_num ws counter_access)"

definition pp_hit_FBR ::
    "mc_view \<Rightarrow> PagePlacementPolicy \<Rightarrow> address \<Rightarrow> nat \<Rightarrow> Set \<Rightarrow> bool \<Rightarrow>
     (bool \<times> PagePlacementPolicy) option" where
  "pp_hit_FBR mv pp tag k ws counter_access = do {
     assert_that (chunk_matches (mv_num_ways mv) ws (entries (chunks pp ! k)));
     let (rate, tune) = sample_params mv pp;
     let (sampled, pp) = sampleOrNot mv pp rate tune;
     if sampled
     then do {
       (idx, es, buffer) \<leftarrow>
         getChunkEntry (mv_num_ways mv) (num_entries_per_chunk pp) tag True
           (entries (chunks pp ! k)) (pp_buffer pp);
       assert_that (idx < mv_num_ways mv);
       Some (True, (set_entries (count_traffic pp) k (count_access (max_count_size pp) es idx))
                     \<lparr>pp_buffer := buffer\<rparr>) }
     else Some (counter_access, pp) }"

definition pp_handleCacheHit ::
    "mc_view \<Rightarrow> PagePlacementPolicy \<Rightarrow> address \<Rightarrow> ReqType \<Rightarrow> nat \<Rightarrow> Set \<Rightarrow> bool \<Rightarrow> nat \<Rightarrow>
     (bool \<times> PagePlacementPolicy) option" where
  "pp_handleCacheHit mv pp tag type set_num ws counter_access hit_way = do {
     assert_that (tag = way_tag (ws ! hit_way));
     case placement_policy pp of
       LRU \<Rightarrow> Some (counter_access, pp_updateLRU pp set_num hit_way)
     | FBR \<Rightarrow> pp_hit_FBR mv pp tag set_num ws counter_access }"

definition flushChunk :: "PagePlacementPolicy \<Rightarrow> nat \<Rightarrow> PagePlacementPolicy" where
  "flushChunk pp k =
     set_entries pp k (replicate (num_entries_per_chunk pp) \<lparr>ce_valid = False, ce_tag = 0, ce_count = 0\<rparr>)"


section \<open>Least-recently-used ranks\<close>

definition row_ok :: "nat \<Rightarrow> nat list \<Rightarrow> bool" where
  "row_ok ways row \<longleftrightarrow> length row = ways \<and> ranks_ok ways ((!) row) {..<ways}"

lemma row_ok_upt [simp]: "row_ok n [0..<n]"
  by (auto simp: row_ok_def ranks_ok_def inj_on_def)

lemma touch_row_nth:
  "way < length row \<Longrightarrow> i < length row \<Longrightarrow>
   touch_row row way ! i = (if i = way then 0 else touch_rank (row ! way) (row ! i))"
  by (simp add: touch_row_def nth_list_update_if)

lemma touch_row_ok: "row_ok ways row \<Longrightarrow> way < ways \<Longrightarrow> row_ok ways (touch_row row way)"
  using ranks_ok_touch [of ways "(!) row" "{..<ways}" way]
    ranks_ok_cong [of "{..<ways}" "(!) (touch_row row way)"
      "\<lambda>i. if i = way then 0 else touch_rank (row ! way) (row ! i)" ways]
  by (simp add: row_ok_def touch_row_nth) (simp add: touch_row_def)

lemma lru_victim:
  assumes "row_ok ways row" "0 < ways"
  shows "first_index (\<lambda>r. r = ways - 1) row < ways"
    and "row ! first_index (\<lambda>r. r = ways - 1) row = ways - 1"
proof -
  obtain i where "i < ways" "row ! i = ways - 1"
    using ranks_full [of ways "(!) row" "ways - 1"] assms by (auto simp: row_ok_def)
  then have "\<exists>r \<in> set row. r = ways - 1"
    using assms(1) by (auto simp: row_ok_def in_set_conv_nth)
  then have less: "first_index (\<lambda>r. r = ways - 1) row < length row"
    by (simp add: first_index_less_iff)
  then show "first_index (\<lambda>r. r = ways - 1) row < ways"
    using assms(1) by (simp add: row_ok_def)
  show "row ! first_index (\<lambda>r. r = ways - 1) row = ways - 1"
    using first_index_nth [OF less] by simp
qed

section \<open>Frequency counters\<close>

definition chunk_ok :: "nat \<Rightarrow> nat \<Rightarrow> nat \<Rightarrow> Set \<Rightarrow> ChunkEntry list \<Rightarrow> bool" where
  "chunk_ok ways n m ws es \<longleftrightarrow>
     length es = n \<and> length ws = ways \<and> ways < n \<and>
     (\<forall>i < ways. ce_valid (es ! i) = way_valid (ws ! i)) \<and>
     (\<forall>i < ways. way_valid (ws ! i) \<longrightarrow> ce_tag (es ! i) = way_tag (ws ! i)) \<and>
     (\<forall>i < n. \<forall>j < n. ce_valid (es ! i) \<longrightarrow> ce_valid (es ! j) \<longrightarrow> ce_tag (es ! i) = ce_tag (es ! j) \<longrightarrow> i = j) \<and>
     (\<forall>j < n. ways \<le> j \<longrightarrow> ce_valid (es ! j) \<longrightarrow> (\<forall>i < ways. ce_valid (es ! i))) \<and>
     (\<forall>i < n. ce_valid (es ! i) \<longrightarrow> ce_count (es ! i) < m)"

lemma chunk_okD [wf_dest]:
  assumes "chunk_ok ways n m ws es"
  shows "length es = n" and "length ws = ways" and "ways < n"
    and "\<And>i. i < ways \<Longrightarrow> ce_valid (es ! i) = way_valid (ws ! i)"
    and "\<And>i. i < ways \<Longrightarrow> way_valid (ws ! i) \<Longrightarrow> ce_tag (es ! i) = way_tag (ws ! i)"
    and "\<And>i j. i < n \<Longrightarrow> j < n \<Longrightarrow> ce_valid (es ! i) \<Longrightarrow> ce_valid (es ! j) \<Longrightarrow>
      ce_tag (es ! i) = ce_tag (es ! j) \<Longrightarrow> i = j"
    and "\<And>i j. j < n \<Longrightarrow> ways \<le> j \<Longrightarrow> ce_valid (es ! j) \<Longrightarrow> i < ways \<Longrightarrow> ce_valid (es ! i)"
    and "\<And>i. i < n \<Longrightarrow> ce_valid (es ! i) \<Longrightarrow> ce_count (es ! i) < m"
  using assms unfolding chunk_ok_def by auto

lemma chunk_okI:
  assumes "length es = n" "length ws = ways" "ways < n"
    and "\<And>i. i < ways \<Longrightarrow> ce_valid (es ! i) = way_valid (ws ! i)"
    and "\<And>i. i < ways \<Longrightarrow> way_valid (ws ! i) \<Longrightarrow> ce_tag (es ! i) = way_tag (ws ! i)"
    and "\<And>i j. i < n \<Longrightarrow> j < n \<Longrightarrow> ce_valid (es ! i) \<Longrightarrow> ce_valid (es ! j) \<Longrightarrow>
      ce_tag (es ! i) = ce_tag (es ! j) \<Longrightarrow> i = j"
    and "\<And>i j. j < n \<Longrightarrow> ways \<le> j \<Longrightarrow> ce_valid (es ! j) \<Longrightarrow> i < ways \<Longrightarrow> ce_valid (es ! i)"
    and "\<And>i. i < n \<Longrightarrow> ce_valid (es ! i) \<Longrightarrow> ce_count (es ! i) < m"
  shows "chunk_ok ways n m ws es"
  using assms unfolding chunk_ok_def by simp

lemma chunk_ok_matches: "chunk_ok ways n m ws es \<Longrightarrow> chunk_matches ways ws es"
  by (simp add: chunk_matches_def chunk_ok_def)

lemma count_access_simps [simp]:
  assumes "i < length es"
  shows "ce_valid (count_access m es idx ! i) = ce_valid (es ! i)"
    and "ce_tag (count_access m es idx ! i) = ce_tag (es ! i)"
  using assms by (auto simp: count_access_def handleCounterOverflow_def Let_def nth_list_update_if)

lemma count_access_length [simp]: "length (count_access m es idx) = length es"
  by (simp add: count_access_def handleCounterOverflow_def Let_def)

lemma count_access_count:
  assumes "i < length es" "idx < length es"
  shows "ce_count (count_access m es idx ! i) =
    (if m \<le> ce_count (es ! idx) + 1
     then (if i = idx then ce_count (es ! i) + 2 else ce_count (es ! i)) div 2
     else if i = idx then ce_count (es ! i) + 1 else ce_count (es ! i))"
  using assms by (auto simp: count_access_def handleCounterOverflow_def Let_def nth_list_update_if)

lemma chunk_ok_counts:
  assumes "chunk_ok ways n m ws es" "length es' = n"
    and "\<And>i. i < n \<Longrightarrow> ce_valid (es' ! i) = ce_valid (es ! i)"
    and "\<And>i. i < n \<Longrightarrow> ce_tag (es' ! i) = ce_tag (es ! i)"
    and "\<And>i. i < n \<Longrightarrow> ce_valid (es ! i) \<Longrightarrow> ce_count (es' ! i) < m"
  shows "chunk_ok ways n m ws es'"
proof (rule chunk_okI)
  note D = chunk_okD [OF assms(1)]
  show "length es' = n" "length ws = ways" "ways < n" by fact+
  show "ce_valid (es' ! i) = way_valid (ws ! i)" if "i < ways" for i
    using D(3,4) assms(3) that by simp
  show "ce_tag (es' ! i) = way_tag (ws ! i)" if "i < ways" "way_valid (ws ! i)" for i
    using D(3,5) assms(4) that by simp
  show "i = j" if "i < n" "j < n" "ce_valid (es' ! i)" "ce_valid (es' ! j)" "ce_tag (es' ! i) = ce_tag (es' ! j)" for i j
    using D(6) [of i j] assms(3,4) that by simp
  show "ce_valid (es' ! i)" if "j < n" "ways \<le> j" "ce_valid (es' ! j)" "i < ways" for i j
    using D(3) D(7) [of j i] assms(3) that by simp
  show "ce_count (es' ! i) < m" if "i < n" "ce_valid (es' ! i)" for i
    using assms(3,5) that by simp
qed

lemma count_access_ok:
  assumes ok: "chunk_ok ways n m ws es" and idx: "idx < n" "ce_valid (es ! idx)" and m: "2 \<le> m"
  shows "chunk_ok ways n m ws (count_access m es idx)"
proof (rule chunk_ok_counts [OF ok])
  note D = chunk_okD [OF ok]
  show "ce_count (count_access m es idx ! i) < m" if "i < n" "ce_valid (es ! i)" for i
    using D(1) D(8) [OF that] D(8) [OF idx] idx m that by (auto simp: count_access_count)
qed (simp_all add: chunk_okD(1) [OF ok])

section \<open>Choosing a victim\<close>

lemma pick_victim_spec:
  assumes "\<forall>e \<in> set es. ce_valid e"
  shows "\<exists>v. pick_victim es i c v0 = Some v \<and>
    (v = v0 \<and> (\<forall>e \<in> set es. c \<le> ce_count e) \<or>
     (\<exists>k < length es. v = i + k \<and> ce_count (es ! k) < c \<and> (\<forall>e \<in> set es. ce_count (es ! k) \<le> ce_count e)))"
  using assms
proof (induction es arbitrary: i c v0)
  case (Cons e es)
  have v: "ce_valid e" and vs: "\<forall>e' \<in> set es. ce_valid e'" using Cons.prems by auto
  show ?case
  proof (cases "ce_count e < c")
    case True
    obtain v where 1: "pick_victim es (Suc i) (ce_count e) i = Some v"
      "v = i \<and> (\<forall>e' \<in> set es. ce_count e \<le> ce_count e') \<or>
       (\<exists>k < length es. v = Suc i + k \<and> ce_count (es ! k) < ce_count e \<and> (\<forall>e' \<in> set es. ce_count (es ! k) \<le> ce_count e'))"
      using Cons.IH [OF vs, of "Suc i" "ce_count e" i] by (elim exE conjE) (rule that)
    from 1(2) have "\<exists>k < length (e # es). v = i + k \<and> ce_count ((e # es) ! k) < c \<and>
        (\<forall>e' \<in> set (e # es). ce_count ((e # es) ! k) \<le> ce_count e')"
    proof (elim disjE exE conjE)
      fix k assume "k < length es" "v = Suc i + k" "ce_count (es ! k) < ce_count e"
        "\<forall>e' \<in> set es. ce_count (es ! k) \<le> ce_count e'"
      then show ?thesis using True by (intro exI [of _ "Suc k"]) auto
    qed (use True in \<open>auto intro: exI [of _ 0]\<close>)
    then show ?thesis using 1(1) v True by simp
  next
    case False
    obtain v where 1: "pick_victim es (Suc i) c v0 = Some v"
      "v = v0 \<and> (\<forall>e' \<in> set es. c \<le> ce_count e') \<or>
       (\<exists>k < length es. v = Suc i + k \<and> ce_count (es ! k) < c \<and> (\<forall>e' \<in> set es. ce_count (es ! k) \<le> ce_count e'))"
      using Cons.IH [OF vs, of "Suc i" c v0] by (elim exE conjE) (rule that)
    from 1(2) have "v = v0 \<and> (\<forall>e' \<in> set (e # es). c \<le> ce_count e') \<or>
       (\<exists>k < length (e # es). v = i + k \<and> ce_count ((e # es) ! k) < c \<and>
        (\<forall>e' \<in> set (e # es). ce_count ((e # es) ! k) \<le> ce_count e'))"
    proof (elim disjE exE conjE)
      fix k assume "k < length es" "v = Suc i + k" "ce_count (es ! k) < c"
        "\<forall>e' \<in> set es. ce_count (es ! k) \<le> ce_count e'"
      then show ?thesis using False by (intro disjI2 exI [of _ "Suc k"]) auto
    qed (use False in auto)
    then show ?thesis using 1(1) v False by simp
  qed
qed auto

lemma pickVictimWay_ok:
  assumes "0 < ways" "ways \<le> length es"
    and valid: "\<And>i. i < ways \<Longrightarrow> ce_valid (es ! i) \<and> ce_count (es ! i) < 10000"
  shows "\<exists>v < ways. pickVictimWay ways es = Some v \<and> (\<forall>i < ways. ce_count (es ! v) \<le> ce_count (es ! i))"
proof -
  have vs: "ce_valid e" "ce_count e < 10000" if "e \<in> set (take ways es)" for e
    using that assms(2) valid by (auto simp: in_set_conv_nth)
  have "es ! 0 \<in> set (take ways es)"
    using assms(1,2) by (auto simp: in_set_conv_nth intro!: exI [of _ 0])
  then have none: "\<not> (\<forall>e \<in> set (take ways es). 10000 \<le> ce_count e)" using vs(2) by fastforce
  obtain k where "k < length (take ways es)" "pickVictimWay ways es = Some (0 + k)"
    "\<forall>e \<in> set (take ways es). ce_count (take ways es ! k) \<le> ce_count e"
    using pick_victim_spec [of "take ways es" 0 10000 ways] vs(1) none
    by (auto simp: pickVictimWay_def)
  moreover have "es ! i \<in> set (take ways es)" if "i < ways" for i
    using that assms(2) by (auto simp: in_set_conv_nth)
  ultimately show ?thesis using assms(2) by (intro exI [of _ k]) simp
qed


section \<open>Chunk updates\<close>

definition tag_in :: "Set \<Rightarrow> address \<Rightarrow> bool" where
  "tag_in ws tag \<longleftrightarrow> (\<exists>w \<in> set ws. way_valid w \<and> way_tag w = tag)"

lemma tag_inI: "i < length ws \<Longrightarrow> way_valid (ws ! i) \<Longrightarrow> tag_in ws (way_tag (ws ! i))"
  by (auto simp: tag_in_def)

lemma chunk_first_free:
  assumes ok: "chunk_ok ways n m ws es"
  shows "\<not> hasEmptyWay ws \<Longrightarrow> ways \<le> first_index (\<lambda>e. \<not> ce_valid e) es" (is "_ \<Longrightarrow> _ \<le> ?free")
    and "hasEmptyWay ws \<Longrightarrow> first_index (\<lambda>e. \<not> ce_valid e) es = getEmptyWay ws"
proof -
  note D = chunk_okD [OF ok]
  show "ways \<le> ?free" if ne: "\<not> hasEmptyWay ws"
  proof (rule ccontr)
    assume less: "\<not> ways \<le> ?free"
    then have "?free < length es" using D(1,3) by simp
    then have "\<not> ce_valid (es ! ?free)" by (rule first_index_nth)
    then show False using D(2) D(4) [of ?free] no_empty_way [OF ne, of ?free] less by simp
  qed
  show "?free = getEmptyWay ws" if he: "hasEmptyWay ws"
  proof (rule first_index_eqI)
    show "getEmptyWay ws < length es" using he D(1-3) by (simp add: hasEmptyWay_def)
    show "\<not> ce_valid (es ! getEmptyWay ws)"
      using he getEmptyWay_invalid [of ws] D(2,4) by (simp add: hasEmptyWay_def)
    show "\<not> \<not> ce_valid (es ! i)" if "i < getEmptyWay ws" for i
      using that getEmptyWay_before [OF that] getEmptyWay_le [of ws] D(2) D(4) [of i] by simp
  qed
qed

lemma chunk_found_uncached:
  assumes ok: "chunk_ok ways n m ws es" and new: "\<not> tag_in ws tag"
    and f: "i < n" "ce_valid (es ! i)" "ce_tag (es ! i) = tag"
  shows "ways \<le> i" and "\<not> hasEmptyWay ws"
proof -
  note D = chunk_okD [OF ok]
  show le: "ways \<le> i"
    using f D(2) D(4,5) [of i] tag_inI [of i ws] new by (cases "i < ways") auto
  show "\<not> hasEmptyWay ws"
    using D(2,4) D(7) [OF f(1) le f(2), of "getEmptyWay ws"] getEmptyWay_invalid [of ws]
    by (auto simp: hasEmptyWay_def)
qed

text \<open>
  What \<open>getChunkEntry\<close> does for a page that is not cached: it leaves the chunk alone, or it returns a
  slot for the page.  The slot is the first empty way if the set has one, and a candidate slot
  otherwise, so that the chunk describes the set with the page placed there (an update beyond
  the last way changes nothing).
\<close>

definition slot_for :: "nat \<Rightarrow> nat \<Rightarrow> Set \<Rightarrow> address \<Rightarrow> ChunkEntry list \<Rightarrow> nat \<Rightarrow> ChunkEntry list \<Rightarrow> bool" where
  "slot_for ways n ws tag es idx es' \<longleftrightarrow>
     idx = n \<and> es' = es \<and> \<not> hasEmptyWay ws \<or>
     idx < n \<and> (hasEmptyWay ws \<longrightarrow> idx = getEmptyWay ws) \<and> (\<not> hasEmptyWay ws \<longrightarrow> ways \<le> idx) \<and>
     (es' = es \<and> ce_valid (es ! idx) \<and> ce_tag (es ! idx) = tag \<and> \<not> hasEmptyWay ws \<or>
      es' = es[idx := \<lparr>ce_valid = True, ce_tag = tag, ce_count = 0\<rparr>] \<and>
      (\<forall>i < n. ce_valid (es ! i) \<longrightarrow> ce_tag (es ! i) \<noteq> tag))"

lemma getChunkEntry_miss:
  assumes ok: "chunk_ok ways n m ws es" and new: "\<not> tag_in ws tag"
  shows "\<exists>idx es' b'. getChunkEntry ways n tag True es b = Some (idx, es', b') \<and>
    slot_for ways n ws tag es idx es'"
proof -
  note D = chunk_okD [OF ok]
  define found where "found = first_index (\<lambda>e. ce_valid e \<and> ce_tag e = tag) es"
  define free where "free = first_index (\<lambda>e. \<not> ce_valid e) es"
  note eqs = getChunkEntry_def slot_for_def found_def [symmetric] free_def [symmetric]
  have le: "found \<le> n" "free \<le> n" using D(1) by (auto simp: found_def free_def)
  note free = chunk_first_free [OF ok, folded free_def]
  consider (found) "found < n" | (free) "found = n" "free < n" | (full) "found = n" "free = n"
    using le by linarith
  then show ?thesis
  proof cases
    case found
    then have f: "ce_valid (es ! found)" "ce_tag (es ! found) = tag"
      using first_index_nth [of "\<lambda>e. ce_valid e \<and> ce_tag e = tag" es] D(1) by (auto simp: found_def)
    show ?thesis using chunk_found_uncached [OF ok new found f] f found by (simp add: eqs)
  next
    case free
    then have "\<forall>i < n. ce_valid (es ! i) \<longrightarrow> ce_tag (es ! i) \<noteq> tag"
      using D(1) first_index_before [of _ "\<lambda>e. ce_valid e \<and> ce_tag e = tag" es] by (auto simp: found_def)
    then show ?thesis using free \<open>\<not> hasEmptyWay ws \<Longrightarrow> ways \<le> free\<close> \<open>hasEmptyWay ws \<Longrightarrow> free = getEmptyWay ws\<close>
      by (simp add: eqs)
  next
    case full
    then have absent: "\<forall>i < n. ce_valid (es ! i) \<longrightarrow> ce_tag (es ! i) \<noteq> tag"
      using D(1) first_index_before [of _ "\<lambda>e. ce_valid e \<and> ce_tag e = tag" es] by (auto simp: found_def)
    have ne: "\<not> hasEmptyWay ws" using free(2) full D(2,3) getEmptyWay_le [of ws] by auto
    obtain r b1 f b2 where r: "lrand48 b = (r, b1)" "drand48 b1 = (f, b2)" by fastforce
    define i where "i = ways + r mod (n - ways)"
    have "i < n" using D(3) mod_less_divisor [of "n - ways" r] unfolding i_def by linarith
    moreover have "ways \<le> i" by (simp add: i_def)
    ultimately show ?thesis
      using full ne absent D(3)
      by (cases "0 < ce_count (es ! i) \<and> ddiv 1 (dnat (ce_count (es ! i))) < f")
        (auto simp: eqs r i_def [symmetric])
  qed
qed

lemma chunk_ok_place:
  assumes ok: "chunk_ok ways n m ws es" and m: "0 < m" and w: "way_valid w" "way_tag w = tag"
    and absent: "\<forall>i < n. ce_valid (es ! i) \<longrightarrow> ce_tag (es ! i) \<noteq> tag"
    and idx: "idx < n" "hasEmptyWay ws \<Longrightarrow> idx = getEmptyWay ws" "\<not> hasEmptyWay ws \<Longrightarrow> ways \<le> idx"
  shows "chunk_ok ways n m (ws[idx := w]) (es[idx := \<lparr>ce_valid = True, ce_tag = tag, ce_count = 0\<rparr>])"
    (is "chunk_ok _ _ _ ?ws ?es")
proof (rule chunk_okI)
  note D = chunk_okD [OF ok]
  have nth: "?es ! i = (if idx = i then \<lparr>ce_valid = True, ce_tag = tag, ce_count = 0\<rparr> else es ! i)" if "i < n" for i
    using that D(1) by (simp add: nth_list_update_if)
  have wnth: "?ws ! i = (if idx = i then w else ws ! i)" if "i < ways" for i
    using that D(2) by (simp add: nth_list_update_if)
  show "length ?es = n" "length ?ws = ways" "ways < n" using D by simp_all
  show "ce_valid (?es ! i) = way_valid (?ws ! i)" if "i < ways" for i
    using D(3) D(4) [OF that] nth [of i] wnth [of i] that w by simp
  show "ce_tag (?es ! i) = way_tag (?ws ! i)" if "i < ways" "way_valid (?ws ! i)" for i
    using D(3) D(5) [of i] nth [of i] wnth [of i] that w by (simp split: if_splits)
  show "i = j" if "i < n" "j < n" "ce_valid (?es ! i)" "ce_valid (?es ! j)" "ce_tag (?es ! i) = ce_tag (?es ! j)" for i j
    using D(6) [of i j] nth [OF that(1)] nth [OF that(2)] that absent by (cases "idx = i"; cases "idx = j") auto
  show "ce_valid (?es ! i)" if "j < n" "ways \<le> j" "ce_valid (?es ! j)" "i < ways" for i j
  proof (cases "hasEmptyWay ws")
    case True
    then have "idx < ways" using idx(2) D(2) by (simp add: hasEmptyWay_def)
    then have "ce_valid (es ! j)" using that nth [of j] by simp
    from D(7) [OF that(1,2) this, of "getEmptyWay ws"] have False
      using True D(2,4) getEmptyWay_invalid [of ws] by (simp add: hasEmptyWay_def)
    then show ?thesis ..
  next
    case False
    then show ?thesis
      using D(2-4) nth [of i] that no_empty_way [OF False, of i] by simp
  qed
  show "ce_count (?es ! i) < m" if "i < n" "ce_valid (?es ! i)" for i
    using D(8) [of i] nth [of i] that m by (simp split: if_splits)
qed


lemma chunk_ok_swap:
  assumes ok: "chunk_ok ways n m ws es" and full: "\<not> hasEmptyWay ws"
    and idx: "ways \<le> idx" "idx < n" "ce_valid (es ! idx)" and v: "v < ways"
    and w: "way_valid w" "way_tag w = ce_tag (es ! idx)"
  shows "chunk_ok ways n m (ws[v := w]) (es[idx := es ! v, v := es ! idx])"
    (is "chunk_ok _ _ _ ?ws ?es")
proof (rule chunk_okI)
  note D = chunk_okD [OF ok]
  define p where "p i = (if i = v then idx else if i = idx then v else i)" for i
  have nth: "?es ! i = es ! p i" "p i < n" if "i < n" for i
    using that D(1,3) idx v by (auto simp: nth_list_update_if p_def)
  have p_inj: "p i = p j \<Longrightarrow> i = j" for i j by (auto simp: p_def split: if_splits)
  have all: "ce_valid (es ! i)" if "i < ways" for i
    using D(2) D(4) [OF that] no_empty_way [OF full, of i] that by simp
  show "length ?es = n" "length ?ws = ways" "ways < n" using D by simp_all
  show "ce_valid (?es ! i) = way_valid (?ws ! i)" if "i < ways" for i
    using D(2,3) D(4) [OF that] nth(1) [of i] that idx w by (simp add: nth_list_update_if p_def)
  show "ce_tag (?es ! i) = way_tag (?ws ! i)" if "i < ways" "way_valid (?ws ! i)" for i
    using D(2,3) D(5) [OF that(1)] nth(1) [of i] that idx w by (auto simp: nth_list_update_if p_def split: if_splits)
  show "i = j" if "i < n" "j < n" "ce_valid (?es ! i)" "ce_valid (?es ! j)" "ce_tag (?es ! i) = ce_tag (?es ! j)" for i j
    using D(6) [of "p i" "p j"] nth [OF that(1)] nth [OF that(2)] that p_inj by simp
  show "ce_valid (?es ! i)" if "i < ways" for i
    using nth(1) [of i] that D(3) all [OF that] idx by (auto simp: p_def)
  show "ce_count (?es ! i) < m" if "i < n" "ce_valid (?es ! i)" for i
    using D(8) [of "p i"] nth [OF that(1)] that by simp
qed


section \<open>The invariant of the policy\<close>

text \<open>
  \<open>pp_cfg\<close> is what no handler changes; \<open>pp_frame k\<close> says that an operation on set \<open>k\<close> leaves the
  counters and ranks of every other set alone.
\<close>

definition pp_cfg :: "PagePlacementPolicy \<Rightarrow> RepScheme \<times> Scheme \<times> nat \<times> nat \<times> bool \<times> double" where
  "pp_cfg pp = (placement_policy pp, pp_scheme pp, num_entries_per_chunk pp, max_count_size pp,
     pp_enable_replace pp, pp_sample_rate pp)"

definition pp_frame :: "nat \<Rightarrow> PagePlacementPolicy \<Rightarrow> PagePlacementPolicy \<Rightarrow> bool" where
  "pp_frame k pp pp' \<longleftrightarrow>
     pp_cfg pp' = pp_cfg pp \<and>
     length (chunks pp') = length (chunks pp) \<and> length (lru_bits pp') = length (lru_bits pp) \<and>
     (\<forall>j. j \<noteq> k \<longrightarrow> chunks pp' ! j = chunks pp ! j \<and> lru_bits pp' ! j = lru_bits pp ! j)"

definition pp_ok :: "nat \<Rightarrow> nat \<Rightarrow> Set list \<Rightarrow> PagePlacementPolicy \<Rightarrow> bool" where
  "pp_ok ways sets cache pp \<longleftrightarrow>
     0 < ways \<and> ways < num_entries_per_chunk pp \<and> 2 \<le> max_count_size pp \<and> max_count_size pp \<le> 10000 \<and>
     length cache = sets \<and> length (lru_bits pp) = sets \<and> length (chunks pp) = sets \<and>
     (\<forall>s < sets. length (cache ! s) = ways \<and> row_ok ways (lru_bits pp ! s)) \<and>
     (placement_policy pp = FBR \<longrightarrow>
        pp_enable_replace pp \<and>
        (\<forall>s < sets. chunk_ok ways (num_entries_per_chunk pp) (max_count_size pp) (cache ! s)
                     (entries (chunks pp ! s))))"

lemma pp_frame_refl [simp]: "pp_frame k pp pp"
  by (simp add: pp_frame_def)

lemma pp_frame_trans: "pp_frame k pp pp' \<Longrightarrow> pp_frame k pp' pp'' \<Longrightarrow> pp_frame k pp pp''"
  by (simp add: pp_frame_def)

lemma pp_frame_set_entries [simp]: "pp_frame k pp (set_entries pp' k es) = pp_frame k pp pp'"
  by (simp add: pp_frame_def set_entries_def pp_cfg_def)

lemma pp_frame_updateLRU [simp]: "pp_frame k pp (pp_updateLRU pp' k way) = pp_frame k pp pp'"
  by (simp add: pp_frame_def pp_updateLRU_def pp_cfg_def)

lemma pp_frame_stats [simp]:
  "pp_frame k pp (pp'\<lparr>pp_buffer := b\<rparr>) = pp_frame k pp pp'"
  "pp_frame k pp (pp'\<lparr>num_empty_replace := e\<rparr>) = pp_frame k pp pp'"
  "pp_frame k pp (count_traffic pp') = pp_frame k pp pp'"
  by (simp_all add: pp_frame_def pp_cfg_def count_traffic_def)

lemma set_entries_simps [simp]:
  "k < length (chunks pp) \<Longrightarrow> entries (chunks (set_entries pp k es) ! k) = es"
  "lru_bits (set_entries pp k es) = lru_bits pp"
  "length (chunks (set_entries pp k es)) = length (chunks pp)"
  "max_count_size (set_entries pp k es) = max_count_size pp"
  "num_entries_per_chunk (set_entries pp k es) = num_entries_per_chunk pp"
  "num_empty_replace (set_entries pp k es) = num_empty_replace pp"
  by (simp_all add: set_entries_def)

lemma count_traffic_simps [simp]:
  "chunks (count_traffic pp) = chunks pp"
  "lru_bits (count_traffic pp) = lru_bits pp"
  "max_count_size (count_traffic pp) = max_count_size pp"
  "num_entries_per_chunk (count_traffic pp) = num_entries_per_chunk pp"
  "pp_buffer (count_traffic pp) = pp_buffer pp"
  by (simp_all add: count_traffic_def)

lemma slot_count_ok:
  assumes ok: "chunk_ok ways n m ws es" and m: "2 \<le> m" and w: "way_valid w" "way_tag w = tag"
    and slot: "slot_for ways n ws tag es idx es'" "idx < n"
  shows "chunk_ok ways n m (ws[idx := w]) (count_access m es' idx)"
    and "ce_valid (count_access m es' idx ! idx)" and "ce_tag (count_access m es' idx ! idx) = tag"
proof -
  note D = chunk_okD [OF ok]
  consider (old) "es' = es" "ce_valid (es ! idx)" "ce_tag (es ! idx) = tag" "ways \<le> idx"
    | (new) "es' = es[idx := \<lparr>ce_valid = True, ce_tag = tag, ce_count = 0\<rparr>]"
        "\<forall>i < n. ce_valid (es ! i) \<longrightarrow> ce_tag (es ! i) \<noteq> tag"
    using slot unfolding slot_for_def by blast
  then have "chunk_ok ways n m (ws[idx := w]) es' \<and> ce_valid (es' ! idx) \<and> ce_tag (es' ! idx) = tag"
  proof cases
    case old
    then show ?thesis using ok D(2) by (simp add: list_update_beyond)
  next
    case new
    have "chunk_ok ways n m (ws[idx := w]) es'"
      unfolding new(1) by (rule chunk_ok_place [OF ok _ w new(2)]) (use slot m in \<open>auto simp: slot_for_def\<close>)
    then show ?thesis using new(1) slot(2) D(1) by simp
  qed
  then show "chunk_ok ways n m (ws[idx := w]) (count_access m es' idx)"
    and "ce_valid (count_access m es' idx ! idx)" and "ce_tag (count_access m es' idx ! idx) = tag"
    using count_access_ok [OF _ slot(2) _ m] slot(2) chunk_okD(1) by auto
qed


text \<open>
  What the FBR handler guarantees about the chunk of the set: it describes the set after the page
  was placed into the returned way, and a page is only evicted when the tag buffer has room for
  both remappings.
\<close>

definition fbr_result ::
    "nat \<Rightarrow> TagBuffer \<Rightarrow> PagePlacementPolicy \<Rightarrow> nat \<Rightarrow> Set \<Rightarrow> address \<Rightarrow> nat \<Rightarrow> PagePlacementPolicy \<Rightarrow> bool" where
  "fbr_result ways tb pp k ws tag way pp' \<longleftrightarrow>
     way \<le> ways \<and> pp_frame k pp pp' \<and> lru_bits pp' = lru_bits pp \<and>
     (\<forall>w. way_valid w \<longrightarrow> way_tag w = tag \<longrightarrow>
        chunk_ok ways (num_entries_per_chunk pp) (max_count_size pp) (ws[way := w]) (entries (chunks pp' ! k))) \<and>
     (way < ways \<longrightarrow> way_valid (ws ! way) \<longrightarrow> canInsert2 tb tag (way_tag (ws ! way)) = Some True)"

lemma fbr_replace_ok:
  assumes ok: "chunk_ok ways n m ws es" and full: "\<not> hasEmptyWay ws" and pos: "0 < ways" "m \<le> 10000"
    and idx: "ways \<le> idx" "idx < n" "ce_valid (es ! idx)" "ce_tag (es ! idx) = tag"
    and tb: "tb_inv tb"
  obtains v b where "pickVictimWay ways es = Some v" "v < ways" "way_valid (ws ! v)"
    "ce_tag (es ! v) = way_tag (ws ! v)" "canInsert2 tb tag (way_tag (ws ! v)) = Some b"
    "\<forall>w. way_valid w \<longrightarrow> way_tag w = tag \<longrightarrow> chunk_ok ways n m (ws[v := w]) (es[idx := es ! v, v := es ! idx])"
proof -
  note D = chunk_okD [OF ok]
  have valid: "ce_valid (es ! i)" "ce_count (es ! i) < 10000" if "i < ways" for i
    using that D(2,3) D(4) [OF that] D(8) [of i] no_empty_way [OF full, of i] pos(2) by auto
  obtain v where v: "v < ways" "pickVictimWay ways es = Some v"
    using pickVictimWay_ok [of ways es] pos(1) D(1,3) valid by auto
  obtain b where b: "canInsert2 tb tag (way_tag (ws ! v)) = Some b"
    using canInsert2_total [OF tb] by blast
  have wv: "way_valid (ws ! v)" using v(1) D(2) no_empty_way [OF full] by simp
  show thesis
    by (rule that [OF v(2,1) wv _ b])
      (use D(5) [OF v(1) wv] chunk_ok_swap [OF ok full idx(1-3) v(1)] idx(4) in auto)
qed

lemma pp_miss_update_ok:
  assumes ok: "chunk_ok (mv_num_ways mv) (num_entries_per_chunk pp) (max_count_size pp) ws (entries (chunks pp ! k))"
    and new: "\<not> tag_in ws tag" and k: "k < length (chunks pp)"
    and pos: "0 < mv_num_ways mv" "2 \<le> max_count_size pp" "max_count_size pp \<le> 10000"
    and tb: "mv_tag_buffer mv = Some tb" "tb_inv tb"
  shows "\<exists>way pp'. pp_miss_update mv pp tag k ws = Some (way, pp') \<and>
    fbr_result (mv_num_ways mv) tb pp k ws tag way pp'"
proof -
  define ways n m es where defs: "ways = mv_num_ways mv" "n = num_entries_per_chunk pp"
    "m = max_count_size pp" "es = entries (chunks pp ! k)"
  note ok' = ok [folded defs] and pos' = pos [folded defs]
  note D = chunk_okD [OF ok']
  obtain idx es1 b1 where g: "getChunkEntry ways n tag True es (pp_buffer pp) = Some (idx, es1, b1)"
    and slot: "slot_for ways n ws tag es idx es1"
    using getChunkEntry_miss [OF ok' new] by blast
  define es2 where "es2 = count_access m es1 idx"
  note eqs = pp_miss_update_def defs(1-4) [symmetric] g fbr_result_def Let_def es2_def [symmetric]
  consider (none) "idx = n" "es1 = es" | (empty) "idx < n" "hasEmptyWay ws" | (full) "idx < n" "\<not> hasEmptyWay ws"
    using slot unfolding slot_for_def by blast
  then show ?thesis
  proof cases
    case none
    then show ?thesis using ok' D(2) k by (simp add: eqs list_update_beyond)
  next
    case empty
    then have "idx = getEmptyWay ws" "getEmptyWay ws < ways" "\<not> way_valid (ws ! getEmptyWay ws)"
      using slot D(2) getEmptyWay_invalid by (auto simp: slot_for_def hasEmptyWay_def)
    then show ?thesis
      using empty(1) k slot_count_ok(1) [OF ok' pos'(2) _ _ slot empty(1)]
      by (auto simp: eqs)
  next
    case full
    have idx: "ways \<le> idx" using full slot by (auto simp: slot_for_def)
    have ok2: "chunk_ok ways n m ws es2" and s2: "ce_valid (es2 ! idx)" "ce_tag (es2 ! idx) = tag"
      using slot_count_ok [OF ok' pos'(2) _ _ slot full(1), of "\<lparr>way_tag = tag, way_valid = True, way_dirty = False\<rparr>"]
        idx D(2) by (simp_all add: list_update_beyond es2_def)
    obtain v b where v: "pickVictimWay ways es2 = Some v" "v < ways" "way_valid (ws ! v)"
      "ce_tag (es2 ! v) = way_tag (ws ! v)" "canInsert2 tb tag (way_tag (ws ! v)) = Some b"
      "\<forall>w. way_valid w \<longrightarrow> way_tag w = tag \<longrightarrow> chunk_ok ways n m (ws[v := w]) (es2[idx := es2 ! v, v := es2 ! idx])"
      by (rule fbr_replace_ok [OF ok2 full(2) pos'(1,3) idx full(1) s2 tb(2)])
    show ?thesis
      using v full idx tb(1) k D(2) ok2
      by (auto simp: eqs hasEmptyWay_def list_update_beyond)
  qed
qed


lemma pp_okD [wf_dest]:
  assumes "pp_ok ways sets cache pp"
  shows "0 < ways" and "ways < num_entries_per_chunk pp" and "2 \<le> max_count_size pp"
    and "max_count_size pp \<le> 10000" and "length cache = sets" and "length (lru_bits pp) = sets"
    and "length (chunks pp) = sets"
    and "\<And>s. s < sets \<Longrightarrow> length (cache ! s) = ways" and "\<And>s. s < sets \<Longrightarrow> row_ok ways (lru_bits pp ! s)"
    and "placement_policy pp = FBR \<Longrightarrow> pp_enable_replace pp"
    and "\<And>s. placement_policy pp = FBR \<Longrightarrow> s < sets \<Longrightarrow>
      chunk_ok ways (num_entries_per_chunk pp) (max_count_size pp) (cache ! s) (entries (chunks pp ! s))"
  using assms by (simp_all add: pp_ok_def)

lemma pp_ok_set:
  assumes ok: "pp_ok ways sets cache pp" and fr: "pp_frame k pp pp'" and k: "k < sets"
    and ws: "length ws = ways" and row: "row_ok ways (lru_bits pp' ! k)"
    and chunk: "placement_policy pp = FBR \<Longrightarrow>
      chunk_ok ways (num_entries_per_chunk pp) (max_count_size pp) ws (entries (chunks pp' ! k))"
  shows "pp_ok ways sets (cache[k := ws]) pp'"
proof -
  note D = pp_okD [OF ok]
  have cfg: "placement_policy pp' = placement_policy pp" "num_entries_per_chunk pp' = num_entries_per_chunk pp"
    "max_count_size pp' = max_count_size pp" "pp_enable_replace pp' = pp_enable_replace pp"
    and len: "length (chunks pp') = sets" "length (lru_bits pp') = sets"
    and other: "\<And>j. j \<noteq> k \<Longrightarrow> chunks pp' ! j = chunks pp ! j" "\<And>j. j \<noteq> k \<Longrightarrow> lru_bits pp' ! j = lru_bits pp ! j"
    using fr D(6,7) by (auto simp: pp_frame_def pp_cfg_def)
  have "length (cache[k := ws] ! s) = ways \<and> row_ok ways (lru_bits pp' ! s)" if "s < sets" for s
    using that D(5) D(8,9) [OF that] ws row other(2) by (cases "s = k") (auto simp: nth_list_update_if)
  moreover have "chunk_ok ways (num_entries_per_chunk pp) (max_count_size pp) (cache[k := ws] ! s) (entries (chunks pp' ! s))"
    if "placement_policy pp = FBR" "s < sets" for s
    using that D(5) D(11) [OF that] chunk other(1) by (cases "s = k") (auto simp: nth_list_update_if)
  ultimately show ?thesis using D len cfg by (simp add: pp_ok_def)
qed

definition needs_tb :: "PagePlacementPolicy \<Rightarrow> bool" where
  "needs_tb pp \<longleftrightarrow> placement_policy pp = FBR \<or> pp_scheme pp = HybridCache"

definition miss_result ::
    "mc_view \<Rightarrow> Set list \<Rightarrow> TagBuffer \<Rightarrow> PagePlacementPolicy \<Rightarrow> nat \<Rightarrow> address \<Rightarrow> nat \<Rightarrow> PagePlacementPolicy \<Rightarrow> bool" where
  "miss_result mv cache tb pp k tag way pp' \<longleftrightarrow>
     way \<le> mv_num_ways mv \<and> pp_cfg pp' = pp_cfg pp \<and>
     (\<forall>w. way_valid w \<longrightarrow> way_tag w = tag \<longrightarrow>
        pp_ok (mv_num_ways mv) (mv_num_sets mv) (cache[k := (cache ! k)[way := w]]) pp') \<and>
     (needs_tb pp \<longrightarrow> way < mv_num_ways mv \<longrightarrow> way_valid (cache ! k ! way) \<longrightarrow>
        canInsert2 tb tag (way_tag (cache ! k ! way)) = Some True)"

lemma pp_miss_LRU_ok:
  assumes ok: "pp_ok (mv_num_ways mv) (mv_num_sets mv) cache pp" and k: "k < mv_num_sets mv"
    and tb: "pp_scheme pp = HybridCache \<Longrightarrow> mv_tag_buffer mv = Some tb \<and> tb_inv tb"
  shows "\<exists>way pp'. pp_miss_LRU mv pp tag k (cache ! k) = Some (way, pp') \<and> way \<le> mv_num_ways mv \<and>
    pp_frame k pp pp' \<and> chunks pp' = chunks pp \<and> row_ok (mv_num_ways mv) (lru_bits pp' ! k) \<and>
    (pp_scheme pp = HybridCache \<longrightarrow> way < mv_num_ways mv \<longrightarrow> way_valid (cache ! k ! way) \<longrightarrow>
       canInsert2 tb tag (way_tag (cache ! k ! way)) = Some True)"
proof -
  define ways row where defs: "ways = mv_num_ways mv" "row = lru_bits pp ! k"
  note D = pp_okD [OF ok, folded defs(1)]
  have row: "row_ok ways row" using D(9) [OF k] by (simp add: defs)
  have upd: "row_ok ways (lru_bits (pp_updateLRU pp' k way) ! k)" if "lru_bits pp' = lru_bits pp" "way < ways" for pp' way
    using touch_row_ok [OF row that(2)] that(1) D(6) k by (simp add: pp_updateLRU_def defs)
  have ch: "chunks (pp_updateLRU pp' k way) = chunks pp'" for pp' way by (simp add: pp_updateLRU_def)
  obtain f b1 w b2 where r: "drand48 (pp_buffer pp) = (f, b1)" "lrand48 b1 = (w, b2)" by fastforce
  define i where "i = first_index (\<lambda>r. r = ways - Suc 0) row"
  have i: "i < ways" using lru_victim(1) [OF row D(1)] by (simp add: i_def)
  have e: "hasEmptyWay (cache ! k) \<Longrightarrow> getEmptyWay (cache ! k) < ways \<and> \<not> way_valid (cache ! k ! getEmptyWay (cache ! k))"
    using D(8) [OF k] getEmptyWay_invalid [of "cache ! k"] by (simp add: hasEmptyWay_def)
  note eqs = pp_miss_LRU_def Let_def defs [symmetric] r i_def [symmetric] upd ch
  show ?thesis
  proof (cases "pp_scheme pp = HybridCache \<and> \<not> hasEmptyWay (cache ! k)")
    case True
    then obtain b where "canInsert2 tb tag (way_tag (cache ! k ! i)) = Some b" "mv_tag_buffer mv = Some tb"
      using canInsert2_total tb by blast
    then show ?thesis using True i row by (cases b) (auto simp: eqs)
  next
    case False
    then show ?thesis using e i row by (auto simp: eqs)
  qed
qed


lemma pp_miss_FBR_ok:
  assumes ok: "chunk_ok (mv_num_ways mv) (num_entries_per_chunk pp) (max_count_size pp) ws (entries (chunks pp ! k))"
    and new: "\<not> tag_in ws tag" and k: "k < length (chunks pp)" and en: "pp_enable_replace pp"
    and pos: "0 < mv_num_ways mv" "2 \<le> max_count_size pp" "max_count_size pp \<le> 10000"
    and tb: "mv_tag_buffer mv = Some tb" "tb_inv tb"
  shows "\<exists>way ca' pp'. pp_miss_FBR mv pp tag type k ws ca = Some (way, ca', pp') \<and>
    fbr_result (mv_num_ways mv) tb pp k ws tag way pp'"
proof -
  have stay: "fbr_result (mv_num_ways mv) tb pp k ws tag (mv_num_ways mv) (pp\<lparr>pp_buffer := b\<rparr>)" for b
    using ok chunk_okD(2) [OF ok] by (simp add: fbr_result_def list_update_beyond)
  have stay0: "fbr_result (mv_num_ways mv) tb pp k ws tag (mv_num_ways mv) pp"
    using stay [of "pp_buffer pp"] by simp
  have upd: "\<exists>way pp'. pp_miss_update mv (pp\<lparr>pp_buffer := b\<rparr>) tag k ws = Some (way, pp') \<and>
      fbr_result (mv_num_ways mv) tb pp k ws tag way pp'" for b
    using pp_miss_update_ok [of mv "pp\<lparr>pp_buffer := b\<rparr>" ws k tag tb] assms
    by (simp add: fbr_result_def pp_frame_def pp_cfg_def)
  obtain s b where s: "\<And>rate tune. sampleOrNot mv pp rate tune = (s rate tune, pp\<lparr>pp_buffer := b\<rparr>)"
    by (rule that [of "\<lambda>rate tune. fst (sampleOrNot mv pp rate tune)" "snd (drand48 (pp_buffer pp))"])
      (simp add: sampleOrNot_def Let_def split: prod.split)
  show ?thesis
    using stay0 stay [of b] upd [of b] upd [of "pp_buffer pp"] en chunk_ok_matches [OF ok]
    by (cases type) (auto simp: pp_miss_FBR_def sample_params_def s)
qed

lemma count_miss_simps [simp]:
  "lru_bits (count_miss pp k) = lru_bits pp" "placement_policy (count_miss pp k) = placement_policy pp"
  "pp_scheme (count_miss pp k) = pp_scheme pp" "max_count_size (count_miss pp k) = max_count_size pp"
  "num_entries_per_chunk (count_miss pp k) = num_entries_per_chunk pp"
  "pp_enable_replace (count_miss pp k) = pp_enable_replace pp"
  "k < length (chunks pp) \<Longrightarrow> entries (chunks (count_miss pp k) ! k) = entries (chunks pp ! k)"
  "pp_frame k pp (count_miss pp k)"
  by (simp_all add: count_miss_def pp_frame_def pp_cfg_def)

lemma miss_resultI:
  assumes ok: "pp_ok (mv_num_ways mv) (mv_num_sets mv) cache pp" and k: "k < mv_num_sets mv"
    and fr: "pp_frame k pp pp'" and le: "way \<le> mv_num_ways mv"
    and row: "row_ok (mv_num_ways mv) (lru_bits pp' ! k)"
    and ch: "placement_policy pp = FBR \<Longrightarrow> fbr_result (mv_num_ways mv) tb' pp'' k (cache ! k) tag way pp'"
    and cfg: "max_count_size pp'' = max_count_size pp" "num_entries_per_chunk pp'' = num_entries_per_chunk pp"
    and can: "needs_tb pp \<Longrightarrow> way < mv_num_ways mv \<Longrightarrow> way_valid (cache ! k ! way) \<Longrightarrow>
        canInsert2 tb tag (way_tag (cache ! k ! way)) = Some True"
  shows "miss_result mv cache tb pp k tag way pp'"
  using pp_ok_set [OF ok fr k _ row] pp_okD(8) [OF ok k] fr le ch can cfg
  by (simp add: miss_result_def pp_frame_def fbr_result_def)

lemma pp_miss_ok:
  assumes ok: "pp_ok (mv_num_ways mv) (mv_num_sets mv) cache pp" and k: "k < mv_num_sets mv"
    and new: "\<not> tag_in (cache ! k) tag"
    and tb: "needs_tb pp \<Longrightarrow> mv_tag_buffer mv = Some tb \<and> tb_inv tb"
  shows "\<exists>way ca' pp'. pp_handleCacheMiss mv pp tag type k (cache ! k) ca = Some (way, ca', pp') \<and>
    miss_result mv cache tb pp k tag way pp'"
proof -
  note D = pp_okD [OF ok]
  define pp1 where "pp1 = count_miss pp k"
  have fr1: "pp_frame k pp pp1" by (simp add: pp1_def)
  have ok1: "pp_ok (mv_num_ways mv) (mv_num_sets mv) cache pp1"
    using pp_ok_set [OF ok fr1 k D(8) [OF k]] D(7) D(9) [OF k] D(11) [OF _ k] k by (simp add: pp1_def)
  show ?thesis
  proof (cases "placement_policy pp")
    case LRU
    obtain way pp' where r: "pp_miss_LRU mv pp1 tag k (cache ! k) = Some (way, pp')" "way \<le> mv_num_ways mv"
      "pp_frame k pp1 pp'" "row_ok (mv_num_ways mv) (lru_bits pp' ! k)"
      "pp_scheme pp = HybridCache \<longrightarrow> way < mv_num_ways mv \<longrightarrow> way_valid (cache ! k ! way) \<longrightarrow>
         canInsert2 tb tag (way_tag (cache ! k ! way)) = Some True"
      using pp_miss_LRU_ok [OF ok1 k, of tb tag] tb by (auto simp: needs_tb_def pp1_def)
    have "miss_result mv cache tb pp k tag way pp'"
      by (rule miss_resultI [OF ok k pp_frame_trans [OF fr1 r(3)] r(2,4), of tb pp])
        (use LRU r(5) in \<open>auto simp: needs_tb_def\<close>)
    then show ?thesis using r(1) LRU by (simp add: pp_handleCacheMiss_def pp1_def [symmetric]) (simp add: pp1_def)
  next
    case FBR
    obtain way ca' pp' where r: "pp_miss_FBR mv pp1 tag type k (cache ! k) ca = Some (way, ca', pp')"
      "fbr_result (mv_num_ways mv) tb pp1 k (cache ! k) tag way pp'"
      using pp_miss_FBR_ok [of mv pp1 "cache ! k" k tag tb type ca] pp_okD [OF ok1] k new tb FBR
      by (auto simp: needs_tb_def pp1_def)
    have "miss_result mv cache tb pp k tag way pp'"
      by (rule miss_resultI [OF ok k pp_frame_trans [OF fr1], where pp'' = pp1 and tb' = tb])
        (use r(2) D(9) [OF k] in \<open>auto simp: fbr_result_def pp1_def\<close>)
    then show ?thesis using r(1) FBR by (simp add: pp_handleCacheMiss_def pp1_def [symmetric]) (simp add: pp1_def)
  qed
qed


lemma getChunkEntry_hit:
  assumes ok: "chunk_ok ways n m ws es" and way: "way < ways" "way_valid (ws ! way)" "way_tag (ws ! way) = tag"
  shows "getChunkEntry ways n tag True es b = Some (way, es, b)"
proof -
  note D = chunk_okD [OF ok]
  have v: "ce_valid (es ! way)" "ce_tag (es ! way) = tag"
    using D(4,5) [OF way(1)] way by auto
  have "first_index (\<lambda>e. ce_valid e \<and> ce_tag e = tag) es = way"
  proof (rule first_index_eqI)
    show "\<not> (ce_valid (es ! j) \<and> ce_tag (es ! j) = tag)" if "j < way" for j
      using D(3) D(6) [of j way] v way(1) that by auto
  qed (use way(1) D(1,3) v in auto)
  then show ?thesis using way(1) D(3) by (simp add: getChunkEntry_def)
qed

lemma pp_hit_FBR_ok:
  assumes ok: "chunk_ok (mv_num_ways mv) (num_entries_per_chunk pp) (max_count_size pp) ws (entries (chunks pp ! k))"
    and way: "way < mv_num_ways mv" "way_valid (ws ! way)" "way_tag (ws ! way) = tag"
    and k: "k < length (chunks pp)" and m: "2 \<le> max_count_size pp"
  shows "\<exists>ca' pp'. pp_hit_FBR mv pp tag k ws ca = Some (ca', pp') \<and> pp_frame k pp pp' \<and> lru_bits pp' = lru_bits pp \<and>
    chunk_ok (mv_num_ways mv) (num_entries_per_chunk pp) (max_count_size pp) ws (entries (chunks pp' ! k))"
proof -
  note D = chunk_okD [OF ok]
  have "ce_valid (entries (chunks pp ! k) ! way)" "way < num_entries_per_chunk pp"
    using D(3) D(4) [OF way(1)] way by auto
  note cnt = count_access_ok [OF ok this(2,1) m]
  obtain s b where "\<And>rate tune. sampleOrNot mv pp rate tune = (s rate tune, pp\<lparr>pp_buffer := b\<rparr>)"
    by (rule that [of "\<lambda>rate tune. fst (sampleOrNot mv pp rate tune)" "snd (drand48 (pp_buffer pp))"])
      (simp add: sampleOrNot_def Let_def split: prod.split)
  then show ?thesis
    using getChunkEntry_hit [OF ok way, of b] chunk_ok_matches [OF ok] ok cnt way(1) k
    by (auto simp: pp_hit_FBR_def sample_params_def)
qed

lemma pp_hit_ok:
  assumes ok: "pp_ok (mv_num_ways mv) (mv_num_sets mv) cache pp" and k: "k < mv_num_sets mv"
    and way: "way < mv_num_ways mv" "way_valid (cache ! k ! way)" "way_tag (cache ! k ! way) = tag"
  shows "\<exists>ca' pp'. pp_handleCacheHit mv pp tag type k (cache ! k) ca way = Some (ca', pp') \<and>
    pp_cfg pp' = pp_cfg pp \<and> pp_ok (mv_num_ways mv) (mv_num_sets mv) cache pp'"
proof -
  note D = pp_okD [OF ok]
  have keep: "pp_ok (mv_num_ways mv) (mv_num_sets mv) cache pp'"
    if "pp_frame k pp pp'" "row_ok (mv_num_ways mv) (lru_bits pp' ! k)"
      "placement_policy pp = FBR \<Longrightarrow> chunk_ok (mv_num_ways mv) (num_entries_per_chunk pp) (max_count_size pp)
         (cache ! k) (entries (chunks pp' ! k))" for pp'
    using pp_ok_set [OF ok that(1) k D(8) [OF k] that(2,3)] by simp
  show ?thesis
  proof (cases "placement_policy pp")
    case LRU
    have "pp_ok (mv_num_ways mv) (mv_num_sets mv) cache (pp_updateLRU pp k way)"
      by (rule keep) (use touch_row_ok [OF D(9) [OF k] way(1)] k D(6) LRU in \<open>auto simp: pp_updateLRU_def pp_frame_def pp_cfg_def\<close>)
    then show ?thesis using LRU way(3) by (simp add: pp_handleCacheHit_def pp_cfg_def pp_updateLRU_def)
  next
    case FBR
    obtain ca' pp' where r: "pp_hit_FBR mv pp tag k (cache ! k) ca = Some (ca', pp')" "pp_frame k pp pp'"
      "lru_bits pp' = lru_bits pp"
      "chunk_ok (mv_num_ways mv) (num_entries_per_chunk pp) (max_count_size pp) (cache ! k) (entries (chunks pp' ! k))"
      using pp_hit_FBR_ok [OF D(11) [OF FBR k] way _ D(3), of ca] D(7) k by auto
    have "pp_ok (mv_num_ways mv) (mv_num_sets mv) cache pp'"
      by (rule keep) (use r D(9) [OF k] in auto)
    then show ?thesis using FBR r way(3) by (simp add: pp_handleCacheHit_def pp_frame_def)
  qed
qed

lemma empty_chunk_ok:
  assumes "length es = n" "\<And>i. i < n \<Longrightarrow> \<not> ce_valid (es ! i)" "ways < n"
    "length ws = ways" "\<And>i. i < ways \<Longrightarrow> \<not> way_valid (ws ! i)"
  shows "chunk_ok ways n m ws es"
  by (rule chunk_okI) (use assms in auto)

lemma flushChunk_ok:
  assumes ok: "pp_ok ways sets cache pp" and k: "k < sets"
    and ws: "length ws = ways" "\<And>i. i < ways \<Longrightarrow> \<not> way_valid (ws ! i)"
  shows "pp_ok ways sets (cache[k := ws]) (flushChunk pp k)"
proof (rule pp_ok_set [OF ok _ k ws(1)])
  note D = pp_okD [OF ok]
  show "pp_frame k pp (flushChunk pp k)" by (simp add: flushChunk_def)
  show "row_ok ways (lru_bits (flushChunk pp k) ! k)" using D(9) [OF k] by (simp add: flushChunk_def)
  show "chunk_ok ways (num_entries_per_chunk pp) (max_count_size pp) ws (entries (chunks (flushChunk pp k) ! k))"
    by (rule empty_chunk_ok) (use D(2,7) k ws in \<open>simp_all add: flushChunk_def\<close>)
qed

lemma pp_initialize_ok:
  assumes "0 < mv_num_ways mv" "mv_num_ways mv < 9" "policy = ''LRU'' \<or> policy = ''FBR'' \<and> enable"
    and cache: "length cache = mv_num_sets mv"
      "\<And>s. s < mv_num_sets mv \<Longrightarrow> length (cache ! s) = mv_num_ways mv"
      "\<And>s i. s < mv_num_sets mv \<Longrightarrow> i < mv_num_ways mv \<Longrightarrow> \<not> way_valid (cache ! s ! i)"
  shows "\<exists>pp. pp_initialize mv scheme rate enable policy seed raw = Some pp \<and> pp_scheme pp = scheme \<and>
    pp_ok (mv_num_ways mv) (mv_num_sets mv) cache pp"
proof -
  obtain p where p: "(if policy = ''LRU'' then Some LRU else if policy = ''FBR'' then Some FBR else None) = Some p"
    "p = FBR \<longrightarrow> enable" using assms(3) by auto
  have "chunk_ok (mv_num_ways mv) 9 m (cache ! s) (entries (init_chunk 9 (raw s)))" if "s < mv_num_sets mv" for s m
    by (rule empty_chunk_ok) (use cache(2,3) [OF that] assms(2) in \<open>simp_all add: init_chunk_def\<close>)
  then show ?thesis using assms(1,2) p cache(1,2)
    by (simp add: pp_initialize_def clearStats_def pp_ok_def)
qed

lemma chunk_ok_cong:
  assumes "chunk_ok ways n m ws es" "length ws' = length ws"
    and "\<And>i. i < ways \<Longrightarrow> way_valid (ws' ! i) = way_valid (ws ! i) \<and> way_tag (ws' ! i) = way_tag (ws ! i)"
  shows "chunk_ok ways n m ws' es"
proof (rule chunk_okI)
  note D = chunk_okD [OF assms(1)]
  show "length es = n" "length ws' = ways" "ways < n" using D(1-3) assms(2) by simp_all
  show "ce_valid (es ! i) = way_valid (ws' ! i)" if "i < ways" for i using D(4) assms(3) that by simp
  show "ce_tag (es ! i) = way_tag (ws' ! i)" if "i < ways" "way_valid (ws' ! i)" for i
    using D(5) assms(3) that by simp
qed (fact chunk_okD [OF assms(1)])+

lemma pp_ok_cong:
  assumes ok: "pp_ok ways sets cache pp" and k: "k < sets" "length ws' = ways"
    and "\<And>i. i < ways \<Longrightarrow> way_valid (ws' ! i) = way_valid (cache ! k ! i) \<and> way_tag (ws' ! i) = way_tag (cache ! k ! i)"
  shows "pp_ok ways sets (cache[k := ws']) pp"
  by (rule pp_ok_set [OF ok pp_frame_refl k pp_okD(9) [OF ok k(1)] chunk_ok_cong [OF pp_okD(11) [OF ok _ k(1)]]])
    (use pp_okD(8) [OF ok k(1)] assms(3,4) in auto)

end
