(* ===== verification/Timing_Event.thy ===== *)
theory Timing_Event
  imports Mem_Types "HOL-Library.Multiset"
begin

text \<open>
  The timing events that the bound phase records and the weave phase simulates
  (\<open>src/src/timing_event.h\<close>), and the per-core event recorder (\<open>src/src/event_recorder.h\<close>).

  Events live in a heap, a list indexed by event number; \<open>None\<close> is the null pointer.  The children
  of an event are a union: no child, one child, or a chain of blocks of three slots, with the newest
  block first.  \<open>ev_acc\<close> is what a memory access event carries beyond the base class: the memory it goes
  to, its address, its size, and whether it is a write.
\<close>

datatype EventState = EV_INVALID | EV_NONE | EV_QUEUED | EV_RUNNING | EV_HELD | EV_DONE

type_synonym ev = nat

datatype children = Child "ev option" | Blocks "ev option list list"

record acc_event =
  acc_mem :: nat
  acc_addr :: address
  acc_data_size :: nat
  acc_write :: bool

record TimingEvent =
  ev_state :: EventState
  ev_cycle :: cyc
  ev_minStartCycle :: cyc
  ev_children :: children
  ev_domain :: int
  ev_numChildren :: nat
  ev_numParents :: nat
  ev_preDelay :: nat
  ev_postDelay :: nat
  ev_acc :: "acc_event option"

definition TIMING_BLOCK_EVENTS :: nat where "TIMING_BLOCK_EVENTS = 3"

definition TimingEventBlock_new :: "ev option list" where
  "TimingEventBlock_new = replicate TIMING_BLOCK_EVENTS None"

definition TimingEvent_new :: "nat \<Rightarrow> nat \<Rightarrow> int \<Rightarrow> acc_event option \<Rightarrow> TimingEvent" where
  "TimingEvent_new preDelay postDelay domain a =
     \<lparr>ev_state = EV_NONE, ev_cycle = 0, ev_minStartCycle = 2 ^ 64 - 1, ev_children = Child None,
      ev_domain = domain, ev_numChildren = 0, ev_numParents = 0,
      ev_preDelay = preDelay, ev_postDelay = postDelay, ev_acc = a\<rparr>"

text \<open>The part of \<open>addChild\<close> that links the child into the parent.\<close>

definition link_child :: "TimingEvent \<Rightarrow> ev \<Rightarrow> TimingEvent" where
  "link_child p c =
     (if ev_numChildren p = 0 then p\<lparr>ev_numChildren := 1, ev_children := Child (Some c)\<rparr>
      else case ev_children p of
        Child first \<Rightarrow>
          p\<lparr>ev_children := Blocks [TimingEventBlock_new[0 := first, 1 := Some c]], ev_numChildren := 2\<rparr>
      | Blocks bs \<Rightarrow>
          (let idx = ev_numChildren p mod TIMING_BLOCK_EVENTS;
               bs' = (if idx = 0 then TimingEventBlock_new # bs else bs)
           in p\<lparr>ev_children := Blocks ((hd bs')[idx := Some c] # tl bs'),
                ev_numChildren := ev_numChildren p + 1\<rparr>))"

text \<open>
  The children in the order \<open>visitChildren\<close> visits them, each block up to its first null slot, with
  the assertion that their number is \<open>numChildren\<close>.
\<close>

definition block_events :: "ev option list \<Rightarrow> ev list" where
  "block_events b = map the (takeWhile (\<lambda>e. e \<noteq> None) b)"

definition visitChildren :: "TimingEvent \<Rightarrow> ev list option" where
  "visitChildren p =
     (if ev_numChildren p = 0 then Some []
      else case ev_children p of
        Child c \<Rightarrow> do { e \<leftarrow> c; Some [e] }
      | Blocks bs \<Rightarrow> do {
          let visited = concat (map block_events bs);
          assert_that (length visited = ev_numChildren p);
          Some visited })"

text \<open>
  \<open>propagateDomain\<close> walks the children that have no domain yet.  Each call gives one more event a
  domain, so that the number of events bounds the depth of the recursion, which is the fuel.
\<close>

primrec propagateDomain :: "nat \<Rightarrow> int \<Rightarrow> ev \<Rightarrow> TimingEvent list \<Rightarrow> TimingEvent list option" where
  "propagateDomain 0 d e evs = None"
| "propagateDomain (Suc fuel) d e evs = do {
     assert_that (ev_domain (evs ! e) = - 1);
     let evs = evs[e := (evs ! e)\<lparr>ev_domain := d\<rparr>];
     cs \<leftarrow> visitChildren (evs ! e);
     foldl (\<lambda>r c. do { evs' \<leftarrow> r; if ev_domain (evs' ! c) = - 1 then propagateDomain fuel d c evs' else Some evs' })
       (Some evs) cs }"

definition addChild :: "TimingEvent list \<Rightarrow> ev \<Rightarrow> ev \<Rightarrow> TimingEvent list option" where
  "addChild evs p c = do {
     assert_that (ev_state (evs ! p) = EV_NONE \<or> ev_state (evs ! p) = EV_QUEUED);
     assert_that (ev_state (evs ! c) = EV_NONE);
     let evs = evs[p := link_child (evs ! p) c];
     evs \<leftarrow> (if ev_domain (evs ! p) \<noteq> - 1 \<and> ev_domain (evs ! c) = - 1
            then propagateDomain (length evs) (ev_domain (evs ! p)) c evs else Some evs);
     Some (evs[c := (evs ! c)\<lparr>ev_numParents := ev_numParents (evs ! c) + 1\<rparr>]) }"

text \<open>The state machine of an event; \<open>None\<close> is a failed assertion.\<close>

definition ev_run :: "TimingEvent \<Rightarrow> TimingEvent option" where
  "ev_run e = do {
     assert_that (ev_state e = EV_NONE \<or> ev_state e = EV_QUEUED);
     Some (e\<lparr>ev_state := EV_RUNNING\<rparr>) }"

definition ev_hold :: "TimingEvent \<Rightarrow> TimingEvent option" where
  "ev_hold e = do { assert_that (ev_state e = EV_RUNNING); Some (e\<lparr>ev_state := EV_HELD\<rparr>) }"

definition ev_release :: "TimingEvent \<Rightarrow> TimingEvent option" where
  "ev_release e = do { assert_that (ev_state e = EV_HELD); Some (e\<lparr>ev_state := EV_RUNNING\<rparr>) }"

definition ev_setRunning :: "TimingEvent \<Rightarrow> TimingEvent option" where
  "ev_setRunning e = do { assert_that (ev_state e = EV_NONE); Some (e\<lparr>ev_state := EV_RUNNING\<rparr>) }"

text \<open>The operations that put an event into the queue of the contention simulator return the cycle.\<close>

definition ev_queue :: "TimingEvent \<Rightarrow> cyc \<Rightarrow> (TimingEvent \<times> cyc) option" where
  "ev_queue e nextCycle = do {
     assert_that (ev_state e = EV_NONE \<and> ev_numParents e = 0);
     Some (e\<lparr>ev_state := EV_QUEUED\<rparr>, nextCycle) }"

definition ev_requeue :: "TimingEvent \<Rightarrow> cyc \<Rightarrow> (TimingEvent \<times> cyc) option" where
  "ev_requeue e nextCycle = do {
     assert_that (ev_numParents e = 0);
     assert_that (ev_state e = EV_RUNNING \<or> ev_state e = EV_HELD);
     Some (e\<lparr>ev_state := EV_QUEUED\<rparr>, nextCycle) }"

definition parentDone :: "TimingEvent \<Rightarrow> cyc \<Rightarrow> (TimingEvent \<times> cyc option) option" where
  "parentDone e startCycle = do {
     let e = e\<lparr>ev_cycle := max (ev_cycle e) startCycle\<rparr>;
     assert_that (ev_numParents e \<noteq> 0);
     let e = e\<lparr>ev_numParents := ev_numParents e - 1\<rparr>;
     if ev_numParents e = 0
     then do {
       assert_that (ev_state e = EV_NONE);
       Some (e\<lparr>ev_state := EV_QUEUED\<rparr>, Some (ev_cycle e + ev_preDelay e)) }
     else Some (e, None) }"

section \<open>The event recorder\<close>

record TimingRecord =
  tr_addr :: address
  tr_reqCycle :: cyc
  tr_respCycle :: cyc
  tr_type :: AccessType
  tr_startEvent :: "ev option"
  tr_endEvent :: "ev option"

definition tr_isValid :: "TimingRecord \<Rightarrow> bool" where
  "tr_isValid r \<longleftrightarrow> tr_startEvent r \<noteq> None"

definition tr_clear :: "TimingRecord \<Rightarrow> TimingRecord" where
  "tr_clear r = r\<lparr>tr_startEvent := None\<rparr>"

record EventRecorder =
  er_tr :: TimingRecord
  er_srcId :: nat
  lastGapCycles :: cyc
  lastStartSlack :: cyc

definition EventRecorder_new :: "EventRecorder \<Rightarrow> EventRecorder" where
  "EventRecorder_new raw = raw\<lparr>er_tr := tr_clear (er_tr raw)\<rparr>"

definition hasRecord :: "EventRecorder \<Rightarrow> bool" where
  "hasRecord er \<longleftrightarrow> tr_isValid (er_tr er)"

definition pushRecord :: "EventRecorder \<Rightarrow> TimingRecord \<Rightarrow> EventRecorder option" where
  "pushRecord er rec = do {
     assert_that (\<not> tr_isValid (er_tr er));
     assert_that (tr_isValid rec);
     Some (er\<lparr>er_tr := rec\<rparr>) }"

definition popRecord :: "EventRecorder \<Rightarrow> TimingRecord \<times> EventRecorder" where
  "popRecord er = (er_tr er, er\<lparr>er_tr := tr_clear (er_tr er)\<rparr>)"

definition getSlack :: "EventRecorder \<Rightarrow> cyc \<Rightarrow> cyc" where
  "getSlack er origStartCycle = origStartCycle + lastStartSlack er"

definition getGapCycles :: "EventRecorder \<Rightarrow> cyc" where
  "getGapCycles er = lastGapCycles er"

definition setGapCycles :: "EventRecorder \<Rightarrow> cyc \<Rightarrow> EventRecorder" where
  "setGapCycles er gapCycles = er\<lparr>lastGapCycles := gapCycles\<rparr>"

definition setStartSlack :: "EventRecorder \<Rightarrow> cyc \<Rightarrow> EventRecorder" where
  "setStartSlack er startSlack =
     (if lastStartSlack er \<noteq> startSlack then er\<lparr>lastStartSlack := startSlack\<rparr> else er)"

section \<open>The children of an event\<close>

text \<open>
  The shape \<open>addChild\<close> keeps: every block but the newest is full, and the newest has as many
  entries as the number of children says.
\<close>

definition blk :: "ev list \<Rightarrow> ev option list" where
  "blk xs = map Some xs @ replicate (TIMING_BLOCK_EVENTS - length xs) None"

definition children_ok :: "TimingEvent \<Rightarrow> bool" where
  "children_ok p \<longleftrightarrow>
     (case ev_children p of
        Child c \<Rightarrow> ev_numChildren p = (if c = None then 0 else 1)
      | Blocks bs \<Rightarrow>
          (\<exists>xs yss. bs = map blk (xs # yss) \<and> 0 < length xs \<and> length xs \<le> TIMING_BLOCK_EVENTS \<and>
             (\<forall>ys \<in> set yss. length ys = TIMING_BLOCK_EVENTS) \<and>
             ev_numChildren p = length (concat (xs # yss)) \<and> 1 < ev_numChildren p))"

lemma block_events_blk [simp]: "block_events (blk xs) = xs"
proof -
  have "takeWhile (\<lambda>e. e \<noteq> None) (map Some xs @ replicate n None) = map Some xs" for n
    by (induction xs) (simp_all add: takeWhile_replicate)
  then show ?thesis by (simp add: block_events_def blk_def comp_def)
qed

lemma blk_empty: "TimingEventBlock_new = blk []"
  by (simp add: TimingEventBlock_new_def blk_def)

lemma blk_append: "length xs < TIMING_BLOCK_EVENTS \<Longrightarrow> (blk xs)[length xs := Some c] = blk (xs @ [c])"
proof -
  assume "length xs < TIMING_BLOCK_EVENTS"
  then have "TIMING_BLOCK_EVENTS - length xs = Suc (TIMING_BLOCK_EVENTS - Suc (length xs))" by simp
  then show ?thesis by (simp add: blk_def list_update_append)
qed

lemma length_concat_full: "\<forall>ys \<in> set yss. length ys = n \<Longrightarrow> length (concat yss) = n * length yss"
  by (induction yss) auto

lemma visit_blocks: "map block_events (map blk yss) = yss"
  by (induction yss) auto

lemma children_okE:
  assumes "children_ok p"
  obtains (none) "ev_numChildren p = 0" "ev_children p = Child None" "visitChildren p = Some []"
  | (one) c where "ev_numChildren p = 1" "ev_children p = Child (Some c)" "visitChildren p = Some [c]"
  | (blocks) xs yss where "ev_children p = Blocks (map blk (xs # yss))" "0 < length xs" "length xs \<le> TIMING_BLOCK_EVENTS"
      "\<forall>ys \<in> set yss. length ys = TIMING_BLOCK_EVENTS" "ev_numChildren p = length (concat (xs # yss))"
      "1 < ev_numChildren p" "visitChildren p = Some (concat (xs # yss))"
proof (cases "ev_children p")
  case (Child c)
  then show thesis using assms none one by (cases c) (auto simp: children_ok_def visitChildren_def)
next
  case (Blocks bs)
  then obtain xs yss where x: "bs = map blk (xs # yss)" "0 < length xs" "length xs \<le> TIMING_BLOCK_EVENTS"
    "\<forall>ys \<in> set yss. length ys = TIMING_BLOCK_EVENTS" "ev_numChildren p = length (concat (xs # yss))" "1 < ev_numChildren p"
    using assms by (auto simp: children_ok_def)
  then have "visitChildren p = Some (concat (xs # yss))"
    using Blocks visit_blocks [of "xs # yss"] by (simp add: visitChildren_def)
  then show thesis using blocks x Blocks by blast
qed

lemma children_okI:
  assumes "ev_children p = Blocks (map blk (xs # yss))" "0 < length xs" "length xs \<le> TIMING_BLOCK_EVENTS"
    "\<forall>ys \<in> set yss. length ys = TIMING_BLOCK_EVENTS" "ev_numChildren p = length (concat (xs # yss))" "1 < ev_numChildren p"
  shows "children_ok p"
  unfolding children_ok_def assms(1) children.case using assms(2-) by blast

lemma link_child_ok:
  assumes "children_ok p"
  shows "children_ok (link_child p c) \<and>
    (\<exists>cs cs'. visitChildren p = Some cs \<and> visitChildren (link_child p c) = Some cs' \<and> mset cs' = add_mset c (mset cs))"
  using assms
proof (cases rule: children_okE)
  case none
  then show ?thesis by (simp add: link_child_def children_ok_def visitChildren_def)
next
  case (one d)
  have "TimingEventBlock_new[0 := Some d, 1 := Some c] = blk [d, c]"
    by (simp add: TimingEventBlock_new_def blk_def TIMING_BLOCK_EVENTS_def numeral_3_eq_3)
  then show ?thesis using one
    by (auto simp: link_child_def children_ok_def visitChildren_def TIMING_BLOCK_EVENTS_def
        intro: exI [of _ "[d, c]"])
next
  case (blocks xs yss)
  have num: "ev_numChildren p = length xs + TIMING_BLOCK_EVENTS * length yss"
    using blocks(4,5) length_concat_full [of yss] by simp
  define zss where "zss = (if length xs = TIMING_BLOCK_EVENTS then [c] # xs # yss else (xs @ [c]) # yss)"
  have idx: "ev_numChildren p mod TIMING_BLOCK_EVENTS = (if length xs = TIMING_BLOCK_EVENTS then 0 else length xs)"
    using num blocks(3) by (simp add: TIMING_BLOCK_EVENTS_def)
  have link: "link_child p c = p\<lparr>ev_children := Blocks (map blk zss), ev_numChildren := ev_numChildren p + 1\<rparr>"
    using blocks(1-3,6) idx blk_append [of xs c] blk_append [of "[]" c]
    by (auto simp: link_child_def zss_def blk_empty TIMING_BLOCK_EVENTS_def)
  have len: "length (concat zss) = ev_numChildren p + 1"
    using blocks(5) by (simp add: zss_def)
  have "children_ok (link_child p c)"
  proof (cases "length xs = TIMING_BLOCK_EVENTS")
    case True
    then show ?thesis
      by (intro children_okI [of _ "[c]" "xs # yss"]) (use blocks(4-6) in \<open>auto simp: link zss_def TIMING_BLOCK_EVENTS_def\<close>)
  next
    case False
    then show ?thesis
      by (intro children_okI [of _ "xs @ [c]" yss]) (use blocks(2-6) in \<open>auto simp: link zss_def\<close>)
  qed
  moreover have "visitChildren (link_child p c) = Some (concat zss)"
    using len visit_blocks [of zss] unfolding link by (simp add: visitChildren_def)
  moreover have "mset (concat zss) = add_mset c (mset (concat (xs # yss)))"
    by (simp add: zss_def)
  ultimately show ?thesis using blocks(7) by blast
qed

end
