(* ===== verification/Dram.thy ===== *)
theory Dram
  imports Numerics Timing_Event
begin

text \<open>
  The memories behind the memory controller, as the bound phase sees them: \<open>SimpleMemory\<close> and
  \<open>MD1Memory\<close> (\<open>src/src/mem_ctrls.cpp\<close>), \<open>DDRMemory::access\<close> (\<open>src/src/ddr_mem.cpp\<close>) and
  \<open>DRAMSimMemory::access\<close> (\<open>src/src/dramsim_mem_ctrl.cpp\<close>).

  An access answers with the response cycle and the coherence state granted to the requester, and
  records a timing event in the recorder of the requesting core.  The first access of a request
  opens the timing record (type 0); later ones are appended to it, on the critical path (type 1) or
  beside it (type 2).  The locale \<open>dram_system\<close> states this protocol, which is all that the memory
  controller relies on; it is interpreted on the memories of this theory.
\<close>

section \<open>Simple and M/D/1 memories\<close>

record SimpleMemory =
  sm_latency :: nat

definition SimpleMemory_access :: "SimpleMemory \<Rightarrow> MemReq \<Rightarrow> (cyc \<times> MESIState) option" where
  "SimpleMemory_access sm req = do {
     let respCycle = cycle req + sm_latency sm;
     assert_that (cycle req < respCycle);
     Some (respCycle, mem_grant req) }"

record MD1Memory =
  lastPhase :: nat
  maxRequestsPerCycle :: double
  smoothedPhaseAccesses :: double
  zeroLoadLatency :: nat
  curLatency :: nat
  md_profReads :: nat
  md_profWrites :: nat
  md_profTotalRdLat :: nat
  md_profTotalWrLat :: nat
  profLoad :: nat
  profUpdates :: nat
  profClampedLoads :: nat
  curPhaseAccesses :: nat

definition MD1Memory_new :: "nat \<Rightarrow> nat \<Rightarrow> nat \<Rightarrow> nat \<Rightarrow> MD1Memory option" where
  "MD1Memory_new requestSize megacyclesPerSecond megabytesPerSecond latency = do {
     let bytesPerCycle = ddiv (dnat megabytesPerSecond) (dnat megacyclesPerSecond);
     let perCycle = ddiv bytesPerCycle (dnat requestSize);
     assert_that (0 < perCycle);
     Some \<lparr>lastPhase = 0, maxRequestsPerCycle = perCycle, smoothedPhaseAccesses = 0,
           zeroLoadLatency = latency, curLatency = latency,
           md_profReads = 0, md_profWrites = 0, md_profTotalRdLat = 0, md_profTotalWrLat = 0,
           profLoad = 0, profUpdates = 0, profClampedLoads = 0, curPhaseAccesses = 0\<rparr> }"

text \<open>The load after clamping, and the latency the Pollaczek-Khinchine formula gives for it.\<close>

definition md1_load :: "double \<Rightarrow> double" where
  "md1_load l = (if rnd (95 / 100) < l then rnd (95 / 100) else l)"

definition md1_latency :: "nat \<Rightarrow> double \<Rightarrow> nat" where
  "md1_latency latency load =
     nat (dtrunc (dmul (dadd 1 (ddiv (dmul (1 / 2) load) (dsub 1 load))) (dnat latency)))"

definition updateLatency :: "nat \<Rightarrow> nat \<Rightarrow> MD1Memory \<Rightarrow> MD1Memory" where
  "updateLatency numPhases phaseLength md =
     (let phaseCycles = ((numPhases - lastPhase md) * phaseLength) mod 2 ^ 32
      in if phaseCycles < 10000 then md
         else
           let smoothed = dadd (dmul (dnat (curPhaseAccesses md)) (1 / 2)) (dmul (smoothedPhaseAccesses md) (1 / 2));
               requestsPerCycle = ddiv smoothed (dnat phaseCycles);
               raw = ddiv requestsPerCycle (maxRequestsPerCycle md);
               load = md1_load raw
           in md\<lparr>smoothedPhaseAccesses := smoothed,
                 profClampedLoads := profClampedLoads md + (if rnd (95 / 100) < raw then 1 else 0),
                 curLatency := md1_latency (zeroLoadLatency md) load,
                 profLoad := profLoad md + nat (dtrunc (dmul load 100)),
                 profUpdates := profUpdates md + 1,
                 curPhaseAccesses := 0,
                 lastPhase := numPhases\<rparr>)"

definition MD1Memory_access ::
    "nat \<Rightarrow> nat \<Rightarrow> MD1Memory \<Rightarrow> MemReq \<Rightarrow> cyc \<times> MESIState \<times> MD1Memory" where
  "MD1Memory_access numPhases phaseLength md req =
     (let md = (if lastPhase md < numPhases then updateLatency numPhases phaseLength md else md);
          md' =
            (case req_type req of
               PUTX \<Rightarrow> md\<lparr>md_profWrites := md_profWrites md + 1,
                          md_profTotalWrLat := md_profTotalWrLat md + curLatency md,
                          curPhaseAccesses := curPhaseAccesses md + 1\<rparr>
             | PUTS \<Rightarrow> md
             | _ \<Rightarrow> md\<lparr>md_profReads := md_profReads md + 1,
                       md_profTotalRdLat := md_profTotalRdLat md + curLatency md,
                       curPhaseAccesses := curPhaseAccesses md + 1\<rparr>)
      in (cycle req + (if req_type req = PUTS then 0 else curLatency md), mem_grant req, md'))"

section \<open>Recorded accesses\<close>

text \<open>
  What the bound phase shares between all memories: the heap of timing events and the recorders of
  the cores, \<open>None\<close> where a core has none.
\<close>

record bound =
  events :: "TimingEvent list"
  eventRecorders :: "nat \<Rightarrow> EventRecorder option"

definition alloc_event :: "TimingEvent \<Rightarrow> TimingEvent list \<Rightarrow> ev \<times> TimingEvent list" where
  "alloc_event e evs = (length evs, evs @ [e])"

definition setMinStartCycle :: "TimingEvent list \<Rightarrow> ev \<Rightarrow> cyc \<Rightarrow> TimingEvent list" where
  "setMinStartCycle evs e c = evs[e := (evs ! e)\<lparr>ev_minStartCycle := c\<rparr>]"

text \<open>
  The chain of further events with which DRAMSim models an access of more than one line: each is a
  child of the one before.  A DDR access is a single event, for which the list is empty.
\<close>

fun chain_events :: "TimingEvent list \<Rightarrow> TimingEvent list \<Rightarrow> ev \<Rightarrow> (TimingEvent list \<times> ev) option" where
  "chain_events [] evs prev = Some (evs, prev)"
| "chain_events (e # es) evs prev = do {
     let (n, evs) = alloc_event e evs;
     evs \<leftarrow> addChild evs prev n;
     chain_events es evs n }"

definition record_access ::
    "nat \<Rightarrow> MemReq \<Rightarrow> address \<Rightarrow> cyc \<Rightarrow> TimingEvent \<Rightarrow> TimingEvent list \<Rightarrow> bound \<Rightarrow> EventRecorder \<Rightarrow> bound option" where
  "record_access type req addr respCycle memEv rest b er = do {
     let (e, evs) = alloc_event memEv (events b);
     if type = 0
     then do {
       let evs = setMinStartCycle evs e (cycle req);
       (evs, lst) \<leftarrow> chain_events rest evs e;
       assert_that (\<not> hasRecord er);
       er \<leftarrow> pushRecord er
         \<lparr>tr_addr = addr, tr_reqCycle = cycle req, tr_respCycle = respCycle, tr_type = req_type req,
          tr_startEvent = Some e, tr_endEvent = Some lst\<rparr>;
       Some (b\<lparr>events := evs, eventRecorders := (eventRecorders b)(srcId req := Some er)\<rparr>) }
     else if type = 1 \<or> type = 2
     then do {
       let (tr, er) = popRecord er;
       let evs = setMinStartCycle evs e (tr_reqCycle tr);
       parent \<leftarrow> tr_endEvent tr;
       evs \<leftarrow> addChild evs parent e;
       (evs, lst) \<leftarrow> chain_events rest evs e;
       er \<leftarrow> pushRecord er
         (if type = 1 then tr\<lparr>tr_type := req_type req, tr_endEvent := Some lst\<rparr> else tr\<lparr>tr_type := req_type req\<rparr>);
       Some (b\<lparr>events := evs, eventRecorders := (eventRecorders b)(srcId req := Some er)\<rparr>) }
     else Some (b\<lparr>events := evs\<rparr>) }"

section \<open>DDR and DRAMSim memories\<close>

text \<open>The part of \<open>DDRMemory\<close> that the bound phase reads; \<open>ddr_id\<close> stands for the object's address.\<close>

record DDRMemory =
  ddr_id :: nat
  minRdLatency :: nat
  minWrLatency :: nat
  ddr_preDelay :: nat
  postDelayRd :: nat
  postDelayWr :: nat
  ddr_domain :: nat
  sysFreqKHz :: nat
  memFreqKHz :: nat

definition sysToMemCycle :: "('a) DDRMemory_scheme \<Rightarrow> cyc \<Rightarrow> cyc" where
  "sysToMemCycle ddr sysCycle = sysCycle * memFreqKHz ddr div sysFreqKHz ddr + 1"

definition memToSysCycle :: "('a) DDRMemory_scheme \<Rightarrow> cyc \<Rightarrow> cyc" where
  "memToSysCycle ddr memCycle = (memCycle + 1) * sysFreqKHz ddr div memFreqKHz ddr"

definition matchingMemToSysCycle :: "('a) DDRMemory_scheme \<Rightarrow> cyc \<Rightarrow> cyc" where
  "matchingMemToSysCycle ddr memCycle = (2 * memCycle - 1) * sysFreqKHz ddr div memFreqKHz ddr div 2"

definition DDRMemoryAccEvent_new :: "('a) DDRMemory_scheme \<Rightarrow> bool \<Rightarrow> address \<Rightarrow> nat \<Rightarrow> TimingEvent" where
  "DDRMemoryAccEvent_new ddr isWrite addr data_size =
     TimingEvent_new (ddr_preDelay ddr) (if isWrite then postDelayWr ddr else postDelayRd ddr) (int (ddr_domain ddr))
       (Some \<lparr>acc_mem = ddr_id ddr, acc_addr = addr, acc_data_size = data_size, acc_write = isWrite\<rparr>)"

definition ddr_respCycle :: "('a) DDRMemory_scheme \<Rightarrow> MemReq \<Rightarrow> nat \<Rightarrow> cyc" where
  "ddr_respCycle ddr req data_size =
     cycle req + (if req_type req = PUTX then minWrLatency ddr else minRdLatency ddr)
       + memToSysCycle ddr ((data_size + 2 ^ 32 - 1) mod 2 ^ 32)"

definition DDRMemory_access ::
    "('a) DDRMemory_scheme \<Rightarrow> MemReq \<Rightarrow> nat \<Rightarrow> nat \<Rightarrow> bound \<Rightarrow> (cyc \<times> MESIState \<times> bound) option" where
  "DDRMemory_access ddr req type data_size b = do {
     assert_that (data_size mod 2 = 0);
     if req_type req = PUTS then Some (cycle req, mem_grant req, b)
     else do {
       let respCycle = ddr_respCycle ddr req data_size;
       case eventRecorders b (srcId req) of
         None \<Rightarrow> Some (respCycle, mem_grant req, b)
       | Some er \<Rightarrow> do {
           b \<leftarrow> record_access type req (lineAddr req) respCycle
                 (DDRMemoryAccEvent_new ddr (req_type req = PUTX) (lineAddr req) data_size) [] b er;
           Some (respCycle, mem_grant req, b) } } }"

record DRAMSimMemory =
  ds_id :: nat
  ds_minLatency :: nat
  ds_domain :: nat
  ds_lineBits :: nat

definition DRAMSimAccEvent_new :: "DRAMSimMemory \<Rightarrow> bool \<Rightarrow> address \<Rightarrow> TimingEvent" where
  "DRAMSimAccEvent_new ds isWrite addr =
     TimingEvent_new 0 0 (int (ds_domain ds))
       (Some \<lparr>acc_mem = ds_id ds, acc_addr = addr, acc_data_size = 4, acc_write = isWrite\<rparr>)"

definition DRAMSimMemory_access ::
    "DRAMSimMemory \<Rightarrow> MemReq \<Rightarrow> nat \<Rightarrow> nat \<Rightarrow> bound \<Rightarrow> (cyc \<times> MESIState \<times> bound) option" where
  "DRAMSimMemory_access ds req type data_size b = do {
     let respCycle = cycle req + ds_minLatency ds + data_size;
     assert_that (cycle req < respCycle);
     case eventRecorders b (srcId req) of
       None \<Rightarrow> Some (respCycle, mem_grant req, b)
     | Some er \<Rightarrow>
         if req_type req = PUTS then Some (respCycle, mem_grant req, b)
         else do {
           let addr = lineAddr req * 2 ^ ds_lineBits ds;
           let ev = (\<lambda>i. DRAMSimAccEvent_new ds (req_type req = PUTX) (addr + 64 * i));
           b \<leftarrow> record_access type req addr respCycle (ev 0) (map ev [1..<(data_size + 3) div 4]) b er;
           Some (respCycle, mem_grant req, b) } }"

section \<open>Memory objects\<close>

text \<open>
  \<open>MemObject::access(req, type, size)\<close>: only the DDR and DRAMSim memories override it; the version
  of the base class, which the other two inherit, asserts \<open>false\<close>.
\<close>

datatype MemObject = SimpleMem SimpleMemory | MD1Mem MD1Memory | DDRMem DDRMemory | DRAMSimMem DRAMSimMemory

definition MemObject_access ::
    "MemObject \<Rightarrow> MemReq \<Rightarrow> nat \<Rightarrow> nat \<Rightarrow> bound \<Rightarrow> (cyc \<times> MESIState \<times> bound) option" where
  "MemObject_access m req type data_size b =
     (case m of
        SimpleMem _ \<Rightarrow> None
      | MD1Mem _ \<Rightarrow> None
      | DDRMem ddr \<Rightarrow> DDRMemory_access ddr req type data_size b
      | DRAMSimMem ds \<Rightarrow> DRAMSimMemory_access ds req type data_size b)"

text \<open>The memories of one controller: the external DRAM and the in-package channels.\<close>

datatype target = ExtDram | McDram nat

record mem_system =
  ext_dram :: MemObject
  mcdram :: "MemObject list"

definition mem_access ::
    "mem_system \<Rightarrow> target \<Rightarrow> MemReq \<Rightarrow> nat \<Rightarrow> nat \<Rightarrow> bound \<Rightarrow> (cyc \<times> MESIState \<times> bound) option" where
  "mem_access ms t req type data_size b =
     (case t of
        ExtDram \<Rightarrow> MemObject_access (ext_dram ms) req type data_size b
      | McDram i \<Rightarrow> if i < length (mcdram ms) then MemObject_access (mcdram ms ! i) req type data_size b else None)"


section \<open>The recorded event graph\<close>

text \<open>
  Events are linked consistently, and the graph of recorded events has no cycle.
\<close>

definition links_ok :: "nat \<Rightarrow> TimingEvent \<Rightarrow> bool" where
  "links_ok n e \<longleftrightarrow> children_ok e \<and> (\<exists>cs. visitChildren e = Some cs \<and> (\<forall>c \<in> set cs. c < n))"

definition children_of :: "TimingEvent \<Rightarrow> ev set" where
  "children_of e = (case visitChildren e of None \<Rightarrow> {} | Some cs \<Rightarrow> set cs)"

definition edges :: "TimingEvent list \<Rightarrow> (ev \<times> ev) set" where
  "edges evs = {(p, c). p < length evs \<and> c \<in> children_of (evs ! p)}"

definition graph_ok :: "TimingEvent list \<Rightarrow> bool" where
  "graph_ok evs \<longleftrightarrow> (\<forall>p < length evs. links_ok (length evs) (evs ! p)) \<and> acyclic (edges evs)"

definition new_event :: "TimingEvent \<Rightarrow> bool" where
  "new_event e \<longleftrightarrow> ev_state e = EV_NONE \<and> ev_children e = Child None \<and> ev_numChildren e = 0"

definition fresh_event :: "TimingEvent \<Rightarrow> bool" where
  "fresh_event e \<longleftrightarrow> new_event e \<and> ev_domain e \<noteq> - 1"

lemma fresh_eventI [simp]:
  "fresh_event (DDRMemoryAccEvent_new ddr isWrite addr sz)" "fresh_event (DRAMSimAccEvent_new ds isWrite addr)"
  by (simp_all add: fresh_event_def new_event_def TimingEvent_new_def DDRMemoryAccEvent_new_def DRAMSimAccEvent_new_def)

lemma visit_cong:
  assumes "ev_children e' = ev_children e" "ev_numChildren e' = ev_numChildren e"
  shows "links_ok n e' = links_ok n e" "children_of e' = children_of e"
proof -
  have "visitChildren e' = visitChildren e" "children_ok e' = children_ok e"
    using assms by (cases "ev_children e"; simp add: visitChildren_def children_ok_def)+
  then show "links_ok n e' = links_ok n e" "children_of e' = children_of e" by (simp_all add: links_ok_def children_of_def)
qed

lemma new_event_links: "new_event e \<Longrightarrow> links_ok n e" "new_event e \<Longrightarrow> children_of e = {}"
  by (simp_all add: links_ok_def new_event_def children_ok_def visitChildren_def children_of_def)

lemma links_ok_mono: "links_ok n e \<Longrightarrow> n \<le> m \<Longrightarrow> links_ok m e"
  by (fastforce simp: links_ok_def)

lemma link_child_links:
  assumes "links_ok n e" "c < n"
  shows "links_ok n (link_child e c)" "children_of (link_child e c) = insert c (children_of e)"
proof -
  obtain cs cs' where cs: "visitChildren e = Some cs" "\<forall>c \<in> set cs. c < n"
    "visitChildren (link_child e c) = Some cs'" "mset cs' = add_mset c (mset cs)" "children_ok (link_child e c)"
    using link_child_ok [of e c] assms(1) by (auto simp: links_ok_def)
  have "set cs' = insert c (set cs)" using cs(4) by (metis set_mset_add_mset_insert set_mset_mset)
  then show "links_ok n (link_child e c)" "children_of (link_child e c) = insert c (children_of e)"
    using cs assms(2) by (simp_all add: links_ok_def children_of_def)
qed

lemma edges_bound: "graph_ok evs \<Longrightarrow> (p, c) \<in> edges evs \<Longrightarrow> p < length evs \<and> c < length evs"
  by (fastforce simp: graph_ok_def edges_def links_ok_def children_of_def)

lemma graph_ok_snoc:
  assumes "graph_ok evs" "new_event e"
  shows "graph_ok (evs @ [e])" "edges (evs @ [e]) = edges evs"
proof -
  show "edges (evs @ [e]) = edges evs"
    using new_event_links(2) [OF assms(2)] by (auto simp: edges_def nth_append less_Suc_eq)
  then show "graph_ok (evs @ [e])"
    using assms links_ok_mono [of "length evs" _ "Suc (length evs)"] new_event_links(1) [of e]
    by (simp add: graph_ok_def nth_append less_Suc_eq)
qed

lemma graph_ok_update:
  assumes "graph_ok evs" "ev_children e' = ev_children (evs ! i)" "ev_numChildren e' = ev_numChildren (evs ! i)"
  shows "graph_ok (evs[i := e'])" "edges (evs[i := e']) = edges evs"
proof -
  note same = visit_cong [OF assms(2,3)]
  show e: "edges (evs[i := e']) = edges evs" using same(2) by (auto simp: edges_def nth_list_update_if split: if_splits)
  show "graph_ok (evs[i := e'])" using assms(1) same(1) e by (auto simp: graph_ok_def nth_list_update_if)
qed

lemma link_child_keeps [simp]:
  "ev_state (link_child e c) = ev_state e" "ev_domain (link_child e c) = ev_domain e"
  by (cases "ev_children e"; simp add: link_child_def Let_def)+

text \<open>
  A link that closes no cycle.  No domain is propagated when the child has one or the parent has none.
\<close>

lemma addChild_ok:
  assumes ok: "graph_ok evs" and p: "p < length evs" "c < length evs" "p \<noteq> c" "(c, p) \<notin> (edges evs)\<^sup>*"
    and st: "ev_state (evs ! p) = EV_NONE" "ev_state (evs ! c) = EV_NONE"
    and dm: "ev_domain (evs ! c) \<noteq> - 1 \<or> ev_domain (evs ! p) = - 1"
  shows "\<exists>evs'. addChild evs p c = Some evs' \<and> graph_ok evs' \<and> length evs' = length evs \<and> edges evs' = insert (p, c) (edges evs) \<and>
    (\<forall>i < length evs. ev_state (evs' ! i) = ev_state (evs ! i) \<and> ev_domain (evs' ! i) = ev_domain (evs ! i))"
proof -
  define evs1 where "evs1 = evs[p := link_child (evs ! p) c]"
  define e2 where "e2 = (evs1 ! c)\<lparr>ev_numParents := ev_numParents (evs1 ! c) + 1\<rparr>"
  have lk: "links_ok (length evs) (evs ! p)" using ok p(1) by (simp add: graph_ok_def)
  have e1: "edges evs1 = insert (p, c) (edges evs)"
    using p(1) link_child_links(2) [OF lk p(2)] by (auto simp: edges_def evs1_def nth_list_update_if split: if_splits)
  have ok1: "graph_ok evs1"
    using ok link_child_links(1) [OF lk p(2)] e1 p(4) by (auto simp: graph_ok_def evs1_def nth_list_update_if acyclic_insert)
  have "addChild evs p c = Some (evs1[c := e2])"
    using st dm p by (auto simp: addChild_def evs1_def [symmetric]) (simp_all add: evs1_def e2_def nth_list_update_if)
  moreover have "ev_state (evs1[c := e2] ! i) = ev_state (evs ! i) \<and> ev_domain (evs1[c := e2] ! i) = ev_domain (evs ! i)"
    if "i < length evs" for i
    using that p by (simp add: nth_list_update_if evs1_def e2_def)
  ultimately show ?thesis using graph_ok_update [OF ok1, of e2 c] e1 by (simp add: e2_def evs1_def)
qed

lemma leaf_edge: "graph_ok evs \<Longrightarrow> p < length evs \<Longrightarrow> (length evs, p) \<notin> (edges evs)\<^sup>*"
  using edges_bound by (fastforce elim: converse_rtranclE)

text \<open>A new event as the child of an old one.\<close>

lemma add_new_child:
  assumes "graph_ok evs" "p < length evs" "ev_state (evs ! p) = EV_NONE" "fresh_event e"
  shows "\<exists>evs'. addChild (evs @ [e]) p (length evs) = Some evs' \<and> graph_ok evs' \<and> length evs' = Suc (length evs) \<and>
    (\<forall>i < Suc (length evs). ev_state (evs' ! i) = ev_state ((evs @ [e]) ! i))"
proof -
  have "new_event e" "ev_domain e \<noteq> - 1" using assms(4) by (simp_all add: fresh_event_def)
  then show ?thesis
    using addChild_ok [OF graph_ok_snoc(1) [OF assms(1)], of e p "length evs"] graph_ok_snoc(2) [OF assms(1), of e]
      leaf_edge [OF assms(1,2)] assms(2,3) by (auto simp: nth_append new_event_def)
qed

lemma chain_events_ok:
  assumes "graph_ok evs" "prev < length evs" "ev_state (evs ! prev) = EV_NONE" "\<forall>e \<in> set es. fresh_event e"
  shows "\<exists>evs' lst. chain_events es evs prev = Some (evs', lst) \<and> graph_ok evs' \<and>
    lst < length evs' \<and> ev_state (evs' ! lst) = EV_NONE \<and> length evs \<le> length evs' \<and>
    (\<forall>i < length evs. ev_state (evs' ! i) = ev_state (evs ! i))"
  using assms
proof (induction es arbitrary: evs prev)
  case (Cons e es)
  have f: "fresh_event e" using Cons.prems by simp
  obtain evs1 where 1: "addChild (evs @ [e]) prev (length evs) = Some evs1" "graph_ok evs1"
    "length evs1 = Suc (length evs)"
    "\<forall>i < Suc (length evs). ev_state (evs1 ! i) = ev_state ((evs @ [e]) ! i)"
    using add_new_child [OF Cons.prems(1-3) f] by blast
  have "ev_state (evs1 ! length evs) = EV_NONE" using 1(4) f by (simp add: fresh_event_def new_event_def)
  then obtain evs' lst where 2: "chain_events es evs1 (length evs) = Some (evs', lst)" "graph_ok evs'"
    "lst < length evs'" "ev_state (evs' ! lst) = EV_NONE" "length evs1 \<le> length evs'"
    "\<forall>i < length evs1. ev_state (evs' ! i) = ev_state (evs1 ! i)"
    using Cons.IH [OF 1(2), of "length evs"] 1(3) Cons.prems(4) by auto
  have "ev_state (evs' ! i) = ev_state (evs ! i)" if "i < length evs" for i
    using 1(3,4) 2(6) that by (simp add: nth_append)
  then show ?case using 1 2 by (simp add: alloc_event_def)
qed simp


section \<open>The recording protocol\<close>

definition ready :: "nat \<Rightarrow> bound \<Rightarrow> bool" where
  "ready s b \<longleftrightarrow>
     graph_ok (events b) \<and> (case eventRecorders b s of None \<Rightarrow> True | Some er \<Rightarrow> \<not> hasRecord er)"

text \<open>
  A record of core \<open>s\<close> is open whose events have not run and that was requested no earlier than cycle \<open>c\<close>.
\<close>

definition event_ok :: "TimingEvent list \<Rightarrow> ev option \<Rightarrow> bool" where
  "event_ok evs e \<longleftrightarrow> (case e of None \<Rightarrow> False | Some i \<Rightarrow> i < length evs \<and> ev_state (evs ! i) = EV_NONE)"

definition pending :: "cyc \<Rightarrow> nat \<Rightarrow> bound \<Rightarrow> bool" where
  "pending c s b \<longleftrightarrow>
     graph_ok (events b) \<and>
     (case eventRecorders b s of
        None \<Rightarrow> True
      | Some er \<Rightarrow> c \<le> tr_reqCycle (er_tr er) \<and> event_ok (events b) (tr_startEvent (er_tr er)) \<and>
          event_ok (events b) (tr_endEvent (er_tr er)))"

lemma event_ok_mono:
  assumes "event_ok evs e" "length evs \<le> length evs'" "\<forall>i < length evs. ev_state (evs' ! i) = ev_state (evs ! i)"
  shows "event_ok evs' e"
  using assms by (auto simp: event_ok_def split: option.splits)

text \<open>Events are only added, their states do not change, and no recorder appears or disappears.\<close>

definition grows :: "bound \<Rightarrow> bound \<Rightarrow> bool" where
  "grows b b' \<longleftrightarrow> length (events b) \<le> length (events b') \<and> (\<forall>i < length (events b). ev_state (events b' ! i) = ev_state (events b ! i)) \<and>
     (\<forall>s. eventRecorders b' s = None \<longleftrightarrow> eventRecorders b s = None)"

lemma grows_refl [simp]: "grows b b"
  by (simp add: grows_def)

lemma grows_trans: "grows b b1 \<Longrightarrow> grows b1 b2 \<Longrightarrow> grows b b2"
  by (simp add: grows_def)

lemma event_ok_grows: "grows b b' \<Longrightarrow> event_ok (events b) e \<Longrightarrow> event_ok (events b') e"
  by (auto simp: grows_def intro: event_ok_mono)

lemma pending_mono: "pending c s b \<Longrightarrow> c' \<le> c \<Longrightarrow> pending c' s b"
  by (auto simp: pending_def split: option.splits)

lemma set_minStart_ok:
  assumes "graph_ok evs"
  shows "graph_ok (setMinStartCycle evs i c)" "edges (setMinStartCycle evs i c) = edges evs"
    "length (setMinStartCycle evs i c) = length evs" "ev_state (setMinStartCycle evs i c ! j) = ev_state (evs ! j)"
    "ev_domain (setMinStartCycle evs i c ! j) = ev_domain (evs ! j)"
proof -
  have "setMinStartCycle evs i c ! j = (if i < length evs \<and> i = j then (evs ! i)\<lparr>ev_minStartCycle := c\<rparr> else evs ! j)"
    by (cases "i < length evs") (auto simp: setMinStartCycle_def list_update_beyond)
  then show "ev_state (setMinStartCycle evs i c ! j) = ev_state (evs ! j)" "ev_domain (setMinStartCycle evs i c ! j) = ev_domain (evs ! j)"
    by simp_all
qed (use graph_ok_update [OF assms, of "(evs ! i)\<lparr>ev_minStartCycle := c\<rparr>" i] in \<open>simp_all add: setMinStartCycle_def\<close>)

lemma set_minStart_last: "setMinStartCycle (evs @ [e]) (length evs) c = evs @ [e\<lparr>ev_minStartCycle := c\<rparr>]"
  by (simp add: setMinStartCycle_def list_update_append)

lemma record_first:
  assumes "graph_ok (events b)" "\<not> hasRecord er" "eventRecorders b (srcId req) = Some er" "fresh_event e" "\<forall>e' \<in> set es. fresh_event e'"
  shows "\<exists>b'. record_access 0 req addr resp e es b er = Some b' \<and> pending (cycle req) (srcId req) b' \<and> grows b b'"
proof -
  define e1 where "e1 = e\<lparr>ev_minStartCycle := cycle req\<rparr>"
  have e1: "new_event e1" using assms(4) by (simp add: e1_def fresh_event_def new_event_def)
  obtain evs' lst where c: "chain_events es (events b @ [e1]) (length (events b)) = Some (evs', lst)" "graph_ok evs'"
    "lst < length evs'" "ev_state (evs' ! lst) = EV_NONE" "Suc (length (events b)) \<le> length evs'"
    "ev_state (evs' ! length (events b)) = EV_NONE" "\<forall>i < length (events b). ev_state (evs' ! i) = ev_state (events b ! i)"
    using chain_events_ok [OF graph_ok_snoc(1) [OF assms(1) e1], of "length (events b)" es] e1 assms(5)
    by (auto simp: new_event_def nth_append)
  then show ?thesis using assms(2,3)
    by (simp add: record_access_def alloc_event_def set_minStart_last e1_def [symmetric] pushRecord_def hasRecord_def
        tr_isValid_def pending_def event_ok_def grows_def)
qed

lemma record_next:
  assumes "pending c (srcId req) b" "eventRecorders b (srcId req) = Some er" "fresh_event e"
    "\<forall>e' \<in> set es. fresh_event e'" "k = 1 \<or> k = 2"
  shows "\<exists>b'. record_access k req addr resp e es b er = Some b' \<and> pending c (srcId req) b' \<and> grows b b'"
proof -
  define n where "n = length (events b)"
  define e1 where "e1 = e\<lparr>ev_minStartCycle := tr_reqCycle (er_tr er)\<rparr>"
  have er: "graph_ok (events b)" "c \<le> tr_reqCycle (er_tr er)" "event_ok (events b) (tr_startEvent (er_tr er))"
    "event_ok (events b) (tr_endEvent (er_tr er))"
    using assms(1,2) by (simp_all add: pending_def)
  obtain p where p: "tr_endEvent (er_tr er) = Some p" "p < length (events b)" "ev_state (events b ! p) = EV_NONE"
    using er(4) by (auto simp: event_ok_def split: option.splits)
  have e1: "fresh_event e1" using assms(3) by (simp add: e1_def fresh_event_def new_event_def)
  obtain evs1 where 1: "addChild (events b @ [e1]) p n = Some evs1" "graph_ok evs1" "length evs1 = Suc n"
    "\<forall>i < Suc n. ev_state (evs1 ! i) = ev_state ((events b @ [e1]) ! i)"
    using add_new_child [OF er(1) p(2,3) e1] by (auto simp: n_def)
  have "ev_state (evs1 ! n) = EV_NONE" using 1(4) e1 by (simp add: n_def fresh_event_def new_event_def)
  then obtain evs2 lst where 2: "chain_events es evs1 n = Some (evs2, lst)" "graph_ok evs2"
    "lst < length evs2" "ev_state (evs2 ! lst) = EV_NONE" "Suc n \<le> length evs2"
    "\<forall>i < Suc n. ev_state (evs2 ! i) = ev_state (evs1 ! i)"
    using chain_events_ok [OF 1(2), of n es] 1(3) assms(4) by auto
  have st: "ev_state (evs2 ! i) = ev_state (events b ! i)" if "i < n" for i
    using 1(4) 2(6) that by (simp add: n_def nth_append)
  have ends: "event_ok evs2 (tr_startEvent (er_tr er))" "event_ok evs2 (tr_endEvent (er_tr er))" "event_ok evs2 (Some lst)"
    using event_ok_mono [of "events b" _ evs2] er(3,4) st 2(3-5) by (simp_all add: n_def event_ok_def)
  have "hasRecord er" using er(3) by (auto simp: hasRecord_def tr_isValid_def event_ok_def split: option.splits)
  moreover have "setMinStartCycle (events b @ [e]) n (tr_reqCycle (er_tr er)) = events b @ [e1]"
    by (simp add: n_def e1_def set_minStart_last)
  moreover have "grows b (b\<lparr>events := evs2, eventRecorders := (eventRecorders b)(srcId req := Some er')\<rparr>)" for er'
    using st 2(5) assms(2) by (simp add: grows_def n_def)
  ultimately show ?thesis using 1(1) 2(1,2) p(1) assms(5) er(2) ends
    by (auto simp: record_access_def alloc_event_def n_def [symmetric] popRecord_def
        pushRecord_def hasRecord_def tr_isValid_def tr_clear_def pending_def)
qed

lemma record_recorders:
  assumes "record_access k req addr resp e es b er = Some b'" "s \<noteq> srcId req"
  shows "eventRecorders b' s = eventRecorders b s"
proof -
  consider "k = 0" | "k \<noteq> 0" "k = 1 \<or> k = 2" | "k \<noteq> 0" "\<not> (k = 1 \<or> k = 2)" by blast
  then show ?thesis
  proof cases
    case 1
    then show ?thesis using assms by (auto simp: record_access_def alloc_event_def bind_eq_Some_conv)
  next
    case 2
    have "(if k = 0 then x else if k = 1 \<or> k = 2 then y else z) = y" for x y z :: "bound option" using 2 by simp
    then show ?thesis using assms
      by (auto simp: record_access_def alloc_event_def popRecord_def bind_eq_Some_conv simp del: if_split)
  next
    case 3
    then show ?thesis using assms by (auto simp: record_access_def alloc_event_def)
  qed
qed

section \<open>The interface of the memory controller\<close>

text \<open>
  The protocol between the controller and its memories.  A clean write-back is dropped.  Any
  other access is answered no earlier than it was issued; if it opens the record, no record may be
  open, and afterwards one is; if it extends the record, one must be open and stays open.  Recorders
  of other cores are not touched.
\<close>

locale dram_system =
  fixes dram :: "target \<Rightarrow> MemReq \<Rightarrow> nat \<Rightarrow> nat \<Rightarrow> 'd \<Rightarrow> (cyc \<times> MESIState \<times> 'd) option"
    and present :: "target \<Rightarrow> bool"
    and rdy :: "nat \<Rightarrow> 'd \<Rightarrow> bool"
    and pnd :: "cyc \<Rightarrow> nat \<Rightarrow> 'd \<Rightarrow> bool"
  assumes dram_clean: "present t \<Longrightarrow> even sz \<Longrightarrow> req_type req = PUTS \<Longrightarrow>
      \<exists>c. dram t req k sz d = Some (c, mem_grant req, d) \<and> cycle req \<le> c"
    and dram_first: "present t \<Longrightarrow> even sz \<Longrightarrow> req_type req \<noteq> PUTS \<Longrightarrow> rdy (srcId req) d \<Longrightarrow>
      \<exists>c d'. dram t req 0 sz d = Some (c, mem_grant req, d') \<and> cycle req \<le> c \<and> pnd (cycle req) (srcId req) d' \<and>
        (\<forall>s. s \<noteq> srcId req \<longrightarrow> rdy s d \<longrightarrow> rdy s d')"
    and dram_next: "present t \<Longrightarrow> even sz \<Longrightarrow> req_type req \<noteq> PUTS \<Longrightarrow> pnd first (srcId req) d \<Longrightarrow> k = 1 \<or> k = 2 \<Longrightarrow>
      \<exists>c d'. dram t req k sz d = Some (c, mem_grant req, d') \<and> cycle req \<le> c \<and> pnd first (srcId req) d' \<and>
        (\<forall>s. s \<noteq> srcId req \<longrightarrow> rdy s d \<longrightarrow> rdy s d')"
    and pnd_mono: "pnd c s d \<Longrightarrow> c' \<le> c \<Longrightarrow> pnd c' s d"

definition overrides_access :: "MemObject \<Rightarrow> bool" where
  "overrides_access m \<longleftrightarrow>
     (case m of SimpleMem _ \<Rightarrow> False | MD1Mem _ \<Rightarrow> False | DDRMem _ \<Rightarrow> True | DRAMSimMem ds \<Rightarrow> 0 < ds_minLatency ds)"

definition has_target :: "mem_system \<Rightarrow> target \<Rightarrow> bool" where
  "has_target ms t \<longleftrightarrow>
     (case t of
        ExtDram \<Rightarrow> overrides_access (ext_dram ms)
      | McDram i \<Rightarrow> i < length (mcdram ms) \<and> overrides_access (mcdram ms ! i))"

lemma MemObject_clean:
  assumes "overrides_access m" "even sz" "req_type req = PUTS"
  shows "\<exists>c. MemObject_access m req k sz b = Some (c, mem_grant req, b) \<and> cycle req \<le> c"
proof (cases m)
  case (DDRMem ddr)
  then show ?thesis using assms by (simp add: MemObject_access_def DDRMemory_access_def even_iff_mod_2_eq_zero)
next
  case (DRAMSimMem ds)
  then show ?thesis using assms
    by (simp add: MemObject_access_def DRAMSimMemory_access_def overrides_access_def Let_def split: option.split)
qed (use assms(1) in \<open>simp_all add: overrides_access_def\<close>)

lemma MemObject_records:
  assumes m: "overrides_access m" "even sz" "req_type req \<noteq> PUTS"
    and rec: "\<And>er addr resp e es. eventRecorders b (srcId req) = Some er \<Longrightarrow> fresh_event e \<Longrightarrow>
      \<forall>e' \<in> set es. fresh_event e' \<Longrightarrow> \<exists>b'. record_access k req addr resp e es b er = Some b' \<and> P b'"
    and none: "eventRecorders b (srcId req) = None \<Longrightarrow> P b"
  shows "\<exists>c b'. MemObject_access m req k sz b = Some (c, mem_grant req, b') \<and> cycle req \<le> c \<and> P b'"
proof (cases "eventRecorders b (srcId req)")
  case None
  note P = none [OF None]
  show ?thesis
  proof (cases m)
    case (DDRMem ddr)
    then show ?thesis using m None P
      by (simp add: MemObject_access_def DDRMemory_access_def even_iff_mod_2_eq_zero ddr_respCycle_def)
  next
    case (DRAMSimMem ds)
    then show ?thesis using m None P
      by (simp add: MemObject_access_def DRAMSimMemory_access_def overrides_access_def)
  qed (use m(1) in \<open>simp_all add: overrides_access_def\<close>)
next
  case (Some er)
  note r = rec [OF Some]
  show ?thesis
  proof (cases m)
    case (DDRMem ddr)
    have "\<forall>e' \<in> set []. fresh_event e'" by simp
    then obtain b' where "record_access k req (lineAddr req) (ddr_respCycle ddr req sz)
        (DDRMemoryAccEvent_new ddr (req_type req = PUTX) (lineAddr req) sz) [] b er = Some b'" "P b'"
      using r [OF fresh_eventI(1)] by blast
    then show ?thesis using m Some DDRMem
      by (simp add: MemObject_access_def DDRMemory_access_def even_iff_mod_2_eq_zero ddr_respCycle_def)
  next
    case (DRAMSimMem ds)
    define ev where "ev = (\<lambda>i. DRAMSimAccEvent_new ds (req_type req = PUTX) (lineAddr req * 2 ^ ds_lineBits ds + 64 * i))"
    have "fresh_event (ev 0)" "\<forall>e' \<in> set (map ev [1..<(sz + 3) div 4]). fresh_event e'" by (auto simp: ev_def)
    then obtain b' where "record_access k req (lineAddr req * 2 ^ ds_lineBits ds) (cycle req + ds_minLatency ds + sz)
        (ev 0) (map ev [1..<(sz + 3) div 4]) b er = Some b'" "P b'"
      using r by blast
    then show ?thesis using m Some DRAMSimMem
      by (simp add: MemObject_access_def DRAMSimMemory_access_def overrides_access_def Let_def ev_def)
  qed (use m in \<open>auto simp: overrides_access_def\<close>)
qed

lemma MemObject_protocol:
  assumes m: "overrides_access m" "even sz" "req_type req \<noteq> PUTS"
    and d: "k = 0 \<and> ready (srcId req) b \<and> c0 = cycle req \<or> (k = 1 \<or> k = 2) \<and> pending c0 (srcId req) b"
  shows "\<exists>c b'. MemObject_access m req k sz b = Some (c, mem_grant req, b') \<and> cycle req \<le> c \<and>
    pending c0 (srcId req) b' \<and> grows b b' \<and> (\<forall>s. s \<noteq> srcId req \<longrightarrow> ready s b \<longrightarrow> ready s b')"
proof (rule MemObject_records [OF m])
  fix er addr resp e es
  assume er: "eventRecorders b (srcId req) = Some er" and f: "fresh_event e" "\<forall>e' \<in> set es. fresh_event e'"
  obtain b' where b': "record_access k req addr resp e es b er = Some b'" "pending c0 (srcId req) b'" "grows b b'"
    using d record_first [of b er req e es addr resp] record_next [OF _ er f, of c0 k addr resp] er f by (auto simp: ready_def)
  then have "ready s b'" if "s \<noteq> srcId req" "ready s b" for s
    using that record_recorders [OF b'(1) that(1)] by (simp add: ready_def pending_def)
  then show "\<exists>b'. record_access k req addr resp e es b er = Some b' \<and> pending c0 (srcId req) b' \<and> grows b b' \<and>
      (\<forall>s. s \<noteq> srcId req \<longrightarrow> ready s b \<longrightarrow> ready s b')" using b' by blast
qed (use d in \<open>auto simp: ready_def pending_def\<close>)

lemma mem_access_protocol:
  assumes "has_target ms t" "even sz" "req_type req \<noteq> PUTS"
    and "k = 0 \<and> ready (srcId req) b \<and> c0 = cycle req \<or> (k = 1 \<or> k = 2) \<and> pending c0 (srcId req) b"
  shows "\<exists>c b'. mem_access ms t req k sz b = Some (c, mem_grant req, b') \<and> cycle req \<le> c \<and>
    pending c0 (srcId req) b' \<and> grows b b' \<and> (\<forall>s. s \<noteq> srcId req \<longrightarrow> ready s b \<longrightarrow> ready s b')"
  using assms MemObject_protocol [OF _ assms(2-4)] by (cases t) (simp_all add: mem_access_def has_target_def)

text \<open>The memories implement the interface, and from a state \<open>b0\<close> on they only add events.\<close>

interpretation drams: dram_system "mem_access ms" "has_target ms" "\<lambda>s b. ready s b \<and> grows b0 b" "\<lambda>c s b. pending c s b \<and> grows b0 b" for ms b0
proof
  fix t req k d c0 and sz :: nat
  assume t: "has_target ms t" "even sz"
  show "\<exists>c. mem_access ms t req k sz d = Some (c, mem_grant req, d) \<and> cycle req \<le> c" if "req_type req = PUTS"
    using t that MemObject_clean by (cases t) (auto simp: mem_access_def has_target_def)
  assume p: "req_type req \<noteq> PUTS"
  show "\<exists>c d'. mem_access ms t req 0 sz d = Some (c, mem_grant req, d') \<and> cycle req \<le> c \<and> (pending (cycle req) (srcId req) d' \<and> grows b0 d') \<and>
      (\<forall>s. s \<noteq> srcId req \<longrightarrow> ready s d \<and> grows b0 d \<longrightarrow> ready s d' \<and> grows b0 d')" if "ready (srcId req) d \<and> grows b0 d"
    using mem_access_protocol [OF t p, of 0 d "cycle req"] that grows_trans by blast
  show "\<exists>c d'. mem_access ms t req k sz d = Some (c, mem_grant req, d') \<and> cycle req \<le> c \<and> (pending c0 (srcId req) d' \<and> grows b0 d') \<and>
      (\<forall>s. s \<noteq> srcId req \<longrightarrow> ready s d \<and> grows b0 d \<longrightarrow> ready s d' \<and> grows b0 d')"
    if "pending c0 (srcId req) d \<and> grows b0 d" "k = 1 \<or> k = 2"
    using mem_access_protocol [OF t p, of k d c0] that grows_trans by blast
qed (use pending_mono in blast)


text \<open>
  The clock translation that the DDR scheduler relies on: an event scheduled for a memory cycle runs at
  a system cycle that translates back to that memory cycle, also when it cannot run before
  the present.  The constructor refuses frequencies for which this would fail.
\<close>

lemma mul_div_bounds:
  fixes x y :: nat
  assumes "0 < y" shows "(x div y) * y \<le> x" "x < (x div y + 1) * y"
  using assms by (simp_all add: dividend_less_div_times) 

lemma sysToMemCycle_mono: "a \<le> b \<Longrightarrow> sysToMemCycle ddr a \<le> sysToMemCycle ddr b"
  by (simp add: sysToMemCycle_def div_le_mono)

lemma matching_cycle:
  assumes f: "0 < memFreqKHz ddr" "2 * memFreqKHz ddr \<le> sysFreqKHz ddr" and m: "0 < m"
  shows "sysToMemCycle ddr (matchingMemToSysCycle ddr m) = m"
proof -
  define S M A x where d: "S = sysFreqKHz ddr" "M = memFreqKHz ddr" "A = (2 * m - 1) * S" "x = A div (2 * M)"
  have x: "matchingMemToSysCycle ddr m = x"
    by (simp add: matchingMemToSysCycle_def d div_mult2_eq mult.commute)
  have pos: "0 < S" "0 < M" "2 * M \<le> S" using f by (auto simp: d)
  have up: "x * (2 * M) \<le> A" and low: "A < (x + 1) * (2 * M)"
    using mul_div_bounds [of "2 * M" A] pos by (simp_all add: d(4))
  have A: "2 * ((m - 1) * S) + S = A" "2 * (m * S) = A + S"
    using m by (cases m; simp add: d(3) algebra_simps)+
  have "x * M div S = m - 1"
  proof (rule div_nat_eqI)
    show "S * (m - 1) \<le> x * M" using A(1) low pos by (simp add: mult.commute mult.left_commute)
    show "x * M < S * Suc (m - 1)" using A(2) up pos m by (simp add: mult.commute mult.left_commute)
  qed
  then show ?thesis using m by (simp add: x sysToMemCycle_def d [symmetric])
qed

lemma enqueue_cycle:
  assumes f: "0 < memFreqKHz ddr" "2 * memFreqKHz ddr \<le> sysFreqKHz ddr"
    and m: "sysToMemCycle ddr now \<le> m"
  shows "sysToMemCycle ddr (max (matchingMemToSysCycle ddr m) now) = m"
proof -
  have "0 < m" using m by (simp add: sysToMemCycle_def)
  note eq = matching_cycle [OF f this]
  show ?thesis
  proof (cases "matchingMemToSysCycle ddr m \<le> now")
    case True
    then have "m \<le> sysToMemCycle ddr now" using sysToMemCycle_mono [OF True, of ddr] eq by simp
    then show ?thesis using True m by (simp add: max_def)
  qed (use eq in \<open>simp add: max_def\<close>)
qed

end
