(* ===== verification/Mc.thy ===== *)
theory Mc
  imports Page_Placement Dram
begin

text \<open>
  The memory controller with its DRAM cache (\<open>MemoryController\<close> in \<open>src/src/mc.h\<close> and
  \<open>src/src/mc.cpp\<close>).  \<open>MemoryController::access\<close> is one function of 600 lines in the source; here each
  phase of it is a definition, and \<open>mc_access\<close> composes them in the order of the source.

  Pointers to the placement policies and the tag buffer are options: a scheme that does not
  allocate one leaves the pointer uninitialised, and following it aborts.  The memories are the
  parameter \<open>dram\<close>, whose state \<open>'d\<close> is threaded through; it stands for \<open>_ext_dram\<close> and
  \<open>_mcdram\<close> and is instantiated by \<open>mem_access\<close>.  Constants of the object are grouped in
  \<open>mc_config\<close>, the statistics in \<open>McStats\<close>, and the counters that are halved after every step in
  \<open>StepStats\<close>; \<open>_miss_rate_trace\<close> and \<open>_num_steps\<close> are never read and are left out.
\<close>

section \<open>State\<close>

record mc_config =
  mc_name :: string
  collect_trace :: bool
  max_trace_len :: nat
  mcdram_per_mc :: nat
  granularity :: nat
  num_ways :: nat
  cache_size :: nat
  num_sets :: nat
  scheme :: Scheme
  footprint_size :: nat
  bw_balance :: bool
  os_quantum :: nat
  sram_tag :: bool
  llc_latency :: nat

record McStats =
  numPlacement :: nat
  numCleanEviction :: nat
  numDirtyEviction :: nat
  numLoadHit :: nat
  numLoadMiss :: nat
  numStoreHit :: nat
  numStoreMiss :: nat
  numCounterAccess :: nat
  numTagLoad :: nat
  numTagStore :: nat
  numTagBufferFlush :: nat
  numTBDirtyHit :: nat
  numTBDirtyMiss :: nat
  numTouchedLines :: nat
  numEvictedLines :: nat
  numNotTouchedLines :: nat
  numTouchedPages :: nat

record StepStats =
  num_hit_per_step :: nat
  num_miss_per_step :: nat
  mc_bw_per_step :: nat
  ext_bw_per_step :: nat

text \<open>The trace buffers, and what was appended to the trace file so far.\<close>

record Trace =
  address_trace :: "address list"
  type_trace :: "nat list"
  cur_trace_len :: nat
  trace_file :: "(address list \<times> nat list) list"

record MemoryController =
  cfg :: mc_config
  trace :: Trace
  next_evict_idx :: nat
  cache :: "Set list"
  line_placement_policy :: "LinePlacementPolicy option"
  page_placement_policy :: "PagePlacementPolicy option"
  mc_tag_buffer :: "TagBuffer option"
  num_requests :: nat
  ds_index :: nat
  tlb :: "address \<rightharpoonup> TLBEntry"
  step :: StepStats
  stats :: McStats

definition stat :: "(McStats \<Rightarrow> McStats) \<Rightarrow> MemoryController \<Rightarrow> MemoryController" where
  "stat f mc = mc\<lparr>stats := f (stats mc)\<rparr>"

definition add_mc_bw :: "nat \<Rightarrow> MemoryController \<Rightarrow> MemoryController" where
  "add_mc_bw n mc = mc\<lparr>step := (step mc)\<lparr>mc_bw_per_step := mc_bw_per_step (step mc) + n\<rparr>\<rparr>"

definition add_ext_bw :: "nat \<Rightarrow> MemoryController \<Rightarrow> MemoryController" where
  "add_ext_bw n mc = mc\<lparr>step := (step mc)\<lparr>ext_bw_per_step := ext_bw_per_step (step mc) + n\<rparr>\<rparr>"

definition getRecentMissRate :: "MemoryController \<Rightarrow> double" where
  "getRecentMissRate mc =
     ddiv (dnat (num_miss_per_step (step mc)))
       (dnat (num_miss_per_step (step mc) + num_hit_per_step (step mc)))"

definition getRecentBWRatio :: "MemoryController \<Rightarrow> double" where
  "getRecentBWRatio mc =
     (let total = mc_bw_per_step (step mc) + ext_bw_per_step (step mc)
      in if 0 < total then ddiv (dmul 1 (dnat (mc_bw_per_step (step mc)))) (dnat total)
         else rnd (1 / 10000000))"

definition view :: "MemoryController \<Rightarrow> mc_view" where
  "view mc =
     \<lparr>mv_num_ways = num_ways (cfg mc), mv_num_sets = num_sets (cfg mc), mv_num_requests = num_requests mc,
      mv_granularity = granularity (cfg mc), mv_miss_rate = getRecentMissRate mc,
      mv_tag_buffer = mc_tag_buffer mc\<rparr>"

text \<open>\<open>_tlb[x]\<close> creates a zeroed entry for a page it does not hold.\<close>

definition tlb_at :: "(address \<rightharpoonup> TLBEntry) \<Rightarrow> address \<Rightarrow> TLBEntry" where
  "tlb_at t x =
     (case t x of
        Some e \<Rightarrow> e
      | None \<Rightarrow> \<lparr>tlb_tag = 0, tlb_way = 0, tlb_count = 0, touch_bitvec = 0, dirty_bitvec = 0\<rparr>)"

definition upd_tlb :: "address \<Rightarrow> (TLBEntry \<Rightarrow> TLBEntry) \<Rightarrow> MemoryController \<Rightarrow> MemoryController" where
  "upd_tlb x f mc = mc\<lparr>tlb := (tlb mc)(x \<mapsto> f (tlb_at (tlb mc) x))\<rparr>"

definition way_at :: "MemoryController \<Rightarrow> nat \<Rightarrow> nat \<Rightarrow> Way" where
  "way_at mc set_num way = cache mc ! set_num ! way"

definition upd_way :: "nat \<Rightarrow> nat \<Rightarrow> (Way \<Rightarrow> Way) \<Rightarrow> MemoryController \<Rightarrow> MemoryController" where
  "upd_way set_num way f mc =
     mc\<lparr>cache := (cache mc)[set_num := (cache mc ! set_num)[way := f (cache mc ! set_num ! way)]]\<rparr>"

definition transMCAddress :: "address \<Rightarrow> address" where
  "transMCAddress mc_addr =
     (let num_lines_per_mc = 128 * 1024 * 1024 div 2048 * 28; s = mc_addr mod num_lines_per_mc
      in s div 28 * 32 + s mod 28)"

definition transMCAddressPage :: "mc_config \<Rightarrow> nat \<Rightarrow> nat \<Rightarrow> address" where
  "transMCAddressPage c set_num way_num = (num_ways c * set_num + way_num) * granularity c"

section \<open>The start of an access\<close>

definition mc_trace :: "MemReq \<Rightarrow> MemoryController \<Rightarrow> MemoryController option" where
  "mc_trace req mc =
     (if collect_trace (cfg mc) \<and> mc_name (cfg mc) = ''mem-0''
      then do {
        let t = trace mc;
        assert_that (cur_trace_len t < length (address_trace t));
        let t = t\<lparr>address_trace := (address_trace t)[cur_trace_len t := lineAddr req],
                  type_trace := (type_trace t)[cur_trace_len t := (if req_type req = PUTX then 1 else 0)],
                  cur_trace_len := cur_trace_len t + 1\<rparr>;
        assert_that (cur_trace_len t \<le> max_trace_len (cfg mc));
        let t = (if cur_trace_len t = max_trace_len (cfg mc)
                 then t\<lparr>trace_file := trace_file t @ [(take (max_trace_len (cfg mc)) (address_trace t),
                                                      take (max_trace_len (cfg mc)) (type_trace t))],
                        cur_trace_len := 0\<rparr>
                 else t);
        Some (mc\<lparr>trace := t\<rparr>) }
      else Some mc)"

text \<open>The local variables that do not change after the address was split.\<close>

record locals =
  l_type :: ReqType
  l_address :: address
  l_select :: nat
  l_mc_address :: address
  l_tag :: address
  l_set :: nat

definition mc_split :: "mc_config \<Rightarrow> MemReq \<Rightarrow> locals option" where
  "mc_split c req = do {
     let address = lineAddr req;
     assert_that (0 < mcdram_per_mc c);
     assert_that (0 < granularity c div 64);
     assert_that (0 < num_sets c);
     let tag = address div (granularity c div 64);
     Some \<lparr>l_type = (if req_type req = GETS \<or> req_type req = GETX then LOAD else STORE),
           l_address = address,
           l_select = (address div 64) mod mcdram_per_mc c,
           l_mc_address = (address div 64 div mcdram_per_mc c * 64) OR (address mod 64),
           l_tag = tag,
           l_set = tag mod num_sets c\<rparr> }"

definition sub_req :: "MemReq \<Rightarrow> address \<Rightarrow> AccessType \<Rightarrow> cyc \<Rightarrow> MemReq" where
  "sub_req req addr type c = req\<lparr>lineAddr := addr, req_type := type, cycle := c\<rparr>"

type_synonym 'd dram = "target \<Rightarrow> MemReq \<Rightarrow> nat \<Rightarrow> nat \<Rightarrow> 'd \<Rightarrow> (cyc \<times> MESIState \<times> 'd) option"

section \<open>Probing the tags\<close>

definition probe_tlb :: "locals \<Rightarrow> MemoryController \<Rightarrow> (nat \<times> MemoryController) option" where
  "probe_tlb l mc = do {
     let ways = num_ways (cfg mc);
     let mc = (if tlb mc (l_tag l) = None
               then stat (numTouchedPages_update Suc)
                      (mc\<lparr>tlb := (tlb mc)(l_tag l \<mapsto> \<lparr>tlb_tag = l_tag l, tlb_way = ways, tlb_count = 0,
                                                     touch_bitvec = 0, dirty_bitvec = 0\<rparr>)\<rparr>)
               else mc);
     let way = tlb_way (tlb_at (tlb mc) (l_tag l));
     if way \<noteq> ways
     then do {
       assert_that (way < ways \<and> way_valid (way_at mc (l_set l) way) \<and> way_tag (way_at mc (l_set l) way) = l_tag l);
       Some (way, mc) }
     else do {
       assert_that (scheme (cfg mc) = Tagless \<or>
         (\<forall>w \<in> set (cache mc ! l_set l). way_tag w \<noteq> l_tag l \<or> \<not> way_valid w));
       Some (ways, mc) } }"

definition probe_unison ::
    "'d dram \<Rightarrow> locals \<Rightarrow> MemoryController \<Rightarrow> 'd \<Rightarrow> MemReq \<Rightarrow> (MemoryController \<times> 'd \<times> MemReq) option" where
  "probe_unison dram l mc d req =
     (if scheme (cfg mc) = UnisonCache
      then if l_type l = LOAD
        then do {
          (c, _, d) \<leftarrow> dram (McDram (l_select l)) (req\<lparr>lineAddr := l_mc_address l\<rparr>) 0 6 d;
          Some (stat (numTagLoad_update Suc) (add_mc_bw 6 mc), d, req\<lparr>cycle := c\<rparr>) }
        else do {
          (c, _, d) \<leftarrow> dram (McDram (l_select l)) (sub_req req (l_mc_address l) GETS (cycle req)) 0 2 d;
          Some (stat (numTagLoad_update Suc) (add_mc_bw 2 mc), d, req\<lparr>cycle := c\<rparr>) }
      else Some (mc, d, req))"

definition probe_hybrid :: "locals \<Rightarrow> MemoryController \<Rightarrow> (bool \<times> MemoryController) option" where
  "probe_hybrid l mc =
     (if scheme (cfg mc) = HybridCache \<and> l_type l = STORE
      then do {
        tb \<leftarrow> mc_tag_buffer mc;
        way \<leftarrow> existInTB tb (l_tag l);
        if way = tb_num_ways tb \<and> ds_index mc \<le> l_set l
        then Some (\<not> sram_tag (cfg mc), stat (numTBDirtyMiss_update Suc) mc)
        else Some (False, stat (numTBDirtyHit_update Suc) mc) }
      else Some (False, mc))"

definition probe_page ::
    "'d dram \<Rightarrow> locals \<Rightarrow> MemoryController \<Rightarrow> 'd \<Rightarrow> MemReq \<Rightarrow>
     (nat \<times> bool \<times> MemoryController \<times> 'd \<times> MemReq) option" where
  "probe_page dram l mc d req = do {
     (hit_way, mc) \<leftarrow> probe_tlb l mc;
     (mc, d, req) \<leftarrow> probe_unison dram l mc d req;
     (hybrid_tag_probe, mc) \<leftarrow> probe_hybrid l mc;
     let req = (if scheme (cfg mc) = HybridCache \<and> sram_tag (cfg mc)
                then req\<lparr>cycle := cycle req + llc_latency (cfg mc)\<rparr> else req);
     Some (hit_way, hybrid_tag_probe, mc, d, req) }"

definition probe_alloy ::
    "'d dram \<Rightarrow> locals \<Rightarrow> MemoryController \<Rightarrow> 'd \<Rightarrow> MemReq \<Rightarrow>
     (nat \<times> bool \<times> MemoryController \<times> 'd \<times> MemReq) option" where
  "probe_alloy dram l mc d req = do {
     assert_that (scheme (cfg mc) = AlloyCache);
     let w = way_at mc (l_set l) 0;
     let hit_way = (if way_valid w \<and> way_tag w = l_tag l \<and> ds_index mc \<le> l_set l then 0 else num_ways (cfg mc));
     if l_type l = LOAD \<and> ds_index mc \<le> l_set l
     then if sram_tag (cfg mc)
       then Some (hit_way, False, mc, d, req\<lparr>cycle := cycle req + llc_latency (cfg mc)\<rparr>)
       else do {
         (c, _, d) \<leftarrow> dram (McDram (l_select l)) (req\<lparr>lineAddr := l_mc_address l\<rparr>) 0 6 d;
         Some (hit_way, False, stat (numTagLoad_update Suc) (add_mc_bw 6 mc), d, req\<lparr>cycle := c\<rparr>) }
     else Some (hit_way, False, mc, d, req) }"

definition mc_probe ::
    "'d dram \<Rightarrow> locals \<Rightarrow> MemoryController \<Rightarrow> 'd \<Rightarrow> MemReq \<Rightarrow>
     (nat \<times> bool \<times> MemoryController \<times> 'd \<times> MemReq) option" where
  "mc_probe dram l mc d req =
     (if 4096 \<le> granularity (cfg mc) then probe_page dram l mc d req else probe_alloy dram l mc d req)"


section \<open>A miss\<close>

text \<open>Where the missing line or page is placed: a way, or \<open>_num_ways\<close> if it is not.\<close>

definition choose_way :: "locals \<Rightarrow> MemoryController \<Rightarrow> (nat \<times> bool \<times> MemoryController) option" where
  "choose_way l mc =
     (case scheme (cfg mc) of
        AlloyCache \<Rightarrow>
          if ds_index mc \<le> l_set l
          then do {
            lp \<leftarrow> line_placement_policy mc;
            let (place, lp) = lp_handleCacheMiss lp (way_at mc (l_set l) 0);
            Some (if place then 0 else 1, False, mc\<lparr>line_placement_policy := Some lp\<rparr>) }
          else Some (1, False, mc)
      | HMA \<Rightarrow> let _ = os_handleCacheAccess (l_tag l) (l_type l) in Some (num_ways (cfg mc), False, mc)
      | Tagless \<Rightarrow> do {
          assert_that (0 < num_ways (cfg mc));
          Some (next_evict_idx mc, False, mc\<lparr>next_evict_idx := (next_evict_idx mc + 1) mod num_ways (cfg mc)\<rparr>) }
      | _ \<Rightarrow>
          if ds_index mc \<le> l_set l
          then do {
            pp \<leftarrow> page_placement_policy mc;
            (way, ca, pp) \<leftarrow> pp_handleCacheMiss (view mc) pp (l_tag l) (l_type l) (l_set l) (cache mc ! l_set l) False;
            Some (way, ca, mc\<lparr>page_placement_policy := Some pp\<rparr>) }
          else Some (num_ways (cfg mc), False, mc))"

text \<open>One access to the external DRAM for the demanded line; it sets \<open>req.cycle\<close>.\<close>

definition ext_access ::
    "'d dram \<Rightarrow> nat \<Rightarrow> MemReq \<Rightarrow> MemoryController \<Rightarrow> 'd \<Rightarrow> MemReq \<Rightarrow> (MemoryController \<times> 'd \<times> MemReq) option" where
  "ext_access dram type r mc d req = do {
     (c, _, d) \<leftarrow> dram ExtDram r type 4 d;
     Some (add_ext_bw 4 mc, d, req\<lparr>cycle := c\<rparr>) }"

definition ext_load ::
    "'d dram \<Rightarrow> locals \<Rightarrow> bool \<Rightarrow> nat \<Rightarrow> MemoryController \<Rightarrow> 'd \<Rightarrow> MemReq \<Rightarrow>
     (MemoryController \<times> 'd \<times> MemReq) option" where
  "ext_load dram l hybrid_tag_probe replace_way mc d req =
     (case scheme (cfg mc) of
        AlloyCache \<Rightarrow>
          if l_type l = LOAD
          then ext_access dram (if \<not> sram_tag (cfg mc) \<and> ds_index mc \<le> l_set l then 1 else 0) req mc d req
          else if num_ways (cfg mc) \<le> replace_way then ext_access dram 0 req mc d req
          else ext_access dram 0 (sub_req req (l_address l) GETS (cycle req)) mc d req
      | HMA \<Rightarrow> ext_access dram 0 req mc d req
      | UnisonCache \<Rightarrow>
          if l_type l = LOAD \<or> num_ways (cfg mc) \<le> replace_way then ext_access dram 1 req mc d req
          else Some (mc, d, req)
      | HybridCache \<Rightarrow>
          if hybrid_tag_probe
          then do {
            (c, _, d) \<leftarrow> dram (McDram (l_select l)) (sub_req req (l_mc_address l) GETS (cycle req)) 0 2 d;
            (mc, d, req) \<leftarrow> ext_access dram 1 (req\<lparr>cycle := c\<rparr>) (add_mc_bw 2 mc) d req;
            Some (stat (numTagLoad_update Suc) mc, d, req) }
          else ext_access dram 0 req mc d req
      | Tagless \<Rightarrow> ext_access dram 0 req mc d req
      | _ \<Rightarrow> Some (mc, d, req))"

text \<open>Updating the global inverted page table of the Tagless scheme: a load and a clean store.\<close>

definition gipt_update ::
    "'d dram \<Rightarrow> locals \<Rightarrow> MemReq \<Rightarrow> MemoryController \<Rightarrow> 'd \<Rightarrow> (MemoryController \<times> 'd) option" where
  "gipt_update dram l req mc d = do {
     (_, _, d) \<leftarrow> dram ExtDram (sub_req req (l_tag l * 64) GETS (cycle req)) 2 2 d;
     (_, _, d) \<leftarrow> dram ExtDram (sub_req req (l_tag l * 64) PUTS (cycle req)) 2 2 d;
     Some (add_ext_bw 4 mc, d) }"

text \<open>The traffic of filling the way.\<close>

definition fill_traffic ::
    "'d dram \<Rightarrow> locals \<Rightarrow> MemReq \<Rightarrow> MemoryController \<Rightarrow> 'd \<Rightarrow> (MemoryController \<times> 'd) option" where
  "fill_traffic dram l req mc d = do {
     let insert_req = sub_req req (l_mc_address l) PUTX (cycle req);
     let sch = scheme (cfg mc);
     if sch = AlloyCache
     then do {
       let sz = (if sram_tag (cfg mc) then 4 else 6);
       (_, _, d) \<leftarrow> dram (McDram (l_select l)) insert_req 2 sz d;
       Some (stat (numTagStore_update Suc) (add_mc_bw sz mc), d) }
     else if sch = UnisonCache \<or> sch = HybridCache \<or> sch = Tagless
     then do {
       let access_size = (if sch = UnisonCache \<or> sch = Tagless then footprint_size (cfg mc) else granularity (cfg mc) div 64);
       (_, _, d) \<leftarrow> dram ExtDram (sub_req req (l_tag l * 64) GETS (cycle req)) 2 (access_size * 4) d;
       let mc = add_ext_bw (access_size * 4) mc;
       (_, _, d) \<leftarrow> dram (McDram (l_select l)) insert_req 2 (access_size * 4) d;
       let mc = add_mc_bw (access_size * 4) mc;
       (mc, d) \<leftarrow>
         (if sch = Tagless then gipt_update dram l req mc d
          else if \<not> sram_tag (cfg mc)
          then do {
            (_, _, d) \<leftarrow> dram (McDram (l_select l)) insert_req 2 2 d;
            Some (add_mc_bw 2 mc, d) }
          else Some (mc, d));
       Some (stat (numTagStore_update Suc) mc, d) }
     else Some (mc, d) }"

text \<open>Both remappings of a replacement are entered into the tag buffer of the Hybrid scheme.\<close>

definition remap_pages :: "address \<Rightarrow> address \<Rightarrow> MemoryController \<Rightarrow> MemoryController option" where
  "remap_pages tag replaced_tag mc =
     (if scheme (cfg mc) = HybridCache
      then do {
        tb \<leftarrow> mc_tag_buffer mc;
        ok \<leftarrow> canInsert2 tb tag replaced_tag;
        assert_that ok;
        tb \<leftarrow> tb_insert tb tag True;
        tb \<leftarrow> tb_insert tb replaced_tag True;
        Some (mc\<lparr>mc_tag_buffer := Some tb\<rparr>) }
      else Some mc)"

definition popcount :: "64 word \<Rightarrow> nat" where
  "popcount w = length (filter (\<lambda>i. bit w i) [0..<64])"

definition page_scheme :: "Scheme \<Rightarrow> bool" where
  "page_scheme sch \<longleftrightarrow> sch = UnisonCache \<or> sch = Tagless \<or> sch = HybridCache"

text \<open>The lines of the evicted page that were touched and dirtied; the subtraction is on 32 bits.\<close>

definition count_footprint :: "nat \<Rightarrow> nat \<Rightarrow> MemoryController \<Rightarrow> MemoryController option" where
  "count_footprint touch_lines dirty_lines mc =
     (if page_scheme (scheme (cfg mc))
      then do {
        assert_that (0 < touch_lines);
        assert_that (touch_lines \<le> 64);
        assert_that (dirty_lines \<le> 64);
        let untouch_lines = (granularity (cfg mc) div 64 + 2 ^ 32 - touch_lines) mod 2 ^ 32;
        Some (stat (numTouchedLines_update (\<lambda>n. n + touch_lines) \<circ> numEvictedLines_update (\<lambda>n. n + dirty_lines) \<circ>
                    numNotTouchedLines_update (\<lambda>n. n + untouch_lines)) mc) }
      else Some mc)"

text \<open>Reading \<open>lines\<close> lines of the victim from the cache and storing them to the external DRAM.\<close>

definition write_back ::
    "'d dram \<Rightarrow> locals \<Rightarrow> MemReq \<Rightarrow> cyc \<Rightarrow> address \<Rightarrow> nat \<Rightarrow> MemoryController \<Rightarrow> 'd \<Rightarrow> (MemoryController \<times> 'd) option" where
  "write_back dram l req cur_cycle victim_tag lines mc d = do {
     (_, _, d) \<leftarrow> dram (McDram (l_select l)) (sub_req req (l_mc_address l) GETS cur_cycle) 2 (lines * 4) d;
     (_, _, d) \<leftarrow> dram ExtDram (sub_req req (victim_tag * 64) PUTX cur_cycle) 2 (lines * 4) d;
     Some (add_ext_bw (lines * 4) (add_mc_bw (lines * 4) mc), d) }"

definition evict_dirty ::
    "'d dram \<Rightarrow> locals \<Rightarrow> cyc \<Rightarrow> address \<Rightarrow> nat \<Rightarrow> MemoryController \<Rightarrow> 'd \<Rightarrow> MemReq \<Rightarrow>
     (MemoryController \<times> 'd \<times> MemReq) option" where
  "evict_dirty dram l cur_cycle victim_tag dirty_lines mc d req =
     (case scheme (cfg mc) of
        AlloyCache \<Rightarrow> do {
          (mc, d, req) \<leftarrow>
            (if l_type l = STORE \<and> sram_tag (cfg mc)
             then do {
               (c, _, d) \<leftarrow> dram (McDram (l_select l)) (sub_req req (l_mc_address l) GETS cur_cycle) 2 4 d;
               Some (add_mc_bw 4 mc, d, req\<lparr>cycle := c\<rparr>) }
             else Some (mc, d, req));
          (_, _, d) \<leftarrow> dram ExtDram (sub_req req victim_tag PUTX cur_cycle) 2 4 d;
          Some (add_ext_bw 4 mc, d, req) }
      | HybridCache \<Rightarrow> do {
          (mc, d) \<leftarrow> write_back dram l req cur_cycle victim_tag (granularity (cfg mc) div 64) mc d;
          Some (mc, d, req) }
      | UnisonCache \<Rightarrow> do {
          assert_that (0 < dirty_lines \<and> dirty_lines \<le> 64);
          (mc, d) \<leftarrow> write_back dram l req cur_cycle victim_tag dirty_lines mc d;
          Some (mc, d, req) }
      | Tagless \<Rightarrow> do {
          assert_that (0 < dirty_lines \<and> dirty_lines \<le> 64);
          (mc, d) \<leftarrow> write_back dram l req cur_cycle victim_tag dirty_lines mc d;
          (mc, d) \<leftarrow> gipt_update dram l req mc d;
          Some (mc, d, req) }
      | _ \<Rightarrow> Some (mc, d, req))"

definition evict ::
    "'d dram \<Rightarrow> locals \<Rightarrow> cyc \<Rightarrow> nat \<Rightarrow> MemoryController \<Rightarrow> 'd \<Rightarrow> MemReq \<Rightarrow>
     (MemoryController \<times> 'd \<times> MemReq) option" where
  "evict dram l cur_cycle way mc d req = do {
     let w = way_at mc (l_set l) way;
     if way_valid w
     then do {
       let replaced_tag = way_tag w;
       mc \<leftarrow> remap_pages (l_tag l) replaced_tag mc;
       let mc = upd_tlb replaced_tag (\<lambda>e. e\<lparr>tlb_way := num_ways (cfg mc)\<rparr>) mc;
       let dirty_lines = popcount (dirty_bitvec (tlb_at (tlb mc) replaced_tag));
       let touch_lines = popcount (touch_bitvec (tlb_at (tlb mc) replaced_tag));
       mc \<leftarrow> count_footprint touch_lines dirty_lines mc;
       if way_dirty w
       then evict_dirty dram l cur_cycle replaced_tag dirty_lines (stat (numDirtyEviction_update Suc) mc) d req
       else do {
         assert_that (scheme (cfg mc) \<noteq> UnisonCache \<and> scheme (cfg mc) \<noteq> Tagless \<or> dirty_lines = 0);
         Some (stat (numCleanEviction_update Suc) mc, d, req) } }
     else Some (mc, d, req) }"

text \<open>
  The bit of the line inside its page.  \<open>address - tag * 64\<close> is negative, that is, a huge
  unsigned number, for a page larger than 64 lines; the assertion then fails.
\<close>

definition line_bit :: "locals \<Rightarrow> (64 word) option" where
  "line_bit l = do {
     let b = int (l_address l) - int (l_tag l) * 64;
     assert_that (0 \<le> b \<and> b < 64);
     Some (push_bit (nat b) 1) }"

definition touch_line :: "locals \<Rightarrow> MemoryController \<Rightarrow> MemoryController option" where
  "touch_line l mc = do {
     b \<leftarrow> line_bit l;
     Some (upd_tlb (l_tag l) (\<lambda>e. e\<lparr>touch_bitvec := touch_bitvec e OR b,
       dirty_bitvec := (if l_type l = STORE then dirty_bitvec e OR b else dirty_bitvec e)\<rparr>) mc) }"

definition install :: "locals \<Rightarrow> nat \<Rightarrow> MemReq \<Rightarrow> MemoryController \<Rightarrow> MemoryController option" where
  "install l way req mc = do {
     let mc = upd_way (l_set l) way (\<lambda>w. w\<lparr>way_valid := True, way_tag := l_tag l, way_dirty := (req_type req = PUTX)\<rparr>) mc;
     let mc = upd_tlb (l_tag l) (\<lambda>e. e\<lparr>tlb_way := way\<rparr>) mc;
     if page_scheme (scheme (cfg mc))
     then touch_line l (upd_tlb (l_tag l) (\<lambda>e. e\<lparr>touch_bitvec := 0, dirty_bitvec := 0\<rparr>) mc)
     else Some mc }"

text \<open>A load hints the mapping of its page to the tag buffer if there is room.\<close>

definition hint_page :: "locals \<Rightarrow> MemoryController \<Rightarrow> MemoryController option" where
  "hint_page l mc =
     (if scheme (cfg mc) = HybridCache \<and> l_type l = LOAD
      then do {
        tb \<leftarrow> mc_tag_buffer mc;
        ok \<leftarrow> canInsert tb (l_tag l);
        if ok then do { tb \<leftarrow> tb_insert tb (l_tag l) False; Some (mc\<lparr>mc_tag_buffer := Some tb\<rparr>) }
        else Some mc }
      else Some mc)"

definition mc_miss ::
    "'d dram \<Rightarrow> locals \<Rightarrow> bool \<Rightarrow> MemoryController \<Rightarrow> 'd \<Rightarrow> MemReq \<Rightarrow>
     (cyc \<times> bool \<times> MemoryController \<times> 'd \<times> MemReq) option" where
  "mc_miss dram l hybrid_tag_probe mc d req = do {
     let cur_cycle = cycle req;
     let mc = mc\<lparr>step := (step mc)\<lparr>num_miss_per_step := num_miss_per_step (step mc) + 1\<rparr>\<rparr>;
     let mc = stat (if l_type l = LOAD then numLoadMiss_update Suc else numStoreMiss_update Suc) mc;
     (replace_way, counter_access, mc) \<leftarrow> choose_way l mc;
     (mc, d, req) \<leftarrow> ext_load dram l hybrid_tag_probe replace_way mc d req;
     let data_ready_cycle = cycle req;
     (mc, d, req) \<leftarrow>
       (if replace_way < num_ways (cfg mc)
        then do {
          (mc, d) \<leftarrow> fill_traffic dram l req mc d;
          (mc, d, req) \<leftarrow> evict dram l cur_cycle replace_way (stat (numPlacement_update Suc) mc) d req;
          mc \<leftarrow> install l replace_way req mc;
          Some (mc, d, req) }
        else do {
          mc \<leftarrow> hint_page l mc;
          assert_that (scheme (cfg mc) \<noteq> Tagless);
          Some (mc, d, req) });
     Some (data_ready_cycle, counter_access, mc, d, req) }"


section \<open>A hit\<close>

text \<open>One access to the in-package DRAM that sets \<open>req.cycle\<close>.\<close>

definition mcdram_access ::
    "'d dram \<Rightarrow> locals \<Rightarrow> nat \<Rightarrow> nat \<Rightarrow> MemReq \<Rightarrow> MemoryController \<Rightarrow> 'd \<Rightarrow> MemReq \<Rightarrow>
     (MemoryController \<times> 'd \<times> MemReq) option" where
  "mcdram_access dram l type sz r mc d req = do {
     (c, _, d) \<leftarrow> dram (McDram (l_select l)) r type sz d;
     Some (add_mc_bw sz mc, d, req\<lparr>cycle := c\<rparr>) }"

definition hit_line ::
    "'d dram \<Rightarrow> locals \<Rightarrow> MemoryController \<Rightarrow> 'd \<Rightarrow> MemReq \<Rightarrow> (MemoryController \<times> 'd \<times> MemReq) option" where
  "hit_line dram l mc d req =
     (case scheme (cfg mc) of
        AlloyCache \<Rightarrow> do {
          (mc, d, req) \<leftarrow>
            (if l_type l = LOAD \<and> sram_tag (cfg mc)
             then mcdram_access dram l 0 4 (sub_req req (l_mc_address l) GETX (cycle req)) mc d req
             else Some (mc, d, req));
          if l_type l = STORE
          then mcdram_access dram l 0 4 (sub_req req (l_mc_address l) PUTX (cycle req)) mc d req
          else Some (mc, d, req) }
      | UnisonCache \<Rightarrow>
          if l_type l = STORE
          then mcdram_access dram l 1 4 (sub_req req (l_mc_address l) PUTX (cycle req)) mc d req
          else Some (mc, d, req)
      | _ \<Rightarrow> Some (mc, d, req))"

definition hit_policy :: "locals \<Rightarrow> nat \<Rightarrow> MemoryController \<Rightarrow> (bool \<times> MemoryController) option" where
  "hit_policy l hit_way mc =
     (if scheme (cfg mc) = HybridCache \<or> scheme (cfg mc) = UnisonCache
      then do {
        pp \<leftarrow> page_placement_policy mc;
        (ca, pp) \<leftarrow> pp_handleCacheHit (view mc) pp (l_tag l) (l_type l) (l_set l) (cache mc ! l_set l) False hit_way;
        Some (ca, mc\<lparr>page_placement_policy := Some pp\<rparr>) }
      else let _ = (if scheme (cfg mc) = HMA then os_handleCacheAccess (l_tag l) (l_type l) else ()) in Some (False, mc))"

definition hit_hybrid ::
    "'d dram \<Rightarrow> locals \<Rightarrow> bool \<Rightarrow> MemoryController \<Rightarrow> 'd \<Rightarrow> MemReq \<Rightarrow> (MemoryController \<times> 'd \<times> MemReq) option" where
  "hit_hybrid dram l hybrid_tag_probe mc d req =
     (if \<not> hybrid_tag_probe
      then do {
        (mc, d, req) \<leftarrow> mcdram_access dram l 0 4 (req\<lparr>lineAddr := l_mc_address l\<rparr>) mc d req;
        mc \<leftarrow> hint_page l mc;
        mc \<leftarrow> touch_line l mc;
        Some (mc, d, req) }
      else do {
        assert_that (\<not> sram_tag (cfg mc));
        (mc, d, req) \<leftarrow> mcdram_access dram l 0 2 (sub_req req (l_mc_address l) GETS (cycle req)) mc d req;
        let mc = stat (numTagLoad_update Suc) mc;
        (mc, d, req) \<leftarrow> mcdram_access dram l 1 4 (req\<lparr>lineAddr := l_mc_address l\<rparr>) mc d req;
        mc \<leftarrow> touch_line l mc;
        Some (mc, d, req) })"

definition hit_page ::
    "'d dram \<Rightarrow> locals \<Rightarrow> bool \<Rightarrow> MemoryController \<Rightarrow> 'd \<Rightarrow> MemReq \<Rightarrow> (MemoryController \<times> 'd \<times> MemReq) option" where
  "hit_page dram l hybrid_tag_probe mc d req =
     (case scheme (cfg mc) of
        HybridCache \<Rightarrow> hit_hybrid dram l hybrid_tag_probe mc d req
      | Tagless \<Rightarrow> do {
          (mc, d, req) \<leftarrow> mcdram_access dram l 0 4 (req\<lparr>lineAddr := l_mc_address l\<rparr>) mc d req;
          mc \<leftarrow> touch_line l mc;
          Some (mc, d, req) }
      | HMA \<Rightarrow> mcdram_access dram l 0 4 (req\<lparr>lineAddr := l_mc_address l\<rparr>) mc d req
      | UnisonCache \<Rightarrow> do {
          (_, _, d) \<leftarrow> dram (McDram (l_select l)) (sub_req req (l_mc_address l) PUTX (cycle req)) 2 2 d;
          mc \<leftarrow> touch_line l (stat (numTagStore_update Suc) (add_mc_bw 2 mc));
          Some (mc, d, req) }
      | _ \<Rightarrow> Some (mc, d, req))"

definition mc_hit ::
    "'d dram \<Rightarrow> locals \<Rightarrow> bool \<Rightarrow> nat \<Rightarrow> MemoryController \<Rightarrow> 'd \<Rightarrow> MemReq \<Rightarrow>
     (cyc \<times> bool \<times> MemoryController \<times> 'd \<times> MemReq) option" where
  "mc_hit dram l hybrid_tag_probe hit_way mc d req = do {
     assert_that (ds_index mc \<le> l_set l);
     (mc, d, req) \<leftarrow> hit_line dram l mc d req;
     let mc = mc\<lparr>step := (step mc)\<lparr>num_hit_per_step := num_hit_per_step (step mc) + 1\<rparr>\<rparr>;
     (counter_access, mc) \<leftarrow> hit_policy l hit_way mc;
     let mc = (if req_type req = PUTX
               then upd_way (l_set l) hit_way (\<lambda>w. w\<lparr>way_dirty := True\<rparr>) (stat (numStoreHit_update Suc) mc)
               else stat (numLoadHit_update Suc) mc);
     (mc, d, req) \<leftarrow> hit_page dram l hybrid_tag_probe mc d req;
     Some (cycle req, counter_access, mc, d, req) }"

section \<open>The end of an access\<close>

definition mc_counter ::
    "'d dram \<Rightarrow> locals \<Rightarrow> bool \<Rightarrow> MemoryController \<Rightarrow> 'd \<Rightarrow> MemReq \<Rightarrow> (MemoryController \<times> 'd) option" where
  "mc_counter dram l counter_access mc d req =
     (if counter_access \<and> \<not> sram_tag (cfg mc)
      then do {
        assert_that (ds_index mc \<le> l_set l);
        (_, _, d) \<leftarrow> dram (McDram (l_select l)) (sub_req req (l_mc_address l) GETS (cycle req)) 2 2 d;
        (_, _, d) \<leftarrow> dram (McDram (l_select l)) (sub_req req (l_mc_address l) PUTX (cycle req)) 2 2 d;
        Some (add_mc_bw 4 (stat (numCounterAccess_update Suc) mc), d) }
      else Some (mc, d))"

definition flush_tag_buffer :: "cyc \<Rightarrow> TagBuffer \<Rightarrow> TagBuffer" where
  "flush_tag_buffer c tb = setClearTime (clearTagBuffer tb) c"

definition mc_flush :: "MemReq \<Rightarrow> MemoryController \<Rightarrow> MemoryController option" where
  "mc_flush req mc =
     (if scheme (cfg mc) = HybridCache
      then do {
        tb \<leftarrow> mc_tag_buffer mc;
        if rnd (7 / 10) < getOccupancy tb
        then Some (stat (numTagBufferFlush_update Suc) (mc\<lparr>mc_tag_buffer := Some (flush_tag_buffer (cycle req) tb)\<rparr>))
        else Some mc }
      else Some mc)"

definition mc_remap_os :: "MemoryController \<Rightarrow> MemoryController option" where
  "mc_remap_os mc =
     (if scheme (cfg mc) = HMA
      then do {
        assert_that (os_quantum (cfg mc) \<noteq> 0);
        Some (if num_requests mc mod os_quantum (cfg mc) = 0
              then stat (numPlacement_update (\<lambda>n. n + os_remapPages * 2)) mc else mc) }
      else Some mc)"

text \<open>
  Rebalancing in- and off-package bandwidth.  \<open>delta_index\<close> is how far the first set that is used
  moves: nothing if the bandwidth ratio is near the target.
\<close>

definition delta_index :: "mc_config \<Rightarrow> StepStats \<Rightarrow> int" where
  "delta_index c st =
     (let ratio = ddiv (dmul 1 (dnat (mc_bw_per_step st))) (dnat (mc_bw_per_step st + ext_bw_per_step st));
          target_ratio = rnd (8 / 10);
          index_step = num_sets c div 1000;
          diff = dsub ratio target_ratio
      in if - rnd (2 / 100) < diff \<and> diff < rnd (2 / 100) then 0
         else dtrunc (ddiv (dmul (dnat index_step) diff) (rnd (1 / 100))))"

definition rebalance_remap :: "MemReq \<Rightarrow> address \<Rightarrow> MemoryController \<Rightarrow> MemoryController option" where
  "rebalance_remap req tag mc = do {
     let mc = upd_tlb tag (\<lambda>e. e\<lparr>tlb_way := num_ways (cfg mc)\<rparr>) mc;
     tb \<leftarrow> mc_tag_buffer mc;
     ok \<leftarrow> canInsert tb tag;
     let (tb, mc) = (if ok then (tb, mc)
                     else (flush_tag_buffer (cycle req) tb, stat (numTagBufferFlush_update Suc) mc));
     ok \<leftarrow> canInsert tb tag;
     assert_that ok;
     tb \<leftarrow> tb_insert tb tag True;
     Some (mc\<lparr>mc_tag_buffer := Some tb\<rparr>) }"

definition rebalance_way ::
    "'d dram \<Rightarrow> MemReq \<Rightarrow> nat \<Rightarrow> nat \<Rightarrow> nat \<Rightarrow> MemoryController \<times> 'd \<Rightarrow> (MemoryController \<times> 'd) option" where
  "rebalance_way dram req ch s way = (\<lambda>(mc, d). do {
     let meta = way_at mc s way;
     let sz = granularity (cfg mc) div 64 * 4;
     (mc, d) \<leftarrow>
       (if way_valid meta \<and> way_dirty meta
        then do {
          (_, _, d) \<leftarrow> dram (McDram ch) (sub_req req (way_tag meta * 64) GETS (cycle req)) 2 sz d;
          (_, _, d) \<leftarrow> dram ExtDram (sub_req req (way_tag meta * 64) GETS (cycle req)) 2 sz d;
          Some (add_mc_bw sz (add_ext_bw sz mc), d) }
        else Some (mc, d));
     mc \<leftarrow>
       (if scheme (cfg mc) = HybridCache \<and> way_valid meta then rebalance_remap req (way_tag meta) mc
        else Some mc);
     Some (upd_way s way (\<lambda>w. w\<lparr>way_valid := False, way_dirty := False\<rparr>) mc, d) })"

definition rebalance_set ::
    "'d dram \<Rightarrow> MemReq \<Rightarrow> nat \<Rightarrow> nat \<Rightarrow> MemoryController \<times> 'd \<Rightarrow> (MemoryController \<times> 'd) option" where
  "rebalance_set dram req ch s = (\<lambda>(mc, d). do {
     (mc, d) \<leftarrow> foldM (\<lambda>way. rebalance_way dram req ch s way) [0..<num_ways (cfg mc)] (mc, d);
     if scheme (cfg mc) = HybridCache
     then do {
       pp \<leftarrow> page_placement_policy mc;
       Some (mc\<lparr>page_placement_policy := Some (flushChunk pp s)\<rparr>, d) }
     else Some (mc, d) })"

definition mc_rebalance ::
    "'d dram \<Rightarrow> MemReq \<Rightarrow> MemoryController \<Rightarrow> 'd \<Rightarrow> (MemoryController \<times> 'd) option" where
  "mc_rebalance dram req mc d = do {
     let delta = delta_index (cfg mc) (step mc);
     let ds = ds_index mc;
     (mc, d) \<leftarrow>
       (if 0 < delta
        then foldM (\<lambda>ch. foldM (\<lambda>s. rebalance_set dram req ch s) [ds..<min (ds + nat delta) (num_sets (cfg mc))])
               [0..<mcdram_per_mc (cfg mc)] (mc, d)
        else Some (mc, d));
     Some (mc\<lparr>ds_index := (if int ds + delta \<le> 0 then 0 else nat (int ds + delta))\<rparr>, d) }"

definition halve_step :: "StepStats \<Rightarrow> StepStats" where
  "halve_step st =
     \<lparr>num_hit_per_step = num_hit_per_step st div 2, num_miss_per_step = num_miss_per_step st div 2,
      mc_bw_per_step = mc_bw_per_step st div 2, ext_bw_per_step = ext_bw_per_step st div 2\<rparr>"

definition mc_step ::
    "'d dram \<Rightarrow> MemReq \<Rightarrow> MemoryController \<Rightarrow> 'd \<Rightarrow> (MemoryController \<times> 'd) option" where
  "mc_step dram req mc d = do {
     let step_length = cache_size (cfg mc) div 64 div 10;
     assert_that (step_length \<noteq> 0);
     if num_requests mc mod step_length = 0
     then do {
       let mc = mc\<lparr>step := halve_step (step mc)\<rparr>;
       if bw_balance (cfg mc) \<and> 0 < mc_bw_per_step (step mc) + ext_bw_per_step (step mc)
       then mc_rebalance dram req mc d
       else Some (mc, d) }
     else Some (mc, d) }"

section \<open>The whole access\<close>

definition mc_cached ::
    "'d dram \<Rightarrow> locals \<Rightarrow> MemoryController \<Rightarrow> 'd \<Rightarrow> MemReq \<Rightarrow> (cyc \<times> MemoryController \<times> 'd) option" where
  "mc_cached dram l mc d req = do {
     (hit_way, hybrid_tag_probe, mc, d, req) \<leftarrow> mc_probe dram l mc d req;
     (data_ready_cycle, counter_access, mc, d, req) \<leftarrow>
       (if hit_way \<noteq> num_ways (cfg mc) then mc_hit dram l hybrid_tag_probe hit_way mc d req
        else mc_miss dram l hybrid_tag_probe mc d req);
     (mc, d) \<leftarrow> mc_counter dram l counter_access mc d req;
     mc \<leftarrow> mc_flush req mc;
     mc \<leftarrow> mc_remap_os mc;
     (mc, d) \<leftarrow> mc_step dram req mc d;
     Some (data_ready_cycle, mc, d) }"

text \<open>
  The result is the response cycle, the coherence state written through \<open>req.state\<close>, and the new
  states.  Accesses to the memories with \<open>req\<close> itself write the same coherence state again.
\<close>

definition mc_access ::
    "'d dram \<Rightarrow> MemoryController \<Rightarrow> 'd \<Rightarrow> MemReq \<Rightarrow> (cyc \<times> MESIState \<times> MemoryController \<times> 'd) option" where
  "mc_access dram mc d req =
     (if req_type req = PUTS then Some (cycle req, mem_grant req, mc, d)
      else do {
        mc \<leftarrow> mc_trace req mc;
        let mc = mc\<lparr>num_requests := num_requests mc + 1\<rparr>;
        if scheme (cfg mc) = NoCache
        then do {
          (c, st, d) \<leftarrow> dram ExtDram req 0 4 d;
          Some (c, st, stat (numLoadHit_update Suc) mc, d) }
        else do {
          l \<leftarrow> mc_split (cfg mc) req;
          if scheme (cfg mc) = CacheOnly
          then do {
            (c, st, d) \<leftarrow> dram (McDram (l_select l)) (req\<lparr>lineAddr := l_mc_address l\<rparr>) 0 4 d;
            Some (c, st, stat (numLoadHit_update Suc) mc, d) }
          else do {
            (c, mc, d) \<leftarrow> mc_cached dram l mc d req;
            Some (c, mem_grant req, mc, d) } } })"

end
