(* ===== verification/Mc_Inv.thy ===== *)
theory Mc_Inv
  imports Mc
begin

text \<open>
  The invariant of the memory controller and the lemmas on its data that do not involve the memories:
  the page table (\<open>_tlb\<close>) and the tag store (\<open>_cache\<close>) describe the same set of cached pages, a cached
  page has touched lines, its dirty bit says whether it has dirty lines, no cached page lies in
  the sets that bandwidth balancing has switched off, and the placement policy and the tag buffer are
  in step with the tag store.
\<close>

section \<open>Configurations\<close>

definition cfg_ok :: "mc_config \<Rightarrow> bool" where
  "cfg_ok c \<longleftrightarrow> scheme c = NoCache \<or>
     0 < mcdram_per_mc c \<and> 0 < num_sets c \<and> 0 < num_ways c \<and> 640 \<le> cache_size c \<and>
     (bw_balance c \<longrightarrow> scheme c = AlloyCache \<or> scheme c = HybridCache) \<and>
     (case scheme c of
        AlloyCache \<Rightarrow> granularity c = 64 \<and> num_ways c = 1
      | UnisonCache \<Rightarrow> granularity c = 4096
      | HMA \<Rightarrow> granularity c = 4096 \<and> os_quantum c \<noteq> 0
      | HybridCache \<Rightarrow> granularity c = 4096
      | Tagless \<Rightarrow> granularity c = 4096 \<and> num_sets c = 1
      | NoCache \<Rightarrow> True
      | CacheOnly \<Rightarrow> 64 \<le> granularity c)"

definition cached_scheme :: "Scheme \<Rightarrow> bool" where
  "cached_scheme sch \<longleftrightarrow> sch \<noteq> NoCache \<and> sch \<noteq> CacheOnly"

lemma cfg_okD [wf_dest]:
  assumes "cfg_ok c" "cached_scheme (scheme c)"
  shows "0 < mcdram_per_mc c" "0 < num_sets c" "0 < num_ways c" "cache_size c div 64 div 10 \<noteq> 0"
    and "scheme c = AlloyCache \<Longrightarrow> granularity c = 64 \<and> num_ways c = 1"
    and "scheme c \<noteq> AlloyCache \<Longrightarrow> granularity c = 4096"
    and "scheme c = HMA \<Longrightarrow> os_quantum c \<noteq> 0"
    and "bw_balance c \<Longrightarrow> scheme c = AlloyCache \<or> scheme c = HybridCache"
  using assms by (auto simp: cfg_ok_def cached_scheme_def div_greater_zero_iff split: Scheme.splits)

section \<open>The page table and the tag store\<close>

definition shape_ok :: "mc_config \<Rightarrow> Set list \<Rightarrow> bool" where
  "shape_ok c cs \<longleftrightarrow> length cs = num_sets c \<and> (\<forall>s < num_sets c. length (cs ! s) = num_ways c)"

definition way_ok :: "mc_config \<Rightarrow> (address \<rightharpoonup> TLBEntry) \<Rightarrow> nat \<Rightarrow> nat \<Rightarrow> nat \<Rightarrow> Way \<Rightarrow> bool" where
  "way_ok c t ds s w x \<longleftrightarrow>
     (way_valid x \<longrightarrow>
        way_tag x mod num_sets c = s \<and> ds \<le> s \<and>
        (\<exists>e. t (way_tag x) = Some e \<and> tlb_way e = w \<and>
             (page_scheme (scheme c) \<longrightarrow> touch_bitvec e \<noteq> 0) \<and>
             (scheme c = UnisonCache \<or> scheme c = Tagless \<longrightarrow> (way_dirty x \<longleftrightarrow> dirty_bitvec e \<noteq> 0))))"

definition maps_ok :: "mc_config \<Rightarrow> Set list \<Rightarrow> address \<Rightarrow> TLBEntry \<Rightarrow> bool" where
  "maps_ok c cs tag e \<longleftrightarrow>
     tlb_way e = num_ways c \<or>
     tlb_way e < num_ways c \<and> way_valid (cs ! (tag mod num_sets c) ! tlb_way e) \<and>
     way_tag (cs ! (tag mod num_sets c) ! tlb_way e) = tag"

definition pages_ok :: "mc_config \<Rightarrow> Set list \<Rightarrow> (address \<rightharpoonup> TLBEntry) \<Rightarrow> nat \<Rightarrow> bool" where
  "pages_ok c cs t ds \<longleftrightarrow>
     (\<forall>s < num_sets c. \<forall>w < num_ways c. way_ok c t ds s w (cs ! s ! w)) \<and>
     (\<forall>tag e. t tag = Some e \<longrightarrow> maps_ok c cs tag e)"

lemma pages_okD [wf_dest]:
  assumes "pages_ok c cs t ds"
  shows "\<And>s w. s < num_sets c \<Longrightarrow> w < num_ways c \<Longrightarrow> way_ok c t ds s w (cs ! s ! w)"
    and "\<And>tag e. t tag = Some e \<Longrightarrow> maps_ok c cs tag e"
  using assms by (simp_all add: pages_ok_def)

lemma way_okD:
  assumes "way_ok c t ds s w x" "way_valid x"
  obtains e where "way_tag x mod num_sets c = s" "ds \<le> s" "t (way_tag x) = Some e" "tlb_way e = w"
    "page_scheme (scheme c) \<Longrightarrow> touch_bitvec e \<noteq> 0"
    "scheme c = UnisonCache \<or> scheme c = Tagless \<Longrightarrow> way_dirty x \<longleftrightarrow> dirty_bitvec e \<noteq> 0"
  using assms unfolding way_ok_def by blast

lemma way_ok_cong:
  "way_ok c t ds s w x \<Longrightarrow> (way_valid x \<Longrightarrow> t' (way_tag x) = t (way_tag x)) \<Longrightarrow> way_ok c t' ds s w x"
  by (simp add: way_ok_def)

text \<open>
  Replacing one way of the tag store and updating the page table: the other cached pages keep their
  entries, the new way is fine, and every entry that claims a way either kept it or claims the new one.
\<close>

lemma pages_ok_update:
  assumes ok: "pages_ok c cs t ds" and sh: "shape_ok c cs" and s: "s < num_sets c" "w < num_ways c"
    and others: "\<And>s' w'. s' < num_sets c \<Longrightarrow> w' < num_ways c \<Longrightarrow> (s', w') \<noteq> (s, w) \<Longrightarrow>
        way_valid (cs ! s' ! w') \<Longrightarrow> t' (way_tag (cs ! s' ! w')) = t (way_tag (cs ! s' ! w'))"
    and new: "way_ok c t' ds s w x"
    and maps: "\<And>tag e. t' tag = Some e \<Longrightarrow> tlb_way e \<noteq> num_ways c \<Longrightarrow>
        t tag = Some e \<and> (tag mod num_sets c, tlb_way e) \<noteq> (s, w) \<or>
        tag mod num_sets c = s \<and> tlb_way e = w \<and> way_valid x \<and> way_tag x = tag"
  shows "pages_ok c (cs[s := (cs ! s)[w := x]]) t' ds"
proof -
  have len: "length cs = num_sets c" "length (cs ! s) = num_ways c" using sh s by (auto simp: shape_ok_def)
  have nth: "cs[s := (cs ! s)[w := x]] ! s' ! w' = (if s' = s \<and> w' = w then x else cs ! s' ! w')"
    if "s' < num_sets c" "w' < num_ways c" for s' w'
    using that len by (auto simp: nth_list_update_if)
  have 1: "way_ok c t' ds s' w' (cs[s := (cs ! s)[w := x]] ! s' ! w')" if "s' < num_sets c" "w' < num_ways c" for s' w'
    using nth [OF that] new way_ok_cong [OF pages_okD(1) [OF ok that], of t'] others [OF that]
    by (cases "s' = s \<and> w' = w") auto
  have 2: "maps_ok c (cs[s := (cs ! s)[w := x]]) tag e" if "t' tag = Some e" for tag e
  proof (cases "tlb_way e = num_ways c")
    case False
    have "tag mod num_sets c < num_sets c" using s by simp
    then show ?thesis
      using maps [OF that False] pages_okD(2) [OF ok, of tag e] nth [of "tag mod num_sets c" "tlb_way e"] s False
      by (auto simp: maps_ok_def)
  qed (simp add: maps_ok_def)
  show ?thesis using 1 2 by (simp add: pages_ok_def)
qed

lemma shape_ok_update:
  "shape_ok c cs \<Longrightarrow> s < num_sets c \<Longrightarrow> shape_ok c (cs[s := (cs ! s)[w := x]])"
  by (auto simp: shape_ok_def nth_list_update)

text \<open>A page is cached where its entry says, and nowhere else.\<close>

lemma mapped_unique:
  assumes ok: "pages_ok c cs t ds" and s: "s < num_sets c" "w < num_ways c"
    and v: "way_valid (cs ! s ! w)" and e: "t (way_tag (cs ! s ! w)) = Some e"
  shows "tlb_way e = w" and "way_tag (cs ! s ! w) mod num_sets c = s"
  using way_okD [OF pages_okD(1) [OF ok s] v] e by auto

lemma not_cached:
  assumes ok: "pages_ok c cs t ds" and sh: "shape_ok c cs" and e: "t tag = Some e" "tlb_way e = num_ways c"
    and s: "s < num_sets c"
  shows "\<not> tag_in (cs ! s) tag"
proof
  assume "tag_in (cs ! s) tag"
  then obtain w where w: "w < num_ways c" "way_valid (cs ! s ! w)" "way_tag (cs ! s ! w) = tag"
    using sh s by (auto simp: tag_in_def in_set_conv_nth shape_ok_def)
  then show False using mapped_unique(1) [OF ok s w(1,2)] e by simp
qed


section \<open>Bits and footprints\<close>

lemma popcount_le: "popcount w \<le> 64"
  using length_filter_le [of "\<lambda>i. bit w i" "[0..<64]"] by (simp add: popcount_def)

lemma popcount_pos: "0 < popcount w \<longleftrightarrow> w \<noteq> 0"
proof -
  have "popcount w = 0 \<longleftrightarrow> (\<forall>i < 64. \<not> bit w i)"
    by (auto simp: popcount_def filter_empty_conv)
  also have "\<dots> \<longleftrightarrow> w = 0"
    by (auto simp: bit_eq_iff)
  finally show ?thesis by auto
qed

lemma or_nonzero: "(b::64 word) \<noteq> 0 \<Longrightarrow> a OR b \<noteq> 0"
  using or_eq_0_iff [of a b] by blast

text \<open>What \<open>mc_split\<close> gives for a configuration with pages of 4096 bytes or lines of 64.\<close>

definition locals_ok :: "mc_config \<Rightarrow> MemReq \<Rightarrow> locals \<Rightarrow> bool" where
  "locals_ok c req l \<longleftrightarrow>
     l_set l = l_tag l mod num_sets c \<and> l_set l < num_sets c \<and> l_select l < mcdram_per_mc c \<and>
     (l_type l = STORE \<longleftrightarrow> req_type req = PUTX) \<and>
     (scheme c \<noteq> AlloyCache \<longrightarrow> l_tag l = l_address l div 64)"

lemma mc_split_ok:
  assumes "cfg_ok c" "cached_scheme (scheme c)" "req_type req \<noteq> PUTS"
  shows "\<exists>l. mc_split c req = Some l \<and> locals_ok c req l"
proof -
  note D = cfg_okD [OF assms(1,2)]
  have "0 < granularity c div 64" using D(5,6) by (cases "scheme c = AlloyCache") auto
  then show ?thesis using D(1,2,6) assms(3)
    by (cases "req_type req") (simp_all add: mc_split_def locals_ok_def Let_def)
qed

lemma line_bit_ok:
  assumes "locals_ok c req l" "scheme c \<noteq> AlloyCache"
  shows "\<exists>b. line_bit l = Some b \<and> b \<noteq> 0"
proof -
  have tag: "l_tag l = l_address l div 64" using assms by (simp add: locals_ok_def)
  define k where "k = l_address l mod 64"
  have k: "int (l_address l) - int (l_tag l) * 64 = int k" "k < 64"
    using tag by (simp_all add: k_def of_nat_mod of_nat_div minus_div_mult_eq_mod)
  have "push_bit k (1::64 word) \<noteq> 0" using k(2) by auto
  then show ?thesis using k by (simp add: line_bit_def)
qed

section \<open>Transitions of the page table and the tag store\<close>

lemma pages_ok_fresh:
  assumes ok: "pages_ok c cs t ds" and none: "t tag = None" and e: "tlb_way e = num_ways c"
  shows "pages_ok c cs (t(tag \<mapsto> e)) ds"
proof -
  have "way_ok c (t(tag \<mapsto> e)) ds s w (cs ! s ! w)" if "s < num_sets c" "w < num_ways c" for s w
    by (rule way_ok_cong [OF pages_okD(1) [OF ok that]])
      (use pages_okD(1) [OF ok that] none in \<open>auto simp: way_ok_def\<close>)
  moreover have "maps_ok c cs tag' e'" if "(t(tag \<mapsto> e)) tag' = Some e'" for tag' e'
    using that e pages_okD(2) [OF ok, of tag' e'] by (auto simp: maps_ok_def split: if_splits)
  ultimately show ?thesis by (simp add: pages_ok_def)
qed

lemma cached_at:
  assumes ok: "pages_ok c cs t ds" and s: "s < num_sets c" "w < num_ways c"
    and v: "way_valid (cs ! s ! w)" "way_tag (cs ! s ! w) = tag" and e: "t tag = Some e"
  shows "tlb_way e = w" and "tag mod num_sets c = s" and "ds \<le> s"
    and "page_scheme (scheme c) \<Longrightarrow> touch_bitvec e \<noteq> 0"
    and "scheme c = UnisonCache \<or> scheme c = Tagless \<Longrightarrow> way_dirty (cs ! s ! w) \<longleftrightarrow> dirty_bitvec e \<noteq> 0"
  using way_okD [OF pages_okD(1) [OF ok s] v(1)] e unfolding v(2) by auto

lemma cached_entry:
  assumes ok: "pages_ok c cs t ds" and s: "s < num_sets c" "w < num_ways c"
    and v: "way_valid (cs ! s ! w)" "way_tag (cs ! s ! w) = tag"
  obtains e where "t tag = Some e"
  using way_okD [OF pages_okD(1) [OF ok s] v(1)] unfolding v(2) by blast

lemma cached_once:
  assumes ok: "pages_ok c cs t ds" and s: "s < num_sets c" "w < num_ways c"
    and v: "way_valid (cs ! s ! w)" "way_tag (cs ! s ! w) = tag"
    and s': "s' < num_sets c" "w' < num_ways c"
    and v': "way_valid (cs ! s' ! w')" "way_tag (cs ! s' ! w') = tag"
  shows "s' = s" "w' = w"
proof -
  obtain e where e: "t tag = Some e" by (rule cached_entry [OF ok s v])
  show "s' = s" "w' = w" using cached_at [OF ok s v e] cached_at [OF ok s' v' e] by simp_all
qed

text \<open>A hit: the way may become dirty, and the bits of the line are added.\<close>

lemma pages_ok_touch:
  assumes ok: "pages_ok c cs t ds" and sh: "shape_ok c cs" and s: "s < num_sets c" "w < num_ways c"
    and v: "way_valid (cs ! s ! w)" "way_tag (cs ! s ! w) = tag"
    and x: "way_valid x" "way_tag x = tag" and e': "tlb_way e' = w"
    and touch: "page_scheme (scheme c) \<Longrightarrow> touch_bitvec e' \<noteq> 0"
    and dirty: "scheme c = UnisonCache \<or> scheme c = Tagless \<Longrightarrow> way_dirty x \<longleftrightarrow> dirty_bitvec e' \<noteq> 0"
  shows "pages_ok c (cs[s := (cs ! s)[w := x]]) (t(tag \<mapsto> e')) ds"
proof (rule pages_ok_update [OF ok sh s])
  obtain e where e: "t tag = Some e" by (rule cached_entry [OF ok s v])
  note w = cached_at [OF ok s v e]
  show "(t(tag \<mapsto> e')) (way_tag (cs ! s' ! w')) = t (way_tag (cs ! s' ! w'))"
    if "s' < num_sets c" "w' < num_ways c" "(s', w') \<noteq> (s, w)" "way_valid (cs ! s' ! w')" for s' w'
  proof -
    have "way_tag (cs ! s' ! w') \<noteq> tag" using cached_once [OF ok s v that(1,2,4)] that(3) by blast
    then show ?thesis by simp
  qed
  show "way_ok c (t(tag \<mapsto> e')) ds s w x" using w(2,3) x e' touch dirty by (simp add: way_ok_def)
  show "t tag' = Some e1 \<and> (tag' mod num_sets c, tlb_way e1) \<noteq> (s, w) \<or>
      tag' mod num_sets c = s \<and> tlb_way e1 = w \<and> way_valid x \<and> way_tag x = tag'"
    if "(t(tag \<mapsto> e')) tag' = Some e1" "tlb_way e1 \<noteq> num_ways c" for tag' e1
  proof (cases "tag' = tag")
    case True
    then show ?thesis using that(1) w(2) x e' by simp
  next
    case False
    then have t: "t tag' = Some e1" using that(1) by simp
    have m: "maps_ok c cs tag' e1" by (rule pages_okD(2) [OF ok t])
    have "(tag' mod num_sets c, tlb_way e1) \<noteq> (s, w)"
    proof
      assume "(tag' mod num_sets c, tlb_way e1) = (s, w)"
      then show False using m that(2) v(2) False by (simp add: maps_ok_def)
    qed
    then show ?thesis using t by blast
  qed
qed


text \<open>Dropping a page from its way, and filling an empty way.\<close>

lemma pages_ok_drop:
  assumes ok: "pages_ok c cs t ds" and sh: "shape_ok c cs" and s: "s < num_sets c" "w < num_ways c"
    and x: "\<not> way_valid x" and e': "tlb_way e' = num_ways c"
  shows "pages_ok c (cs[s := (cs ! s)[w := x]])
    (if way_valid (cs ! s ! w) then t(way_tag (cs ! s ! w) \<mapsto> e') else t) ds" (is "pages_ok c _ ?t ds")
proof (rule pages_ok_update [OF ok sh s])
  define tag where "tag = way_tag (cs ! s ! w)"
  note t = tag_def [symmetric]
  show "?t (way_tag (cs ! s' ! w')) = t (way_tag (cs ! s' ! w'))"
    if "s' < num_sets c" "w' < num_ways c" "(s', w') \<noteq> (s, w)" "way_valid (cs ! s' ! w')" for s' w'
  proof -
    have "way_tag (cs ! s' ! w') \<noteq> tag" if "way_valid (cs ! s ! w)"
      using cached_once [OF ok s that t \<open>s' < _\<close> \<open>w' < _\<close> \<open>way_valid (cs ! s' ! w')\<close>] \<open>(s', w') \<noteq> (s, w)\<close> by blast
    then show ?thesis by (simp add: t)
  qed
  show "way_ok c ?t ds s w x" using x by (simp add: way_ok_def)
  show "t tag' = Some e1 \<and> (tag' mod num_sets c, tlb_way e1) \<noteq> (s, w) \<or>
      tag' mod num_sets c = s \<and> tlb_way e1 = w \<and> way_valid x \<and> way_tag x = tag'"
    if "?t tag' = Some e1" "tlb_way e1 \<noteq> num_ways c" for tag' e1
  proof -
    have ne: "\<not> (way_valid (cs ! s ! w) \<and> tag' = tag)" using that e' by (auto simp: t)
    then have t1: "t tag' = Some e1" using that(1) by (auto simp: t split: if_splits)
    have "maps_ok c cs tag' e1" by (rule pages_okD(2) [OF ok t1])
    then have m: "way_valid (cs ! (tag' mod num_sets c) ! tlb_way e1)" "way_tag (cs ! (tag' mod num_sets c) ! tlb_way e1) = tag'"
      using that(2) by (simp_all add: maps_ok_def)
    have "(tag' mod num_sets c, tlb_way e1) \<noteq> (s, w)"
    proof
      assume "(tag' mod num_sets c, tlb_way e1) = (s, w)"
      then show False using m ne by (simp add: tag_def)
    qed
    then show ?thesis using t1 by blast
  qed
qed

lemma pages_ok_fill:
  assumes ok: "pages_ok c cs t ds" and sh: "shape_ok c cs" and s: "s < num_sets c" "w < num_ways c"
    and inv: "\<not> way_valid (cs ! s ! w)" and new: "\<And>s'. s' < num_sets c \<Longrightarrow> \<not> tag_in (cs ! s') tag"
    and x: "way_valid x" "way_tag x = tag" "tag mod num_sets c = s" "ds \<le> s" and e': "tlb_way e' = w"
    and touch: "page_scheme (scheme c) \<Longrightarrow> touch_bitvec e' \<noteq> 0"
    and dirty: "scheme c = UnisonCache \<or> scheme c = Tagless \<Longrightarrow> way_dirty x \<longleftrightarrow> dirty_bitvec e' \<noteq> 0"
  shows "pages_ok c (cs[s := (cs ! s)[w := x]]) (t(tag \<mapsto> e')) ds"
proof (rule pages_ok_update [OF ok sh s])
  show "(t(tag \<mapsto> e')) (way_tag (cs ! s' ! w')) = t (way_tag (cs ! s' ! w'))"
    if "s' < num_sets c" "w' < num_ways c" "(s', w') \<noteq> (s, w)" "way_valid (cs ! s' ! w')" for s' w'
  proof -
    have "length (cs ! s') = num_ways c" using sh that(1) by (simp add: shape_ok_def)
    then have "way_tag (cs ! s' ! w') \<noteq> tag" using new [OF that(1)] tag_inI [of w' "cs ! s'"] that by auto
    then show ?thesis by simp
  qed
  show "way_ok c (t(tag \<mapsto> e')) ds s w x" using x e' touch dirty by (simp add: way_ok_def)
  show "t tag' = Some e1 \<and> (tag' mod num_sets c, tlb_way e1) \<noteq> (s, w) \<or>
      tag' mod num_sets c = s \<and> tlb_way e1 = w \<and> way_valid x \<and> way_tag x = tag'"
    if "(t(tag \<mapsto> e')) tag' = Some e1" "tlb_way e1 \<noteq> num_ways c" for tag' e1
  proof (cases "tag' = tag")
    case True
    then show ?thesis using that(1) x e' by simp
  next
    case False
    then have t1: "t tag' = Some e1" using that(1) by simp
    have "maps_ok c cs tag' e1" by (rule pages_okD(2) [OF ok t1])
    then have "way_valid (cs ! (tag' mod num_sets c) ! tlb_way e1)" using that(2) by (simp add: maps_ok_def)
    then have "(tag' mod num_sets c, tlb_way e1) \<noteq> (s, w)" using inv by auto
    then show ?thesis using t1 by blast
  qed
qed

lemma pages_ok_install:
  assumes ok: "pages_ok c cs t ds" and sh: "shape_ok c cs" and s: "s < num_sets c" "w < num_ways c"
    and new: "\<And>s'. s' < num_sets c \<Longrightarrow> \<not> tag_in (cs ! s') tag"
    and x: "way_valid x" "way_tag x = tag" "tag mod num_sets c = s" "ds \<le> s"
    and e0: "tlb_way e0 = num_ways c" and e': "tlb_way e' = w"
    and touch: "page_scheme (scheme c) \<Longrightarrow> touch_bitvec e' \<noteq> 0"
    and dirty: "scheme c = UnisonCache \<or> scheme c = Tagless \<Longrightarrow> way_dirty x \<longleftrightarrow> dirty_bitvec e' \<noteq> 0"
  shows "pages_ok c (cs[s := (cs ! s)[w := x]])
    ((if way_valid (cs ! s ! w) then t(way_tag (cs ! s ! w) \<mapsto> e0) else t)(tag \<mapsto> e')) ds"
proof -
  define x0 where "x0 = x\<lparr>way_valid := False\<rparr>"
  define cs0 where "cs0 = cs[s := (cs ! s)[w := x0]]"
  have len: "length cs = num_sets c" "length (cs ! s) = num_ways c" using sh s by (auto simp: shape_ok_def)
  have ok0: "pages_ok c cs0 (if way_valid (cs ! s ! w) then t(way_tag (cs ! s ! w) \<mapsto> e0) else t) ds"
    unfolding cs0_def by (rule pages_ok_drop [OF ok sh s _ e0]) (simp add: x0_def)
  have sh0: "shape_ok c cs0" unfolding cs0_def by (rule shape_ok_update [OF sh s(1)])
  have new0: "\<not> tag_in (cs0 ! s') tag" if "s' < num_sets c" for s'
    using new [OF that] len s
    by (auto simp: cs0_def tag_in_def nth_list_update x0_def dest!: set_update_subset_insert [THEN subsetD])
  have x0: "\<not> way_valid (cs0 ! s ! w)" using len s by (simp add: cs0_def x0_def)
  have "cs0[s := (cs0 ! s)[w := x]] = cs[s := (cs ! s)[w := x]]" using len s by (simp add: cs0_def)
  then show ?thesis
    using pages_ok_fill [OF ok0 sh0 s x0 new0 x e' touch dirty] by simp
qed


section \<open>The invariant of the controller\<close>

definition trace_ok :: "MemoryController \<Rightarrow> bool" where
  "trace_ok mc \<longleftrightarrow>
     (collect_trace (cfg mc) \<and> mc_name (cfg mc) = ''mem-0'' \<longrightarrow>
        cur_trace_len (trace mc) < max_trace_len (cfg mc) \<and>
        length (address_trace (trace mc)) = max_trace_len (cfg mc) \<and>
        length (type_trace (trace mc)) = max_trace_len (cfg mc))"

definition policy_ok :: "mc_config \<Rightarrow> Set list \<Rightarrow> PagePlacementPolicy \<Rightarrow> bool" where
  "policy_ok c cs pp \<longleftrightarrow>
     pp_ok (num_ways c) (num_sets c) cs pp \<and> pp_scheme pp = scheme c \<and>
     (scheme c = UnisonCache \<longrightarrow> placement_policy pp = LRU)"

definition has_policy :: "mc_config \<Rightarrow> Set list \<Rightarrow> PagePlacementPolicy option \<Rightarrow> bool" where
  "has_policy c cs p \<longleftrightarrow>
     (scheme c = UnisonCache \<or> scheme c = HybridCache \<longrightarrow> (\<exists>pp. p = Some pp \<and> policy_ok c cs pp))"

definition has_buffer :: "mc_config \<Rightarrow> TagBuffer option \<Rightarrow> bool" where
  "has_buffer c b \<longleftrightarrow> (scheme c = HybridCache \<longrightarrow> (\<exists>tb. b = Some tb \<and> tb_inv tb))"

definition state_ok :: "MemoryController \<Rightarrow> bool" where
  "state_ok mc \<longleftrightarrow>
     cfg_ok (cfg mc) \<and> cached_scheme (scheme (cfg mc)) \<and>
     shape_ok (cfg mc) (cache mc) \<and>
     (scheme (cfg mc) = AlloyCache \<longrightarrow> line_placement_policy mc \<noteq> None) \<and>
     (scheme (cfg mc) \<noteq> AlloyCache \<longrightarrow> pages_ok (cfg mc) (cache mc) (tlb mc) (ds_index mc)) \<and>
     has_policy (cfg mc) (cache mc) (page_placement_policy mc) \<and>
     has_buffer (cfg mc) (mc_tag_buffer mc) \<and>
     (scheme (cfg mc) = Tagless \<longrightarrow> next_evict_idx mc < num_ways (cfg mc) \<and> ds_index mc = 0)"

definition mc_inv :: "MemoryController \<Rightarrow> bool" where
  "mc_inv mc \<longleftrightarrow> cfg_ok (cfg mc) \<and> trace_ok mc \<and> (cached_scheme (scheme (cfg mc)) \<longrightarrow> state_ok mc)"

lemma state_okD [wf_dest]:
  assumes "state_ok mc"
  shows "cfg_ok (cfg mc)" "cached_scheme (scheme (cfg mc))" "shape_ok (cfg mc) (cache mc)"
    and "scheme (cfg mc) = AlloyCache \<Longrightarrow> line_placement_policy mc \<noteq> None"
    and "scheme (cfg mc) \<noteq> AlloyCache \<Longrightarrow> pages_ok (cfg mc) (cache mc) (tlb mc) (ds_index mc)"
    and "has_policy (cfg mc) (cache mc) (page_placement_policy mc)"
    and "has_buffer (cfg mc) (mc_tag_buffer mc)"
    and "scheme (cfg mc) = Tagless \<Longrightarrow> next_evict_idx mc < num_ways (cfg mc) \<and> ds_index mc = 0"
  using assms by (simp_all add: state_ok_def)

text \<open>\<open>same_core\<close>: an operation that only counts.\<close>

definition same_core :: "MemoryController \<Rightarrow> MemoryController \<Rightarrow> bool" where
  "same_core mc mc' \<longleftrightarrow>
     cfg mc' = cfg mc \<and> trace mc' = trace mc \<and> next_evict_idx mc' = next_evict_idx mc \<and> cache mc' = cache mc \<and>
     line_placement_policy mc' = line_placement_policy mc \<and> page_placement_policy mc' = page_placement_policy mc \<and>
     mc_tag_buffer mc' = mc_tag_buffer mc \<and> num_requests mc' = num_requests mc \<and>
     ds_index mc' = ds_index mc \<and> tlb mc' = tlb mc"

lemma same_core_refl [simp]: "same_core mc mc"
  by (simp add: same_core_def)

lemma same_core_trans: "same_core a b \<Longrightarrow> same_core b c \<Longrightarrow> same_core a c"
  by (simp add: same_core_def)

lemma same_core_simps [simp]:
  "same_core mc (stat f mc') = same_core mc mc'"
  "same_core mc (add_mc_bw n mc') = same_core mc mc'"
  "same_core mc (add_ext_bw n mc') = same_core mc mc'"
  "same_core mc (mc'\<lparr>step := st\<rparr>) = same_core mc mc'"
  by (simp_all add: same_core_def stat_def add_mc_bw_def add_ext_bw_def)

lemma counting_simps [simp]:
  "cfg (stat f mc) = cfg mc" "cfg (add_mc_bw n mc) = cfg mc" "cfg (add_ext_bw n mc) = cfg mc"
  "cache (stat f mc) = cache mc" "tlb (stat f mc) = tlb mc" "ds_index (stat f mc) = ds_index mc"
  "mc_tag_buffer (stat f mc) = mc_tag_buffer mc"
  by (simp_all add: stat_def add_mc_bw_def add_ext_bw_def)

lemma state_ok_core: "same_core mc mc' \<Longrightarrow> state_ok mc \<Longrightarrow> state_ok mc'"
  by (simp add: same_core_def state_ok_def)

lemma same_coreD:
  assumes "same_core mc mc'"
  shows "cfg mc' = cfg mc" "cache mc' = cache mc" "tlb mc' = tlb mc" "ds_index mc' = ds_index mc"
    "page_placement_policy mc' = page_placement_policy mc" "mc_tag_buffer mc' = mc_tag_buffer mc"
    "line_placement_policy mc' = line_placement_policy mc" "next_evict_idx mc' = next_evict_idx mc"
    "num_requests mc' = num_requests mc" "trace mc' = trace mc"
  using assms by (simp_all add: same_core_def)

lemma mc_trace_ok:
  assumes "mc_inv mc"
  shows "ok (mc_trace req mc) (\<lambda>mc'. mc_inv mc' \<and> cfg mc' = cfg mc)"
proof (cases "collect_trace (cfg mc) \<and> mc_name (cfg mc) = ''mem-0''")
  case True
  have "state_ok (mc\<lparr>trace := t\<rparr>) = state_ok mc" for t by (simp add: state_ok_def)
  then show ?thesis using assms True
    by (simp add: mc_trace_def mc_inv_def trace_ok_def Let_def)
next
  case False
  then have "mc_trace req mc = Some mc" unfolding mc_trace_def by (rule if_not_P)
  then show ?thesis using assms by simp
qed

section \<open>Lookup\<close>

text \<open>What the tag probe tells about the page or line.\<close>

definition probed :: "locals \<Rightarrow> MemoryController \<Rightarrow> nat \<Rightarrow> bool" where
  "probed l mc way \<longleftrightarrow>
     (if scheme (cfg mc) = AlloyCache
      then way = 0 \<and> ds_index mc \<le> l_set l \<and> way_valid (way_at mc (l_set l) 0) \<and> way_tag (way_at mc (l_set l) 0) = l_tag l \<or>
           way = num_ways (cfg mc)
      else (\<exists>e. tlb mc (l_tag l) = Some e \<and> tlb_way e = way))"

lemma probed_core: "same_core mc mc' \<Longrightarrow> probed l mc' way = probed l mc way"
  by (simp add: same_core_def probed_def way_at_def)

lemma probed_hit:
  assumes st: "state_ok mc" and l: "locals_ok (cfg mc) req l" and pr: "probed l mc way" and hit: "way \<noteq> num_ways (cfg mc)"
  shows "way < num_ways (cfg mc)" "way_valid (cache mc ! l_set l ! way)" "way_tag (cache mc ! l_set l ! way) = l_tag l"
    and "ds_index mc \<le> l_set l"
proof -
  note D = state_okD [OF st]
  have s: "l_set l < num_sets (cfg mc)" "l_set l = l_tag l mod num_sets (cfg mc)" using l by (auto simp: locals_ok_def)
  have "way < num_ways (cfg mc) \<and> way_valid (cache mc ! l_set l ! way) \<and> way_tag (cache mc ! l_set l ! way) = l_tag l \<and>
      ds_index mc \<le> l_set l"
  proof (cases "scheme (cfg mc) = AlloyCache")
    case True
    then show ?thesis using pr hit cfg_okD(3) [OF D(1,2)] by (auto simp: probed_def way_at_def)
  next
    case False
    then obtain e where e: "tlb mc (l_tag l) = Some e" "tlb_way e = way" using pr by (auto simp: probed_def)
    then have m: "way < num_ways (cfg mc)" "way_valid (cache mc ! l_set l ! way)" "way_tag (cache mc ! l_set l ! way) = l_tag l"
      using pages_okD(2) [OF D(5) [OF False] e(1)] hit s(2) by (auto simp: maps_ok_def)
    then show ?thesis using cached_at(3) [OF D(5) [OF False] s(1) m e(1)] by simp
  qed
  then show "way < num_ways (cfg mc)" "way_valid (cache mc ! l_set l ! way)" "way_tag (cache mc ! l_set l ! way) = l_tag l"
    "ds_index mc \<le> l_set l" by simp_all
qed

lemma tlb_at_Some [simp]: "t x = Some e \<Longrightarrow> tlb_at t x = e"
  by (simp add: tlb_at_def)

lemma probe_tlb_ok:
  assumes st: "state_ok mc" and l: "locals_ok (cfg mc) req l" and sch: "scheme (cfg mc) \<noteq> AlloyCache"
  shows "ok (probe_tlb l mc) (\<lambda>(way, mc'). state_ok mc' \<and> probed l mc' way \<and>
    (\<exists>t sts. mc' = mc\<lparr>tlb := t, stats := sts\<rparr>))"
proof -
  define e0 where "e0 = \<lparr>tlb_tag = l_tag l, tlb_way = num_ways (cfg mc), tlb_count = 0, touch_bitvec = 0, dirty_bitvec = (0 :: 64 word)\<rparr>"
  define mc1 where "mc1 = (if tlb mc (l_tag l) = None
    then stat (numTouchedPages_update Suc) (mc\<lparr>tlb := (tlb mc)(l_tag l \<mapsto> e0)\<rparr>) else mc)"
  note D = state_okD [OF st]
  have st1: "state_ok mc1"
    using st D(5) [OF sch] pages_ok_fresh [OF D(5) [OF sch], of "l_tag l" e0]
    by (auto simp: mc1_def state_ok_def stat_def e0_def)
  have cf: "cfg mc1 = cfg mc" "cache mc1 = cache mc" by (simp_all add: mc1_def stat_def)
  obtain e where e: "tlb mc1 (l_tag l) = Some e" by (cases "tlb mc (l_tag l)") (auto simp: mc1_def stat_def)
  have pr: "probed l mc1 (tlb_way e)" using e sch cf by (simp add: probed_def)
  have upd: "\<exists>t sts. mc1 = mc\<lparr>tlb := t, stats := sts\<rparr>"
  proof (cases "tlb mc (l_tag l) = None")
    case True
    then show ?thesis unfolding mc1_def stat_def by auto
  next
    case False
    then have "mc1 = mc" unfolding mc1_def by (rule if_not_P)
    then have "mc1 = mc\<lparr>tlb := tlb mc, stats := stats mc\<rparr>" by simp
    then show ?thesis by blast
  qed
  have l1: "locals_ok (cfg mc1) req l" using l cf by simp
  have s: "l_set l < num_sets (cfg mc1)" using l1 by (simp add: locals_ok_def)
  have out: "\<forall>w \<in> set (cache mc1 ! l_set l). way_tag w \<noteq> l_tag l \<or> \<not> way_valid w" if "tlb_way e = num_ways (cfg mc)"
    using not_cached [OF state_okD(5) [OF st1] state_okD(3) [OF st1] e _ s] that sch cf by (auto simp: tag_in_def)
  show ?thesis
    unfolding probe_tlb_def Let_def e0_def [symmetric] mc1_def [symmetric]
    using e pr upd st1 probed_hit(1-3) [OF st1 l1 pr] out cf
    by (cases "tlb_way e = num_ways (cfg mc)") (simp_all add: way_at_def)
qed

end
