(* ===== verification/Mc_Phases.thy ===== *)
theory Mc_Phases
  imports Mc_Inv
begin

text \<open>
  The phases of an access that do not touch the memories: choosing the victim, remapping, installing
  and touching a page, the hints to the tag buffer and its flush.  Each lemma says that the phase does
  not abort under the invariant and what it does to the state.
\<close>

section \<open>Probing the tag buffer\<close>

lemma existInTB_total: "tb_inv tb \<Longrightarrow> \<exists>w. existInTB tb tag = Some w"
  by (simp add: existInTB_def tb_invD(1))

lemma has_bufferD:
  assumes "has_buffer c b" "scheme c = HybridCache"
  obtains tb where "b = Some tb" "tb_inv tb"
  using assms by (auto simp: has_buffer_def)

lemma probe_hybrid_ok:
  assumes "state_ok mc"
  shows "ok (probe_hybrid l mc) (\<lambda>(probe, mc'). same_core mc mc' \<and>
    (probe \<longrightarrow> scheme (cfg mc) = HybridCache \<and> \<not> sram_tag (cfg mc)))"
proof (cases "scheme (cfg mc) = HybridCache \<and> l_type l = STORE")
  case True
  then obtain tb where tb: "mc_tag_buffer mc = Some tb" "tb_inv tb"
    using has_bufferD [OF state_okD(7) [OF assms]] by blast
  obtain w where "existInTB tb (l_tag l) = Some w" using existInTB_total [OF tb(2)] by blast
  then show ?thesis using True tb by (simp add: probe_hybrid_def)
next
  case False
  then have "probe_hybrid l mc = Some (False, mc)" unfolding probe_hybrid_def by (rule if_not_P)
  then show ?thesis by simp
qed

section \<open>Choosing a way\<close>

text \<open>
  What the choice of a way for a missing page promises: the tag store, the page table and the tag
  buffer are untouched, the placement policy is ready for the page to be in that way, and the tag buffer has
  room for the two remappings.
\<close>

definition chosen :: "locals \<Rightarrow> MemoryController \<Rightarrow> nat \<Rightarrow> MemoryController \<Rightarrow> bool" where
  "chosen l mc way mc' \<longleftrightarrow>
     cfg mc' = cfg mc \<and> cache mc' = cache mc \<and> tlb mc' = tlb mc \<and> ds_index mc' = ds_index mc \<and>
     mc_tag_buffer mc' = mc_tag_buffer mc \<and> trace mc' = trace mc \<and> way \<le> num_ways (cfg mc) \<and>
     (scheme (cfg mc) = AlloyCache \<longrightarrow> line_placement_policy mc' \<noteq> None) \<and>
     (scheme (cfg mc) = Tagless \<longrightarrow> next_evict_idx mc' < num_ways (cfg mc) \<and> way < num_ways (cfg mc)) \<and>
     (way < num_ways (cfg mc) \<longrightarrow> ds_index mc \<le> l_set l) \<and>
     (\<forall>w. way_valid w \<longrightarrow> way_tag w = l_tag l \<longrightarrow>
        has_policy (cfg mc) ((cache mc)[l_set l := (cache mc ! l_set l)[way := w]]) (page_placement_policy mc')) \<and>
     (scheme (cfg mc) = HybridCache \<longrightarrow> way < num_ways (cfg mc) \<longrightarrow> way_valid (cache mc ! l_set l ! way) \<longrightarrow>
        (\<exists>tb. mc_tag_buffer mc = Some tb \<and> canInsert2 tb (l_tag l) (way_tag (cache mc ! l_set l ! way)) = Some True))"

lemma chosen_no_policy:
  assumes "\<not> (scheme (cfg mc) = UnisonCache \<or> scheme (cfg mc) = HybridCache)" "same_core mc mc1"
    "mc' = mc1\<lparr>line_placement_policy := lp, next_evict_idx := n\<rparr>" "way \<le> num_ways (cfg mc)"
    "scheme (cfg mc) = AlloyCache \<Longrightarrow> lp \<noteq> None"
    "scheme (cfg mc) = Tagless \<Longrightarrow> n < num_ways (cfg mc) \<and> way < num_ways (cfg mc)"
    "way < num_ways (cfg mc) \<Longrightarrow> ds_index mc \<le> l_set l"
  shows "chosen l mc way mc'"
  using assms by (simp add: chosen_def has_policy_def same_core_def)

lemma chosen_none:
  assumes st: "state_ok mc" and t: "scheme (cfg mc) \<noteq> Tagless" and l: "locals_ok (cfg mc) req l"
  shows "chosen l mc (num_ways (cfg mc)) mc"
proof -
  have s: "l_set l < num_sets (cfg mc)" using l by (simp add: locals_ok_def)
  have "length (cache mc ! l_set l) = num_ways (cfg mc)" using state_okD(3) [OF st] s by (simp add: shape_ok_def)
  then show ?thesis using state_okD(4,6) [OF st] t by (simp add: chosen_def list_update_beyond)
qed

lemma choose_policy_ok:
  assumes st: "state_ok mc" and l: "locals_ok (cfg mc) req l" and pr: "probed l mc (num_ways (cfg mc))"
    and sch: "scheme (cfg mc) = UnisonCache \<or> scheme (cfg mc) = HybridCache" and ds: "ds_index mc \<le> l_set l"
  shows "ok (choose_way l mc) (\<lambda>(way, ca, mc'). chosen l mc way mc')"
proof -
  note D = state_okD [OF st]
  obtain pp where pp: "page_placement_policy mc = Some pp" "policy_ok (cfg mc) (cache mc) pp"
    using D(6) sch by (auto simp: has_policy_def)
  have s: "l_set l < num_sets (cfg mc)" using l by (simp add: locals_ok_def)
  have "scheme (cfg mc) \<noteq> AlloyCache" using sch by auto
  then have new: "\<not> tag_in (cache mc ! l_set l) (l_tag l)"
    using pr not_cached [OF D(5) D(3) _ _ s] by (auto simp: probed_def)
  define tb where "tb = the (mc_tag_buffer mc)"
  have tb: "mv_tag_buffer (view mc) = Some tb \<and> tb_inv tb" if "needs_tb pp"
    using that pp(2) D(7) sch by (auto simp: needs_tb_def policy_ok_def has_buffer_def view_def tb_def)
  have ok: "pp_ok (mv_num_ways (view mc)) (mv_num_sets (view mc)) (cache mc) pp"
    using pp(2) by (simp add: view_def policy_ok_def)
  have s': "l_set l < mv_num_sets (view mc)" using s by (simp add: view_def)
  obtain way ca pp' where r: "pp_handleCacheMiss (view mc) pp (l_tag l) (l_type l) (l_set l) (cache mc ! l_set l) False
      = Some (way, ca, pp')" and res: "miss_result (view mc) (cache mc) tb pp (l_set l) (l_tag l) way pp'"
    using pp_miss_ok [OF ok s' new tb] by blast
  have eq: "choose_way l mc = Some (way, ca, mc\<lparr>page_placement_policy := Some pp'\<rparr>)"
    using sch ds pp(1) r by (auto simp: choose_way_def)
  have h: "needs_tb pp" "mc_tag_buffer mc = Some tb" if "scheme (cfg mc) = HybridCache"
    using that pp(2) D(7) by (auto simp: needs_tb_def policy_ok_def has_buffer_def tb_def)
  show ?thesis
    using res sch D(4,8) ds h pp(2)
    by (auto simp: eq chosen_def miss_result_def view_def has_policy_def policy_ok_def pp_cfg_def)
qed

lemma choose_way_ok:
  assumes st: "state_ok mc" and l: "locals_ok (cfg mc) req l" and pr: "probed l mc (num_ways (cfg mc))"
  shows "ok (choose_way l mc) (\<lambda>(way, ca, mc'). chosen l mc way mc' \<and> (ca \<longrightarrow> ds_index mc \<le> l_set l))"
proof -
  note D = state_okD [OF st]
  note C = cfg_okD [OF D(1,2)]
  show ?thesis
  proof (cases "scheme (cfg mc)")
    case AlloyCache
    obtain lp where lp: "line_placement_policy mc = Some lp" using D(4) AlloyCache by auto
    have w: "num_ways (cfg mc) = 1" using C(5) AlloyCache by simp
    obtain place lp' where p: "lp_handleCacheMiss lp (way_at mc (l_set l) 0) = (place, lp')" by fastforce
    show ?thesis
    proof (cases "ds_index mc \<le> l_set l")
      case True
      then show ?thesis using AlloyCache lp p w by (simp add: choose_way_def chosen_def has_policy_def)
    next
      case False
      then show ?thesis using AlloyCache w chosen_none [OF st _ l] by (simp add: choose_way_def)
    qed
  next
    case HMA
    then show ?thesis using chosen_none [OF st _ l] by (simp add: choose_way_def)
  next
    case Tagless
    then show ?thesis using C(3) D(8) by (simp add: choose_way_def chosen_def has_policy_def)
  next
    case UnisonCache
    then show ?thesis
      using choose_policy_ok [OF st l pr] chosen_none [OF st _ l]
      by (cases "ds_index mc \<le> l_set l") (auto simp: choose_way_def elim!: ok_conseq)
  next
    case HybridCache
    then show ?thesis
      using choose_policy_ok [OF st l pr] chosen_none [OF st _ l]
      by (cases "ds_index mc \<le> l_set l") (auto simp: choose_way_def elim!: ok_conseq)
  qed (use D(2) in \<open>simp_all add: cached_scheme_def\<close>)
qed

section \<open>Replacing a page\<close>

lemma remap_pages_ok:
  assumes "scheme (cfg mc) = HybridCache \<Longrightarrow>
    \<exists>tb. mc_tag_buffer mc = Some tb \<and> tb_inv tb \<and> canInsert2 tb t u = Some True \<and> t \<noteq> u"
  shows "ok (remap_pages t u mc) (\<lambda>mc'. \<exists>b. mc' = mc\<lparr>mc_tag_buffer := b\<rparr> \<and> has_buffer (cfg mc) b)"
proof (cases "scheme (cfg mc) = HybridCache")
  case True
  then obtain tb where tb: "mc_tag_buffer mc = Some tb" "tb_inv tb" "canInsert2 tb t u = Some True" "t \<noteq> u"
    using assms by blast
  obtain tb1 tb2 where r: "tb_insert tb t True = Some tb1" "tb_insert tb1 u True = Some tb2" "tb_inv tb2"
    using tb.ins_pair [OF tb(2-4)] by blast
  show ?thesis using True tb r by (auto simp: remap_pages_def has_buffer_def)
next
  case False
  then have "remap_pages t u mc = Some mc" unfolding remap_pages_def by (rule if_not_P)
  moreover have "mc = mc\<lparr>mc_tag_buffer := mc_tag_buffer mc\<rparr> \<and> has_buffer (cfg mc) (mc_tag_buffer mc)"
    using False by (simp add: has_buffer_def)
  ultimately show ?thesis by (intro ok_exI exI)
qed

lemma count_footprint_ok:
  assumes "page_scheme (scheme (cfg mc)) \<Longrightarrow> 0 < n \<and> n \<le> 64 \<and> m \<le> 64"
  shows "ok (count_footprint n m mc) (\<lambda>mc'. same_core mc mc')"
  using assms by (simp add: count_footprint_def Let_def)

definition without_page :: "mc_config \<Rightarrow> Set list \<Rightarrow> (address \<rightharpoonup> TLBEntry) \<Rightarrow> nat \<Rightarrow> nat \<Rightarrow> (address \<rightharpoonup> TLBEntry)" where
  "without_page c cs t s w =
     (if way_valid (cs ! s ! w)
      then t(way_tag (cs ! s ! w) \<mapsto> (tlb_at t (way_tag (cs ! s ! w)))\<lparr>tlb_way := num_ways c\<rparr>) else t)"

text \<open>What eviction leaves behind.\<close>

definition evicted :: "locals \<Rightarrow> nat \<Rightarrow> MemoryController \<Rightarrow> MemoryController \<Rightarrow> bool" where
  "evicted l way mc mc' \<longleftrightarrow>
     cfg mc' = cfg mc \<and> cache mc' = cache mc \<and> ds_index mc' = ds_index mc \<and> trace mc' = trace mc \<and>
     line_placement_policy mc' = line_placement_policy mc \<and> page_placement_policy mc' = page_placement_policy mc \<and>
     next_evict_idx mc' = next_evict_idx mc \<and> num_requests mc' = num_requests mc \<and>
     has_buffer (cfg mc) (mc_tag_buffer mc') \<and>
     tlb mc' = without_page (cfg mc) (cache mc) (tlb mc) (l_set l) way"

lemma evicted_core: "evicted l way mc mc' \<Longrightarrow> same_core mc' mc'' \<Longrightarrow> evicted l way mc mc''"
  by (simp add: evicted_def same_core_def)

lemma line_bit_dirty:
  assumes "locals_ok c req l" "scheme c \<noteq> AlloyCache"
  obtains b where "line_bit l = Some b" "b \<noteq> 0" "(if l_type l = STORE then 0 OR b else 0) \<noteq> 0 \<longleftrightarrow> req_type req = PUTX"
  using line_bit_ok [OF assms] assms(1) by (auto simp: locals_ok_def)

lemma install_ok:
  assumes st: "state_ok mc" and l: "locals_ok (cfg mc) req l" and pr: "probed l mc (num_ways (cfg mc))"
    and ch: "chosen l mc way mc1" and ev: "evicted l way mc1 mc2" and way: "way < num_ways (cfg mc)"
    and rt: "req_type req' = req_type req"
  shows "ok (install l way req' mc2) (\<lambda>mc'. state_ok mc' \<and> cfg mc' = cfg mc \<and> trace mc' = trace mc \<and> ds_index mc' = ds_index mc)"
proof -
  note D = state_okD [OF st]
  have c2: "cfg mc2 = cfg mc" "cache mc2 = cache mc" "ds_index mc2 = ds_index mc" "trace mc2 = trace mc"
    "tlb mc2 = without_page (cfg mc) (cache mc) (tlb mc) (l_set l) way" "has_buffer (cfg mc) (mc_tag_buffer mc2)"
    "line_placement_policy mc2 = line_placement_policy mc1" "page_placement_policy mc2 = page_placement_policy mc1"
    "next_evict_idx mc2 = next_evict_idx mc1"
    using ch ev by (simp_all add: chosen_def evicted_def)
  have s: "l_set l < num_sets (cfg mc)" "l_tag l mod num_sets (cfg mc) = l_set l" using l by (simp_all add: locals_ok_def)
  define x where "x = (cache mc ! l_set l ! way)\<lparr>way_valid := True, way_tag := l_tag l, way_dirty := (req_type req = PUTX)\<rparr>"
  have x: "way_valid x" "way_tag x = l_tag l" "way_dirty x = (req_type req = PUTX)" by (simp_all add: x_def)
  define cs where "cs = (cache mc)[l_set l := (cache mc ! l_set l)[way := x]]"
  have sh: "shape_ok (cfg mc) cs" unfolding cs_def by (rule shape_ok_update [OF D(3) s(1)])
  have pol: "has_policy (cfg mc) cs (page_placement_policy mc1)" using ch x by (simp add: chosen_def cs_def)
  have ds: "ds_index mc \<le> l_set l" using ch way by (simp add: chosen_def)
  have pages: "pages_ok (cfg mc) cs ((tlb mc2)(l_tag l \<mapsto> e)) (ds_index mc)"
    if "scheme (cfg mc) \<noteq> AlloyCache" "tlb_way e = way" "page_scheme (scheme (cfg mc)) \<Longrightarrow> touch_bitvec e \<noteq> 0"
      "scheme (cfg mc) = UnisonCache \<or> scheme (cfg mc) = Tagless \<Longrightarrow> (dirty_bitvec e \<noteq> 0 \<longleftrightarrow> req_type req = PUTX)" for e
    unfolding c2(5) without_page_def cs_def
  proof (rule pages_ok_install [OF D(5) [OF that(1)] D(3) s(1) way _ x(1,2) s(2) ds])
    show "\<not> tag_in (cache mc ! s') (l_tag l)" if "s' < num_sets (cfg mc)" for s'
      using pr not_cached [OF D(5) D(3) _ _ that] \<open>scheme (cfg mc) \<noteq> AlloyCache\<close> by (auto simp: probed_def)
  qed (use that x in auto)
  have final: "state_ok mc' \<and> cfg mc' = cfg mc \<and> trace mc' = trace mc \<and> ds_index mc' = ds_index mc"
    if "mc' = mc2\<lparr>cache := cs, tlb := t\<rparr>" "scheme (cfg mc) \<noteq> AlloyCache \<Longrightarrow> pages_ok (cfg mc) cs t (ds_index mc)" for mc' t
    using that D(1,2) sh pol c2 ch D(8) by (simp add: state_ok_def chosen_def)
  define e where "e = (tlb_at (tlb mc2) (l_tag l))\<lparr>tlb_way := way\<rparr>"
  define mc3 where "mc3 = mc2\<lparr>cache := cs, tlb := (tlb mc2)(l_tag l \<mapsto> e)\<rparr>"
  have i: "install l way req' mc2 = (if page_scheme (scheme (cfg mc))
      then touch_line l (upd_tlb (l_tag l) (\<lambda>e. e\<lparr>touch_bitvec := 0, dirty_bitvec := 0\<rparr>) mc3) else Some mc3)"
    by (simp add: install_def upd_way_def upd_tlb_def c2 rt x_def cs_def mc3_def e_def Let_def)
  show ?thesis
  proof (cases "page_scheme (scheme (cfg mc))")
    case True
    then have na: "scheme (cfg mc) \<noteq> AlloyCache" by (auto simp: page_scheme_def)
    obtain b where b: "line_bit l = Some b" "b \<noteq> 0" "(if l_type l = STORE then 0 OR b else 0) \<noteq> 0 \<longleftrightarrow> req_type req = PUTX"
      by (rule line_bit_dirty [OF l na])
    define e' where "e' = e\<lparr>touch_bitvec := 0 OR b, dirty_bitvec := (if l_type l = STORE then 0 OR b else 0)\<rparr>"
    have "install l way req' mc2 = Some (mc2\<lparr>cache := cs, tlb := (tlb mc2)(l_tag l \<mapsto> e')\<rparr>)"
      unfolding i using True b(1) by (simp add: touch_line_def upd_tlb_def mc3_def e'_def tlb_at_def)
    moreover have "pages_ok (cfg mc) cs ((tlb mc2)(l_tag l \<mapsto> e')) (ds_index mc)"
      by (rule pages [OF na]) (use b in \<open>simp_all add: e'_def e_def\<close>)
    ultimately show ?thesis using final [OF refl] by simp
  next
    case False
    then have "install l way req' mc2 = Some mc3" unfolding i by (rule if_not_P)
    moreover have "pages_ok (cfg mc) cs ((tlb mc2)(l_tag l \<mapsto> e)) (ds_index mc)" if "scheme (cfg mc) \<noteq> AlloyCache"
      by (rule pages [OF that]) (use False in \<open>auto simp: e_def page_scheme_def\<close>)
    ultimately show ?thesis using final [OF mc3_def] by simp
  qed
qed

section \<open>Hits, hints and flushes\<close>

text \<open>\<open>buffered mc mc'\<close>: an operation that only counts and uses the tag buffer.\<close>

definition buffered :: "MemoryController \<Rightarrow> MemoryController \<Rightarrow> bool" where
  "buffered mc mc' \<longleftrightarrow> (\<exists>b mc1. same_core mc mc1 \<and> mc' = mc1\<lparr>mc_tag_buffer := b\<rparr> \<and> has_buffer (cfg mc) b)"

lemma buffered_state_ok: "buffered mc mc' \<Longrightarrow> state_ok mc \<Longrightarrow> state_ok mc' \<and> cfg mc' = cfg mc \<and> trace mc' = trace mc \<and> ds_index mc' = ds_index mc"
  by (auto simp: buffered_def same_core_def state_ok_def)

lemma bufferedI:
  assumes "same_core mc mc1" "has_buffer (cfg mc) b" "mc' = mc1\<lparr>mc_tag_buffer := b\<rparr>"
  shows "buffered mc mc'"
  using assms unfolding buffered_def by blast

lemma buffered_core:
  assumes "same_core mc mc'" "has_buffer (cfg mc) (mc_tag_buffer mc)"
  shows "buffered mc mc'"
  by (rule bufferedI [OF assms]) (use assms(1) in \<open>simp add: same_core_def\<close>)

lemma buffered_trans:
  assumes "same_core mc mc1" "buffered mc1 mc2"
  shows "buffered mc mc2"
proof -
  obtain b mc3 where "same_core mc1 mc3" "mc2 = mc3\<lparr>mc_tag_buffer := b\<rparr>" "has_buffer (cfg mc1) b"
    using assms(2) unfolding buffered_def by blast
  then show ?thesis
    using bufferedI [OF same_core_trans [OF assms(1)], of mc3 b] same_coreD(1) [OF assms(1)] by simp
qed

lemma hint_page_ok:
  assumes "has_buffer (cfg mc) (mc_tag_buffer mc)"
  shows "ok (hint_page l mc) (\<lambda>mc'. buffered mc mc')"
proof (cases "scheme (cfg mc) = HybridCache \<and> l_type l = LOAD")
  case True
  then obtain tb where tb: "mc_tag_buffer mc = Some tb" "tb_inv tb" using has_bufferD [OF assms] by blast
  obtain b where b: "canInsert tb (l_tag l) = Some b" using tb.can1_total [OF tb(2)] by blast
  show ?thesis
  proof (cases b)
    case True
    obtain tb' where "tb_insert tb (l_tag l) False = Some tb'" "tb_inv tb'"
      using tb.ins_ok [OF tb(2), of "l_tag l" False] b True by auto
    then show ?thesis using \<open>_ \<and> l_type l = LOAD\<close> tb b True bufferedI [OF same_core_refl _ refl, of mc "Some tb'"]
      by (simp add: hint_page_def has_buffer_def)
  next
    case False
    then show ?thesis using \<open>_ \<and> l_type l = LOAD\<close> tb b buffered_core [OF same_core_refl assms] by (simp add: hint_page_def)
  qed
next
  case False
  then have "hint_page l mc = Some mc" unfolding hint_page_def by (rule if_not_P)
  then show ?thesis using buffered_core [OF same_core_refl assms] by simp
qed

lemma flush_tag_buffer_inv: "tb_inv tb \<Longrightarrow> tb_inv (flush_tag_buffer c tb)"
  by (simp add: flush_tag_buffer_def clear_inv)

lemma mc_flush_ok:
  assumes "has_buffer (cfg mc) (mc_tag_buffer mc)"
  shows "ok (mc_flush req mc) (\<lambda>mc'. buffered mc mc')"
proof (cases "scheme (cfg mc) = HybridCache")
  case True
  then obtain tb where tb: "mc_tag_buffer mc = Some tb" "tb_inv tb" using has_bufferD [OF assms] by blast
  let ?tb = "flush_tag_buffer (cycle req) tb"
  have "buffered mc (stat (numTagBufferFlush_update Suc) (mc\<lparr>mc_tag_buffer := Some ?tb\<rparr>))"
    by (rule bufferedI [of mc "stat (numTagBufferFlush_update Suc) mc" "Some ?tb"])
      (use flush_tag_buffer_inv [OF tb(2)] in \<open>simp_all add: has_buffer_def stat_def same_core_def\<close>)
  then show ?thesis using True tb buffered_core [OF same_core_refl assms] by (simp add: mc_flush_def)
next
  case False
  then have "mc_flush req mc = Some mc" unfolding mc_flush_def by (rule if_not_P)
  then show ?thesis using buffered_core [OF same_core_refl assms] by simp
qed

lemma mc_remap_os_ok:
  assumes "state_ok mc"
  shows "ok (mc_remap_os mc) (\<lambda>mc'. same_core mc mc')"
  using cfg_okD(7) [OF state_okD(1,2) [OF assms]] by (simp add: mc_remap_os_def)

text \<open>The way that is hit, and the bits of the line in its page.\<close>

definition hit_at :: "locals \<Rightarrow> MemReq \<Rightarrow> nat \<Rightarrow> MemoryController \<Rightarrow> bool" where
  "hit_at l req way mc \<longleftrightarrow>
     state_ok mc \<and> locals_ok (cfg mc) req l \<and> probed l mc way \<and> way \<noteq> num_ways (cfg mc)"

lemma hit_policy_ok:
  assumes h: "hit_at l req way mc"
  shows "ok (hit_policy l way mc) (\<lambda>(ca, mc'). hit_at l req way mc' \<and> cfg mc' = cfg mc \<and> trace mc' = trace mc \<and> ds_index mc' = ds_index mc)"
proof (cases "scheme (cfg mc) = HybridCache \<or> scheme (cfg mc) = UnisonCache")
  case True
  have st: "state_ok mc" and l: "locals_ok (cfg mc) req l" and pr: "probed l mc way" "way \<noteq> num_ways (cfg mc)"
    using h by (simp_all add: hit_at_def)
  note D = state_okD [OF st]
  note H = probed_hit [OF st l pr]
  obtain pp where pp: "page_placement_policy mc = Some pp" "policy_ok (cfg mc) (cache mc) pp"
    using D(6) True by (auto simp: has_policy_def)
  have s: "l_set l < mv_num_sets (view mc)" using l by (simp add: locals_ok_def view_def)
  have ok: "pp_ok (mv_num_ways (view mc)) (mv_num_sets (view mc)) (cache mc) pp" and w: "way < mv_num_ways (view mc)"
    using pp(2) H(1) by (simp_all add: view_def policy_ok_def)
  obtain ca pp' where r: "pp_handleCacheHit (view mc) pp (l_tag l) (l_type l) (l_set l) (cache mc ! l_set l) False way
      = Some (ca, pp')" "pp_cfg pp' = pp_cfg pp" "pp_ok (mv_num_ways (view mc)) (mv_num_sets (view mc)) (cache mc) pp'"
    using pp_hit_ok [OF ok s w H(2,3)] by blast
  have "has_policy (cfg mc) (cache mc) (Some pp')"
    using r(2,3) pp(2) by (auto simp: has_policy_def policy_ok_def pp_cfg_def view_def)
  moreover have "scheme (cfg mc) \<noteq> AlloyCache" using True by auto
  ultimately have "hit_at l req way (mc\<lparr>page_placement_policy := Some pp'\<rparr>)"
    using st l pr by (simp add: hit_at_def state_ok_def probed_def)
  then show ?thesis using True pp(1) r(1) by (simp add: hit_policy_def)
next
  case False
  then have "hit_policy l way mc = Some (False, mc)" by (simp add: hit_policy_def)
  then show ?thesis using h by simp
qed

text \<open>After a hit the way is dirty if the request was a store; the tag buffer may have changed.\<close>

definition mark :: "locals \<Rightarrow> MemReq \<Rightarrow> nat \<Rightarrow> Set list \<Rightarrow> Set list" where
  "mark l req way cs = cs[l_set l := (cs ! l_set l)
     [way := (cs ! l_set l ! way)\<lparr>way_dirty := (way_dirty (cs ! l_set l ! way) \<or> req_type req = PUTX)\<rparr>]]"

definition marked :: "locals \<Rightarrow> MemReq \<Rightarrow> nat \<Rightarrow> MemoryController \<Rightarrow> MemoryController \<Rightarrow> bool" where
  "marked l req way mc mc' \<longleftrightarrow>
     (\<exists>b. has_buffer (cfg mc) b \<and> same_core (mc\<lparr>cache := mark l req way (cache mc), mc_tag_buffer := b\<rparr>) mc')"

lemma marked_core: "marked l req way mc mc1 \<Longrightarrow> same_core mc1 mc2 \<Longrightarrow> marked l req way mc mc2"
  unfolding marked_def by (blast intro: same_core_trans)

lemma markedD:
  assumes "marked l req way mc mc'"
  shows "cfg mc' = cfg mc" "trace mc' = trace mc" "ds_index mc' = ds_index mc" "has_buffer (cfg mc) (mc_tag_buffer mc')"
    "cache mc' = mark l req way (cache mc)" "tlb mc' = tlb mc"
    "line_placement_policy mc' = line_placement_policy mc" "page_placement_policy mc' = page_placement_policy mc"
    "next_evict_idx mc' = next_evict_idx mc"
  using assms by (auto simp: marked_def same_core_def)

lemma marked_buffered:
  assumes "marked l req way mc mc1" "buffered mc1 mc2"
  shows "marked l req way mc mc2"
proof -
  obtain b mc3 where "same_core mc1 mc3" "mc2 = mc3\<lparr>mc_tag_buffer := b\<rparr>" "has_buffer (cfg mc1) b"
    using assms(2) unfolding buffered_def by blast
  then show ?thesis using assms(1) by (auto simp: marked_def same_core_def)
qed

lemma mark_id: "req_type req \<noteq> PUTX \<Longrightarrow> mark l req way cs = cs"
  by (simp add: mark_def)

lemma has_policy_mark:
  assumes "has_policy c cs p" "l_set l < num_sets c" "way < num_ways c"
  shows "has_policy c (mark l req way cs) p"
proof -
  have "policy_ok c (mark l req way cs) pp" if "policy_ok c cs pp" for pp
  proof -
    have ok: "pp_ok (num_ways c) (num_sets c) cs pp" using that by (simp add: policy_ok_def)
    have len: "length (cs ! l_set l) = num_ways c" by (rule pp_okD(8) [OF ok assms(2)])
    have "pp_ok (num_ways c) (num_sets c) (mark l req way cs) pp"
      unfolding mark_def
      by (rule pp_ok_cong [OF ok assms(2)]) (use len assms(3) in \<open>auto simp: nth_list_update\<close>)
    then show ?thesis using that by (simp add: policy_ok_def)
  qed
  then show ?thesis using assms(1) by (auto simp: has_policy_def)
qed

lemma marked_state:
  assumes h: "hit_at l req way mc" and m: "marked l req way mc mc1"
    and "scheme (cfg mc) \<noteq> AlloyCache \<Longrightarrow> pages_ok (cfg mc) (mark l req way (cache mc)) t (ds_index mc)"
  shows "state_ok (mc1\<lparr>tlb := t\<rparr>)"
proof -
  have st: "state_ok mc" and l: "locals_ok (cfg mc) req l" and pr: "probed l mc way" "way \<noteq> num_ways (cfg mc)"
    using h by (simp_all add: hit_at_def)
  note D = state_okD [OF st]
  note H = probed_hit [OF st l pr]
  have s: "l_set l < num_sets (cfg mc)" using l by (simp add: locals_ok_def)
  have "shape_ok (cfg mc) (mark l req way (cache mc))" unfolding mark_def by (rule shape_ok_update [OF D(3) s])
  then show ?thesis
    using D markedD [OF m] has_policy_mark [OF D(6) s H(1)] assms(3) by (simp add: state_ok_def)
qed

lemma marked_pages:
  assumes h: "hit_at l req way mc" and na: "scheme (cfg mc) \<noteq> AlloyCache" and e: "tlb mc (l_tag l) = Some e"
    and e': "tlb_way e' = tlb_way e" "touch_bitvec e \<noteq> 0 \<Longrightarrow> touch_bitvec e' \<noteq> 0"
    and "scheme (cfg mc) = UnisonCache \<or> scheme (cfg mc) = Tagless \<Longrightarrow>
      dirty_bitvec e' \<noteq> 0 \<longleftrightarrow> dirty_bitvec e \<noteq> 0 \<or> req_type req = PUTX"
  shows "pages_ok (cfg mc) (mark l req way (cache mc)) ((tlb mc)(l_tag l \<mapsto> e')) (ds_index mc)"
proof -
  have st: "state_ok mc" and l: "locals_ok (cfg mc) req l" and pr: "probed l mc way" "way \<noteq> num_ways (cfg mc)"
    using h by (simp_all add: hit_at_def)
  note D = state_okD [OF st]
  note H = probed_hit [OF st l pr]
  have s: "l_set l < num_sets (cfg mc)" using l by (simp add: locals_ok_def)
  note W = cached_at [OF D(5) [OF na] s H(1-3) e]
  show ?thesis
    unfolding mark_def
    by (rule pages_ok_touch [OF D(5) [OF na] D(3) s H(1-3)]) (use H(2,3) W(1,4,5) e' assms(6) in auto)
qed

text \<open>Marking the way and then the line in the page table.\<close>

lemma touch_line_ok:
  assumes h: "hit_at l req way mc" and m: "marked l req way mc mc1" and na: "scheme (cfg mc) \<noteq> AlloyCache"
  shows "ok (touch_line l mc1) (\<lambda>mc'. state_ok mc' \<and> cfg mc' = cfg mc \<and> trace mc' = trace mc \<and> ds_index mc' = ds_index mc)"
proof -
  have l: "locals_ok (cfg mc) req l" and pr: "probed l mc way" using h by (simp_all add: hit_at_def)
  obtain e where e: "tlb mc (l_tag l) = Some e" using pr na by (auto simp: probed_def)
  obtain b where b: "line_bit l = Some b" "b \<noteq> 0" using line_bit_ok [OF l na] by blast
  define e' where "e' = e\<lparr>touch_bitvec := touch_bitvec e OR b,
    dirty_bitvec := (if l_type l = STORE then dirty_bitvec e OR b else dirty_bitvec e)\<rparr>"
  have "pages_ok (cfg mc) (mark l req way (cache mc)) ((tlb mc)(l_tag l \<mapsto> e')) (ds_index mc)"
    by (rule marked_pages [OF h na e]) (use b(2) l in \<open>simp_all add: e'_def or_eq_0_iff locals_ok_def\<close>)
  from marked_state [OF h m this]
  have "state_ok (mc1\<lparr>tlb := (tlb mc)(l_tag l \<mapsto> e')\<rparr>)" .
  moreover have "touch_line l mc1 = Some (mc1\<lparr>tlb := (tlb mc)(l_tag l \<mapsto> e')\<rparr>)"
    using b(1) e markedD(6) [OF m] by (simp add: touch_line_def upd_tlb_def e'_def)
  ultimately show ?thesis using markedD(1-3) [OF m] by simp
qed

lemma marked_ok:
  assumes h: "hit_at l req way mc" and m: "marked l req way mc mc1"
    and sch: "scheme (cfg mc) = AlloyCache \<or> scheme (cfg mc) = HMA"
  shows "state_ok mc1"
proof -
  have "pages_ok (cfg mc) (mark l req way (cache mc)) (tlb mc) (ds_index mc)" if na: "scheme (cfg mc) \<noteq> AlloyCache"
  proof -
    obtain e where e: "tlb mc (l_tag l) = Some e" using h na by (auto simp: hit_at_def probed_def)
    have "(tlb mc)(l_tag l \<mapsto> e) = tlb mc" using e by auto
    then show ?thesis using marked_pages [OF h na e, of e] sch na by simp
  qed
  from marked_state [OF h m this] show ?thesis unfolding markedD(6) [OF m, symmetric] by simp
qed

end
