(* ===== verification/Mc_Safe.thy ===== *)
theory Mc_Safe
  imports Mc_Phases
begin

text \<open>
  The memory controller as a client of the interface \<open>dram_system\<close>: every phase of
  \<open>MemoryController::access\<close> keeps to the protocol of the memories (the first access of a request has
  type 0, the others type 1 or 2), so that no access aborts and the invariant is preserved.
\<close>

section \<open>The victim\<close>

lemma victim_bits:
  assumes st: "state_ok mc" and s: "s < num_sets (cfg mc)" "way < num_ways (cfg mc)"
    and w: "way_valid (cache mc ! s ! way)" "way_tag (cache mc ! s ! way) = u"
  shows "page_scheme (scheme (cfg mc)) \<Longrightarrow> touch_bitvec (tlb_at (tlb mc) u) \<noteq> 0"
    and "scheme (cfg mc) = UnisonCache \<or> scheme (cfg mc) = Tagless \<Longrightarrow>
      way_dirty (cache mc ! s ! way) \<longleftrightarrow> dirty_bitvec (tlb_at (tlb mc) u) \<noteq> 0"
proof -
  have "(page_scheme (scheme (cfg mc)) \<longrightarrow> touch_bitvec (tlb_at (tlb mc) u) \<noteq> 0) \<and>
    (scheme (cfg mc) = UnisonCache \<or> scheme (cfg mc) = Tagless \<longrightarrow>
      (way_dirty (cache mc ! s ! way) \<longleftrightarrow> dirty_bitvec (tlb_at (tlb mc) u) \<noteq> 0))"
  proof (cases "scheme (cfg mc) = AlloyCache")
    case False
    note P = state_okD(5) [OF st False]
    obtain e where e: "tlb mc u = Some e" by (rule cached_entry [OF P s w])
    show ?thesis using cached_at(4,5) [OF P s w e] e by simp
  qed (simp add: page_scheme_def)
  then show "page_scheme (scheme (cfg mc)) \<Longrightarrow> touch_bitvec (tlb_at (tlb mc) u) \<noteq> 0"
    "scheme (cfg mc) = UnisonCache \<or> scheme (cfg mc) = Tagless \<Longrightarrow>
      way_dirty (cache mc ! s ! way) \<longleftrightarrow> dirty_bitvec (tlb_at (tlb mc) u) \<noteq> 0" by simp_all
qed

lemma room_for_victim:
  assumes st: "state_ok mc" and l: "locals_ok (cfg mc) req l" and pr: "probed l mc (num_ways (cfg mc))"
    and ch: "chosen l mc way mc0" and way: "way < num_ways (cfg mc)" and v: "way_valid (cache mc ! l_set l ! way)"
    and h: "scheme (cfg mc) = HybridCache"
  shows "\<exists>tb. mc_tag_buffer mc = Some tb \<and> tb_inv tb \<and>
    canInsert2 tb (l_tag l) (way_tag (cache mc ! l_set l ! way)) = Some True \<and> l_tag l \<noteq> way_tag (cache mc ! l_set l ! way)"
proof -
  note D = state_okD [OF st]
  have na: "scheme (cfg mc) \<noteq> AlloyCache" using h by simp
  have s: "l_set l < num_sets (cfg mc)" using l by (simp add: locals_ok_def)
  obtain e where e: "tlb mc (l_tag l) = Some e" "tlb_way e = num_ways (cfg mc)" using pr na by (auto simp: probed_def)
  have "l_tag l \<noteq> way_tag (cache mc ! l_set l ! way)"
    using cached_at(1) [OF D(5) [OF na] s way v refl] e way by auto
  moreover obtain tb where "mc_tag_buffer mc = Some tb"
    "canInsert2 tb (l_tag l) (way_tag (cache mc ! l_set l ! way)) = Some True"
    using ch h way v by (auto simp: chosen_def)
  ultimately show ?thesis using D(7) h by (auto simp: has_buffer_def)
qed

section \<open>The conversation with the memories\<close>

text \<open>
  \<open>conv p base d0 req d\<close>: serving \<open>base\<close> from memory state \<open>d0\<close> has led to request \<open>req\<close> and
  memory state \<open>d\<close>; \<open>p\<close> says whether a memory access was made already.
\<close>

context dram_system
begin

definition conv :: "bool \<Rightarrow> MemReq \<Rightarrow> 'd \<Rightarrow> MemReq \<Rightarrow> 'd \<Rightarrow> bool" where
  "conv p base d0 req d \<longleftrightarrow>
     req = base\<lparr>cycle := cycle req\<rparr> \<and> cycle base \<le> cycle req \<and>
     (if p then pnd (cycle base) (srcId base) d else rdy (srcId base) d) \<and>
     (\<forall>s. s \<noteq> srcId base \<longrightarrow> rdy s d0 \<longrightarrow> rdy s d)"

lemma conv_req:
  assumes "conv p base d0 req d"
  shows "srcId req = srcId base" "req_type req = req_type base" "cycle base \<le> cycle req"
    "mem_grant req = mem_grant base"
proof -
  obtain c where c: "req = base\<lparr>cycle := c\<rparr>" using assms by (auto simp: conv_def)
  then show "srcId req = srcId base" "req_type req = req_type base" "mem_grant req = mem_grant base"
    by (simp_all add: mem_grant_def req_is_def)
  show "cycle base \<le> cycle req" using assms by (simp add: conv_def)
qed

lemma conv_start: "rdy (srcId base) d0 \<Longrightarrow> conv False base d0 base d0"
  by (simp add: conv_def)

lemma conv_cycle: "conv p base d0 req d \<Longrightarrow> cycle base \<le> c \<Longrightarrow> conv p base d0 (req\<lparr>cycle := c\<rparr>) d"
proof -
  assume "conv p base d0 req d" "cycle base \<le> c"
  moreover then obtain c' where "req = base\<lparr>cycle := c'\<rparr>" by (auto simp: conv_def)
  ultimately show ?thesis by (simp add: conv_def)
qed

text \<open>One access to a memory, of the type that the protocol asks for.\<close>

lemma send:
  assumes cv: "conv p base d0 req d" and t: "present t" "even sz" and r: "req_type r \<noteq> PUTS" "srcId r = srcId base"
    and c: "\<not> p \<Longrightarrow> cycle base \<le> cycle r" and k: "\<not> p \<and> k = 0 \<or> p \<and> (k = 1 \<or> k = 2)"
  shows "ok (dram t r k sz d) (\<lambda>(c, _, d'). cycle r \<le> c \<and> conv True base d0 req d')"
proof -
  have "\<exists>c d'. dram t r k sz d = Some (c, mem_grant r, d') \<and> cycle r \<le> c \<and> pnd (cycle base) (srcId r) d' \<and>
      (\<forall>s. s \<noteq> srcId r \<longrightarrow> rdy s d \<longrightarrow> rdy s d')"
  proof (cases p)
    case True
    then show ?thesis using dram_next [OF t r(1)] cv k r(2) by (auto simp: conv_def)
  next
    case False
    then show ?thesis using dram_first [OF t r(1)] pnd_mono [OF _ c [OF False]] cv k r(2) by (auto simp: conv_def) blast
  qed
  then show ?thesis using cv r(2) unfolding ok_def conv_def by auto
qed

lemma send_clean:
  assumes "present t" "even sz" "req_type r = PUTS"
  shows "ok (dram t r k sz d) (\<lambda>(c, _, d'). cycle r \<le> c \<and> d' = d)"
  using dram_clean [OF assms, of k d] by (auto simp: ok_def)

text \<open>The memories the controller uses.\<close>

definition attached :: "mc_config \<Rightarrow> bool" where
  "attached c \<longleftrightarrow> present ExtDram \<and> (\<forall>i < mcdram_per_mc c. present (McDram i))"

lemma sub_req_simps [simp]:
  "req_type (sub_req req a t c) = t" "srcId (sub_req req a t c) = srcId req" "cycle (sub_req req a t c) = c"
  by (simp_all add: sub_req_def)

text \<open>
  \<open>serves\<close>: a phase that returns, keeps the state apart from statistics, and continues the conversation.
\<close>

definition serves :: "MemReq \<Rightarrow> 'd \<Rightarrow> MemoryController \<Rightarrow> (MemoryController \<times> 'd \<times> MemReq) option \<Rightarrow> bool \<Rightarrow> bool" where
  "serves base d0 mc m p \<longleftrightarrow> ok m (\<lambda>(mc', d', req'). same_core mc mc' \<and> conv p base d0 req' d')"

lemma servesI:
  assumes "conv p base d0 req d" "same_core mc mc'"
  shows "serves base d0 mc (Some (mc', d, req)) p"
  using assms by (simp add: serves_def)

text \<open>An access whose result becomes \<open>req.cycle\<close>.\<close>

lemma serve_access:
  assumes "conv p base d0 req d" "present t" "even sz" "req_type r \<noteq> PUTS" "srcId r = srcId base"
    and "cycle base \<le> cycle r" "\<not> p \<and> k = 0 \<or> p \<and> (k = 1 \<or> k = 2)" "same_core mc mc'"
  shows "serves base d0 mc (do { (c, _, d) \<leftarrow> dram t r k sz d; Some (mc', d, req\<lparr>cycle := c\<rparr>) }) True"
  unfolding serves_def
  by (rule ok_bind [OF send [OF assms(1-5) _ assms(7)]])
    (use assms(6,8) in \<open>auto intro!: conv_cycle\<close>)

lemma ext_access_ok:
  assumes "conv p base d0 req d" "present ExtDram" "req_type r \<noteq> PUTS" "srcId r = srcId base"
    and "cycle base \<le> cycle r" "\<not> p \<and> k = 0 \<or> p \<and> (k = 1 \<or> k = 2)"
  shows "serves base d0 mc (ext_access dram k r mc d req) True"
  unfolding ext_access_def by (rule serve_access [OF assms(1,2) _ assms(3-6)]) simp_all

lemma mcdram_access_ok:
  assumes "conv p base d0 req d" "present (McDram (l_select l))" "even sz" "req_type r \<noteq> PUTS" "srcId r = srcId base"
    and "cycle base \<le> cycle r" "\<not> p \<and> k = 0 \<or> p \<and> (k = 1 \<or> k = 2)"
  shows "serves base d0 mc (mcdram_access dram l k sz r mc d req) True"
  unfolding mcdram_access_def by (rule serve_access [OF assms]) simp

text \<open>\<open>pays\<close>: further traffic that does not delay the request.\<close>

definition pays :: "MemReq \<Rightarrow> 'd \<Rightarrow> MemReq \<Rightarrow> MemoryController \<Rightarrow> (MemoryController \<times> 'd) option \<Rightarrow> bool" where
  "pays base d0 req mc m \<longleftrightarrow> ok m (\<lambda>(mc', d'). same_core mc mc' \<and> conv True base d0 req d')"

lemma paysI: "conv True base d0 req d \<Longrightarrow> same_core mc mc' \<Longrightarrow> pays base d0 req mc (Some (mc', d))"
  by (simp add: pays_def)

lemma pay_access:
  assumes "conv True base d0 req d" "present t" "even sz" "req_type r \<noteq> PUTS" "srcId r = srcId base"
    and "\<And>d'. conv True base d0 req d' \<Longrightarrow> pays base d0 req mc (f d')"
  shows "pays base d0 req mc (do { (_, _, d) \<leftarrow> dram t r 2 sz d; f d })"
  unfolding pays_def
  by (rule ok_bind [OF send [OF assms(1-5)]]) (use assms(6) in \<open>auto simp: pays_def\<close>)

lemma pay_clean:
  assumes "conv True base d0 req d" "present t" "even sz" "req_type r = PUTS"
    and "\<And>d'. conv True base d0 req d' \<Longrightarrow> pays base d0 req mc (f d')"
  shows "pays base d0 req mc (do { (_, _, d) \<leftarrow> dram t r 2 sz d; f d })"
  unfolding pays_def
  by (rule ok_bind [OF send_clean [OF assms(2-4)]]) (use assms(1,5) in \<open>auto simp: pays_def\<close>)

lemma pay_then:
  assumes "pays base d0 req mc m"
    and "\<And>mc' d'. same_core mc mc' \<Longrightarrow> conv True base d0 req d' \<Longrightarrow> pays base d0 req mc (f mc' d')"
  shows "pays base d0 req mc (do { (mc, d) \<leftarrow> m; f mc d })"
  unfolding pays_def
  by (rule ok_bind [OF assms(1) [unfolded pays_def]]) (use assms(2) in \<open>auto simp: pays_def\<close>)

lemma pays_core: "same_core mc mc1 \<Longrightarrow> pays base d0 req mc1 m \<Longrightarrow> pays base d0 req mc m"
  unfolding pays_def by (erule ok_conseq) (auto intro: same_core_trans)

lemma gipt_update_ok:
  assumes "conv True base d0 req d" "present ExtDram"
  shows "pays base d0 req mc (gipt_update dram l req mc d)"
  unfolding gipt_update_def
  by (rule pay_access [OF assms], simp, simp, simp add: conv_req(1) [OF assms(1)],
      rule pay_clean, assumption, rule assms(2), simp, simp, rule paysI, assumption, simp)

lemma write_back_ok:
  assumes "conv True base d0 req d" "present ExtDram" "present (McDram (l_select l))"
  shows "pays base d0 req mc (write_back dram l req cur victim lines mc d)"
  unfolding write_back_def
  by (rule pay_access [OF assms(1,3)], simp, simp, simp add: conv_req(1) [OF assms(1)],
      rule pay_access, assumption, rule assms(2), simp, simp, simp add: conv_req(1) [OF assms(1)],
      rule paysI, assumption, simp)

lemma fill_traffic_ok:
  assumes cv: "conv True base d0 req d" and t: "present ExtDram" "present (McDram (l_select l))"
  shows "pays base d0 req mc (fill_traffic dram l req mc d)"
proof -
  note src = conv_req(1) [OF cv]
  let ?r = "sub_req req (l_mc_address l) PUTX (cycle req)"
  have send_mc: "pays base d0 req mc1 (do { (_, _, d) \<leftarrow> dram (McDram (l_select l)) ?r 2 sz d1; f d })"
    if "conv True base d0 req d1" "even sz" "\<And>d'. conv True base d0 req d' \<Longrightarrow> pays base d0 req mc1 (f d')" for mc1 sz d1 f
    by (rule pay_access [OF that(1) t(2) that(2) _ _ that(3)]) (simp_all add: src)
  show ?thesis
  proof (cases "scheme (cfg mc) = AlloyCache")
    case True
    then show ?thesis unfolding fill_traffic_def Let_def
      by (simp only: simp_thms if_True, intro send_mc cv paysI) auto
  next
    case na: False
    show ?thesis
    proof (cases "scheme (cfg mc) = UnisonCache \<or> scheme (cfg mc) = HybridCache \<or> scheme (cfg mc) = Tagless")
      case True
      define n where "n = (if scheme (cfg mc) = UnisonCache \<or> scheme (cfg mc) = Tagless then footprint_size (cfg mc)
        else granularity (cfg mc) div 64)"
      show ?thesis
        unfolding fill_traffic_def Let_def n_def [symmetric] if_not_P [OF na] if_P [OF True]
      proof (rule pay_access [OF cv t(1)], simp, simp, simp add: src, rule send_mc, assumption, simp, rule pay_then)
        fix d2 assume d2: "conv True base d0 req d2"
        let ?mc = "add_mc_bw (n * 4) (add_ext_bw (n * 4) mc)"
        have same: "same_core mc ?mc" by simp
        show "pays base d0 req mc (if scheme (cfg mc) = Tagless then gipt_update dram l req ?mc d2
            else if \<not> sram_tag (cfg ?mc)
            then do { (_, _, d) \<leftarrow> dram (McDram (l_select l)) ?r 2 2 d2; Some (add_mc_bw 2 ?mc, d) }
            else Some (?mc, d2))"
          using pays_core [OF same gipt_update_ok [OF d2 t(1)]] send_mc [OF d2, of 2] paysI [OF d2 same] paysI
          by (simp del: same_core_simps add: same_core_simps)
      qed (auto intro: paysI)
    next
      case False
      then show ?thesis unfolding fill_traffic_def Let_def if_not_P [OF na] if_not_P [OF False]
        by (intro paysI [OF cv]) simp
    qed
  qed
qed

lemma serve_then:
  assumes "serves base d0 mc m p"
    and "\<And>mc' d' req'. same_core mc mc' \<Longrightarrow> conv p base d0 req' d' \<Longrightarrow> serves base d0 mc (f mc' d' req') q"
  shows "serves base d0 mc (do { (mc, d, req) \<leftarrow> m; f mc d req }) q"
  unfolding serves_def
  by (rule ok_bind [OF assms(1) [unfolded serves_def]]) (use assms(2) in \<open>auto simp: serves_def\<close>)

lemma serve_pays:
  assumes "pays base d0 req mc m"
    and "\<And>mc' d'. same_core mc mc' \<Longrightarrow> conv True base d0 req d' \<Longrightarrow> serves base d0 mc (f mc' d') q"
  shows "serves base d0 mc (do { (mc, d) \<leftarrow> m; f mc d }) q"
  unfolding serves_def
  by (rule ok_bind [OF assms(1) [unfolded pays_def]]) (use assms(2) in \<open>auto simp: serves_def\<close>)

lemma serves_core: "same_core mc mc1 \<Longrightarrow> serves base d0 mc1 m p \<Longrightarrow> serves base d0 mc m p"
  unfolding serves_def by (erule ok_conseq) (auto intro: same_core_trans)

section \<open>A miss\<close>

text \<open>Whether probing the tags has already read the in-package DRAM.\<close>

definition tag_read :: "locals \<Rightarrow> MemoryController \<Rightarrow> bool" where
  "tag_read l mc \<longleftrightarrow> scheme (cfg mc) = UnisonCache \<or>
     scheme (cfg mc) = AlloyCache \<and> l_type l = LOAD \<and> ds_index mc \<le> l_set l \<and> \<not> sram_tag (cfg mc)"

lemma ext_load_ok:
  assumes cv: "conv (tag_read l mc) base d0 req d" and t: "present ExtDram" "present (McDram (l_select l))"
    and rt: "req_type base \<noteq> PUTS" and sch: "cached_scheme (scheme (cfg mc))"
  shows "serves base d0 mc (ext_load dram l probe way mc d req) True"
proof -
  note R = conv_req [OF cv]
  have direct: "serves base d0 mc (ext_access dram k r mc d req) True"
    if "r = req \<or> r = sub_req req (l_address l) GETS (cycle req)"
      "\<not> tag_read l mc \<and> k = 0 \<or> tag_read l mc \<and> (k = 1 \<or> k = 2)" for r k
    by (rule ext_access_ok [OF cv t(1) _ _ _ that(2)]) (use that(1) R rt in auto)
  have stay: "serves base d0 mc (Some (mc, d, req)) True" if "scheme (cfg mc) = UnisonCache"
    by (rule servesI) (use cv that in \<open>simp_all add: tag_read_def\<close>)
  show ?thesis
  proof (cases "scheme (cfg mc)")
    case AlloyCache
    then show ?thesis by (simp add: ext_load_def direct tag_read_def)
  next
    case UnisonCache
    then show ?thesis using stay by (auto simp: ext_load_def tag_read_def intro!: direct)
  next
    case HMA
    then show ?thesis by (auto simp: ext_load_def tag_read_def intro!: direct)
  next
    case Tagless
    then show ?thesis by (auto simp: ext_load_def tag_read_def intro!: direct)
  next
    case HybridCache
    then have nt: "\<not> tag_read l mc" by (simp add: tag_read_def)
    have "serves base d0 mc (do {
        (c, _, d) \<leftarrow> dram (McDram (l_select l)) (sub_req req (l_mc_address l) GETS (cycle req)) 0 2 d;
        (mc, d, req) \<leftarrow> ext_access dram 1 (req\<lparr>cycle := c\<rparr>) (add_mc_bw 2 mc) d req;
        Some (stat (numTagLoad_update Suc) mc, d, req) }) True"
      unfolding serves_def
    proof (rule ok_bind [OF send [OF cv t(2)]], simp, simp, simp add: R, simp add: R, simp add: nt, clarify, fold serves_def)
      fix c d' st assume c: "cycle (sub_req req (l_mc_address l) GETS (cycle req)) \<le> c" and cv': "conv True base d0 req d'"
      show "serves base d0 mc (do { (mc, d, req) \<leftarrow> ext_access dram 1 (req\<lparr>cycle := c\<rparr>) (add_mc_bw 2 mc) d' req;
          Some (stat (numTagLoad_update Suc) mc, d, req) }) True"
        by (rule serve_then, rule serves_core [OF _ ext_access_ok [OF cv' t(1)]])
          (use c R rt in \<open>auto intro: servesI\<close>)
    qed
    then show ?thesis using HybridCache direct [of req 0] nt by (auto simp: ext_load_def)
  qed (use sch in \<open>simp_all add: cached_scheme_def\<close>)
qed

lemma evict_dirty_ok:
  assumes cv: "conv True base d0 req d" and t: "present ExtDram" "present (McDram (l_select l))"
    and cur: "cycle base \<le> cur" and sch: "cached_scheme (scheme (cfg mc))"
    and dirty: "scheme (cfg mc) = UnisonCache \<or> scheme (cfg mc) = Tagless \<Longrightarrow> 0 < dirty_lines \<and> dirty_lines \<le> 64"
  shows "serves base d0 mc (evict_dirty dram l cur victim dirty_lines mc d req) True"
proof -
  note R = conv_req [OF cv]
  note wb = write_back_ok [OF cv t]
  show ?thesis
  proof (cases "scheme (cfg mc)")
    case AlloyCache
    have first: "serves base d0 mc (if l_type l = STORE \<and> sram_tag (cfg mc)
        then do { (c, _, d) \<leftarrow> dram (McDram (l_select l)) (sub_req req (l_mc_address l) GETS cur) 2 4 d;
                  Some (add_mc_bw 4 mc, d, req\<lparr>cycle := c\<rparr>) }
        else Some (mc, d, req)) True"
      using serve_access [OF cv t(2), of 4 "sub_req req (l_mc_address l) GETS cur" 2 mc "add_mc_bw 4 mc"] R cur
        servesI [OF cv same_core_refl] by auto
    have rest: "serves base d0 mc (do { (_, _, d) \<leftarrow> dram ExtDram (sub_req req' victim PUTX cur) 2 4 d';
        Some (add_ext_bw 4 mc', d, req') }) True"
      if "same_core mc mc'" "conv True base d0 req' d'" for mc' d' req'
      unfolding serves_def
      by (rule ok_bind [OF send [OF that(2) t(1)]]) (use that conv_req [OF that(2)] in auto)
    show ?thesis using serve_then [OF first rest] AlloyCache by (simp add: evict_dirty_def)
  next
    case UnisonCache
    then show ?thesis using dirty serve_pays [OF wb servesI] by (simp add: evict_dirty_def)
  next
    case HybridCache
    then show ?thesis using serve_pays [OF wb servesI] by (simp add: evict_dirty_def)
  next
    case Tagless
    have "serves base d0 mc (do { (mc, d) \<leftarrow> gipt_update dram l req mc' d'; Some (mc, d, req) }) True"
      if "same_core mc mc'" "conv True base d0 req d'" for mc' d'
      by (rule serve_pays [OF pays_core [OF that(1) gipt_update_ok [OF that(2) t(1)]] servesI])
    then show ?thesis using Tagless dirty serve_pays [OF wb] by (simp add: evict_dirty_def)
  next
    case HMA
    then show ?thesis using servesI [OF cv same_core_refl] by (simp add: evict_dirty_def)
  qed (use sch in \<open>simp_all add: cached_scheme_def\<close>)
qed

lemma evict_rest_ok:
  assumes ev: "evicted l way mc1 mc3" and sch: "cached_scheme (scheme (cfg mc1))"
    and touch: "page_scheme (scheme (cfg mc1)) \<Longrightarrow> touch \<noteq> 0"
    and dirty: "scheme (cfg mc1) = UnisonCache \<or> scheme (cfg mc1) = Tagless \<Longrightarrow> wd \<longleftrightarrow> dirty \<noteq> 0"
    and cv: "conv True base d0 req d" and t: "present ExtDram" "present (McDram (l_select l))" and cur: "cycle base \<le> cur"
  shows "ok (do {
      mc \<leftarrow> count_footprint (popcount touch) (popcount dirty) mc3;
      if wd then evict_dirty dram l cur u (popcount dirty) (stat (numDirtyEviction_update Suc) mc) d req
      else do {
        assert_that (scheme (cfg mc) \<noteq> UnisonCache \<and> scheme (cfg mc) \<noteq> Tagless \<or> popcount dirty = 0);
        Some (stat (numCleanEviction_update Suc) mc, d, req) } })
    (\<lambda>(mc', d', req'). evicted l way mc1 mc' \<and> conv True base d0 req' d')"
proof (rule ok_bind [OF count_footprint_ok])
  have c3: "cfg mc3 = cfg mc1" using ev by (simp add: evicted_def)
  show "0 < popcount touch \<and> popcount touch \<le> 64 \<and> popcount dirty \<le> 64" if "page_scheme (scheme (cfg mc3))"
    using touch that c3 popcount_le by (simp add: popcount_pos)
  fix mc4 assume same4: "same_core mc3 mc4"
  have c4: "cfg mc4 = cfg mc1" using same4 c3 by (simp add: same_core_def)
  note ev4 = evicted_core [OF ev same4]
  let ?mc = "stat (numDirtyEviction_update Suc) mc4"
  have "ok (evict_dirty dram l cur u (popcount dirty) ?mc d req)
      (\<lambda>(mc', d', req'). evicted l way mc1 mc' \<and> conv True base d0 req' d')" if wd
  proof -
    have "serves base d0 ?mc (evict_dirty dram l cur u (popcount dirty) ?mc d req) True"
      by (rule evict_dirty_ok [OF cv t cur]) (use sch c4 dirty that popcount_le popcount_pos in auto)
    then have "serves base d0 mc4 (evict_dirty dram l cur u (popcount dirty) ?mc d req) True"
      by (rule serves_core [rotated]) simp
    then show ?thesis unfolding serves_def by (rule ok_conseq) (auto intro: evicted_core [OF ev4])
  qed
  moreover have "popcount dirty = 0" if "\<not> wd" "scheme (cfg mc4) = UnisonCache \<or> scheme (cfg mc4) = Tagless"
    using dirty that c4 popcount_pos [of dirty] by simp
  ultimately show "ok (if wd then evict_dirty dram l cur u (popcount dirty) ?mc d req
      else do {
        assert_that (scheme (cfg mc4) \<noteq> UnisonCache \<and> scheme (cfg mc4) \<noteq> Tagless \<or> popcount dirty = 0);
        Some (stat (numCleanEviction_update Suc) mc4, d, req) })
      (\<lambda>(mc', d', req'). evicted l way mc1 mc' \<and> conv True base d0 req' d')"
    using cv evicted_core [OF ev4, of "stat (numCleanEviction_update Suc) mc4"] by auto
qed

lemma evict_ok:
  assumes st: "state_ok mc" and l: "locals_ok (cfg mc) req0 l" and pr: "probed l mc (num_ways (cfg mc))"
    and ch: "chosen l mc way mc0" and same: "same_core mc0 mc1" and way: "way < num_ways (cfg mc)"
    and cv: "conv True base d0 req d" and t: "present ExtDram" "present (McDram (l_select l))" and cur: "cycle base \<le> cur"
  shows "ok (evict dram l cur way mc1 d req) (\<lambda>(mc', d', req'). evicted l way mc1 mc' \<and> conv True base d0 req' d')"
proof -
  note D = state_okD [OF st]
  have c1: "cfg mc1 = cfg mc" "cache mc1 = cache mc" "tlb mc1 = tlb mc" "mc_tag_buffer mc1 = mc_tag_buffer mc"
    using ch same by (simp_all add: chosen_def same_core_def)
  have s: "l_set l < num_sets (cfg mc)" using l by (simp add: locals_ok_def)
  define w where "w = cache mc ! l_set l ! way"
  show ?thesis
  proof (cases "way_valid w")
    case False
    then show ?thesis
      using cv D(7) c1 by (simp add: evict_def way_at_def w_def evicted_def without_page_def)
  next
    case v: True
    define u where "u = way_tag w"
    note W = v [unfolded w_def] u_def [unfolded w_def, symmetric]
    note room = room_for_victim [OF st l pr ch way W(1), unfolded W(2)]
    show ?thesis unfolding evict_def Let_def way_at_def c1(2) w_def [symmetric] if_P [OF v] u_def [symmetric]
    proof (rule ok_bind [OF remap_pages_ok])
      show "\<exists>tb. mc_tag_buffer mc1 = Some tb \<and> tb_inv tb \<and> canInsert2 tb (l_tag l) u = Some True \<and> l_tag l \<noteq> u"
        if "scheme (cfg mc1) = HybridCache" using room that c1 by simp
      fix mc2 assume "\<exists>b. mc2 = mc1\<lparr>mc_tag_buffer := b\<rparr> \<and> has_buffer (cfg mc1) b"
      then obtain b where b: "mc2 = mc1\<lparr>mc_tag_buffer := b\<rparr>" "has_buffer (cfg mc1) b" by blast
      let ?mc = "upd_tlb u (\<lambda>e. e\<lparr>tlb_way := num_ways (cfg mc2)\<rparr>) mc2"
      have ev: "evicted l way mc1 ?mc"
        using b c1 W by (simp add: evicted_def upd_tlb_def without_page_def)
      have e: "touch_bitvec (tlb_at (tlb ?mc) u) = touch_bitvec (tlb_at (tlb mc) u)"
        "dirty_bitvec (tlb_at (tlb ?mc) u) = dirty_bitvec (tlb_at (tlb mc) u)"
        using b c1 by (simp_all add: upd_tlb_def tlb_at_def)
      show "ok (do {
          mc \<leftarrow> count_footprint (popcount (touch_bitvec (tlb_at (tlb ?mc) u))) (popcount (dirty_bitvec (tlb_at (tlb ?mc) u))) ?mc;
          if way_dirty w then evict_dirty dram l cur u (popcount (dirty_bitvec (tlb_at (tlb ?mc) u)))
               (stat (numDirtyEviction_update Suc) mc) d req
          else do {
            assert_that (scheme (cfg mc) \<noteq> UnisonCache \<and> scheme (cfg mc) \<noteq> Tagless \<or> popcount (dirty_bitvec (tlb_at (tlb ?mc) u)) = 0);
            Some (stat (numCleanEviction_update Suc) mc, d, req) } })
          (\<lambda>(mc', d', req'). evicted l way mc1 mc' \<and> conv True base d0 req' d')"
        unfolding e
        by (rule evict_rest_ok [OF ev _ _ _ cv t cur])
          (use D(2) c1 victim_bits [OF st s way W] in \<open>simp_all add: w_def\<close>)
    qed
  qed
qed

end

end
