(* ===== verification/Mc_Access.thy ===== *)
theory Mc_Access
  imports Mc_Safe
begin

text \<open>
  The composition of the phases: hits, misses, rebalancing and the whole of
  \<open>MemoryController::access\<close>, over any memories that keep to the protocol \<open>dram_system\<close>.
\<close>

context dram_system
begin

section \<open>Hits and misses\<close>

text \<open>What serving the hit or the miss achieves.\<close>

definition served :: "MemReq \<Rightarrow> 'd \<Rightarrow> locals \<Rightarrow> MemoryController \<Rightarrow> cyc \<times> bool \<times> MemoryController \<times> 'd \<times> MemReq \<Rightarrow> bool" where
  "served base d0 l mc = (\<lambda>(ready_cycle, ca, mc', d', req').
     cycle base \<le> ready_cycle \<and> state_ok mc' \<and> cfg mc' = cfg mc \<and> trace mc' = trace mc \<and> ds_index mc' = ds_index mc \<and>
     (ca \<longrightarrow> ds_index mc \<le> l_set l) \<and> conv True base d0 req' d')"

lemma fill_ok:
  assumes st: "state_ok mc" and l: "locals_ok (cfg mc) base l" and pr: "probed l mc (num_ways (cfg mc))"
    and ch: "chosen l mc way mc1" and same: "same_core mc1 mc2" and way: "way < num_ways (cfg mc)"
    and cv: "conv True base d0 req d" and t: "present ExtDram" "present (McDram (l_select l))" and cur: "cycle base \<le> cur"
  shows "ok (do { (mc, d) \<leftarrow> fill_traffic dram l req mc2 d;
      (mc, d, req) \<leftarrow> evict dram l cur way (stat (numPlacement_update Suc) mc) d req;
      mc \<leftarrow> install l way req mc;
      Some (mc, d, req) })
    (\<lambda>(mc', d', req'). state_ok mc' \<and> cfg mc' = cfg mc \<and> trace mc' = trace mc \<and> ds_index mc' = ds_index mc \<and>
      conv True base d0 req' d')"
proof (rule ok_bind [OF fill_traffic_ok [OF cv t, unfolded pays_def]], clarify)
  fix mc3 d3 assume same3: "same_core mc2 mc3" and cv3: "conv True base d0 req d3"
  let ?mc = "stat (numPlacement_update Suc) mc3"
  have s3: "same_core mc1 ?mc" using same_core_trans [OF same same3] by simp
  show "ok (do { (mc, d, req) \<leftarrow> evict dram l cur way ?mc d3 req; mc \<leftarrow> install l way req mc; Some (mc, d, req) })
      (\<lambda>(mc', d', req'). state_ok mc' \<and> cfg mc' = cfg mc \<and> trace mc' = trace mc \<and> ds_index mc' = ds_index mc \<and>
        conv True base d0 req' d')"
  proof (rule ok_bind [OF evict_ok [OF st l pr ch s3 way cv3 t cur]], clarify)
    fix mc4 d4 req4 assume ev: "evicted l way ?mc mc4" and cv4: "conv True base d0 req4 d4"
    have ev1: "evicted l way mc1 mc4" using ev s3 by (simp add: evicted_def same_core_def)
    show "ok (do { mc \<leftarrow> install l way req4 mc4; Some (mc, d4, req4) })
        (\<lambda>(mc', d', req'). state_ok mc' \<and> cfg mc' = cfg mc \<and> trace mc' = trace mc \<and> ds_index mc' = ds_index mc \<and>
          conv True base d0 req' d')"
      by (rule ok_bind [OF install_ok [OF st l pr ch ev1 way conv_req(2) [OF cv4]]]) (use cv4 in simp)
  qed
qed

lemma bypass_ok:
  assumes st: "state_ok mc" and l: "locals_ok (cfg mc) base l"
    and ch: "chosen l mc way mc1" and same: "same_core mc1 mc2" and way: "\<not> way < num_ways (cfg mc)"
    and cv: "conv True base d0 req d"
  shows "ok (do { mc \<leftarrow> hint_page l mc2; assert_that (scheme (cfg mc) \<noteq> Tagless); Some (mc, d, req) })
    (\<lambda>(mc', d', req'). state_ok mc' \<and> cfg mc' = cfg mc \<and> trace mc' = trace mc \<and> ds_index mc' = ds_index mc \<and>
      conv True base d0 req' d')"
proof (rule ok_bind [OF hint_page_ok])
  note D = state_okD [OF st]
  have c2: "cfg mc2 = cfg mc" "cache mc2 = cache mc" "tlb mc2 = tlb mc" "ds_index mc2 = ds_index mc"
    "mc_tag_buffer mc2 = mc_tag_buffer mc" "trace mc2 = trace mc"
    "scheme (cfg mc) = AlloyCache \<Longrightarrow> line_placement_policy mc2 \<noteq> None" "scheme (cfg mc) \<noteq> Tagless"
    "page_placement_policy mc2 = page_placement_policy mc1"
    using ch same way by (auto simp: chosen_def same_core_def)
  have s: "l_set l < num_sets (cfg mc)" using l by (simp add: locals_ok_def)
  have "length (cache mc ! l_set l) = num_ways (cfg mc)" using D(3) s by (simp add: shape_ok_def)
  then have pol: "has_policy (cfg mc) (cache mc) (page_placement_policy mc1)"
    using ch way by (auto simp: chosen_def list_update_beyond dest: spec [where x = "\<lparr>way_tag = l_tag l, way_valid = True, way_dirty = False\<rparr>"])
  have st2: "state_ok mc2" using D c2 pol by (simp add: state_ok_def)
  show "has_buffer (cfg mc2) (mc_tag_buffer mc2)" by (rule state_okD(7) [OF st2])
  fix mc3 assume "buffered mc2 mc3"
  then have "state_ok mc3 \<and> cfg mc3 = cfg mc \<and> trace mc3 = trace mc \<and> ds_index mc3 = ds_index mc"
    using buffered_state_ok st2 c2 by auto
  then show "ok (do { assert_that (scheme (cfg mc3) \<noteq> Tagless); Some (mc3, d, req) })
      (\<lambda>(mc', d', req'). state_ok mc' \<and> cfg mc' = cfg mc \<and> trace mc' = trace mc \<and> ds_index mc' = ds_index mc \<and>
        conv True base d0 req' d')"
    using c2(8) cv by simp
qed

lemma mc_miss_ok:
  assumes st: "state_ok mc" and l: "locals_ok (cfg mc) base l" and pr: "probed l mc (num_ways (cfg mc))"
    and cv: "conv (tag_read l mc) base d0 req d" and t: "present ExtDram" "present (McDram (l_select l))"
    and rt: "req_type base \<noteq> PUTS"
  shows "ok (mc_miss dram l probe mc d req) (served base d0 l mc)"
proof -
  define mc1 where "mc1 = stat (if l_type l = LOAD then numLoadMiss_update Suc else numStoreMiss_update Suc)
    (mc\<lparr>step := (step mc)\<lparr>num_miss_per_step := num_miss_per_step (step mc) + 1\<rparr>\<rparr>)"
  have same: "same_core mc mc1" unfolding mc1_def by simp
  have cfg1: "cfg mc1 = cfg mc" "trace mc1 = trace mc" "ds_index mc1 = ds_index mc" using same by (simp_all add: same_core_def)
  have st1: "state_ok mc1" by (rule state_ok_core [OF same st])
  have l1: "locals_ok (cfg mc1) base l" using l cfg1 by simp
  have pr1: "probed l mc1 (num_ways (cfg mc1))" using pr probed_core [OF same] cfg1 by simp
  note cur = conv_req(3) [OF cv]
  show ?thesis unfolding mc_miss_def Let_def mc1_def [symmetric]
  proof (rule ok_bind [OF choose_way_ok [OF st1 l1 pr1]], clarify)
    fix way ca mc2 assume ch: "chosen l mc1 way mc2" and ca: "ca \<longrightarrow> ds_index mc1 \<le> l_set l"
    have c2: "cfg mc2 = cfg mc" "ds_index mc2 = ds_index mc" using ch cfg1 by (simp_all add: chosen_def)
    have cv2: "conv (tag_read l mc2) base d0 req d" using cv c2 by (simp add: tag_read_def)
    have sch: "cached_scheme (scheme (cfg mc2))" using state_okD(2) [OF st] c2 by simp
    show "ok (do {
        (mc, d, req') \<leftarrow> ext_load dram l probe way mc2 d req;
        (mc, d, req'') \<leftarrow>
          (if way < num_ways (cfg mc)
           then do {
             (mc, d) \<leftarrow> fill_traffic dram l req' mc d;
             (mc, d, req') \<leftarrow> evict dram l (cycle req) way (stat (numPlacement_update Suc) mc) d req';
             mc \<leftarrow> install l way req' mc;
             Some (mc, d, req') }
           else do { mc \<leftarrow> hint_page l mc; assert_that (scheme (cfg mc) \<noteq> Tagless); Some (mc, d, req') });
        Some (cycle req', ca, mc, d, req'') }) (served base d0 l mc)"
    proof (rule ok_bind [OF ext_load_ok [OF cv2 t rt sch, unfolded serves_def]], clarify)
      fix mc3 d3 req3 assume same3: "same_core mc2 mc3" and cv3: "conv True base d0 req3 d3"
      have w: "num_ways (cfg mc3) = num_ways (cfg mc1)" using same3 c2 cfg1 by (simp add: same_core_def)
      show "ok (do {
          (mc, d, req'') \<leftarrow>
            (if way < num_ways (cfg mc3)
             then do {
               (mc, d) \<leftarrow> fill_traffic dram l req3 mc3 d3;
               (mc, d, req') \<leftarrow> evict dram l (cycle req) way (stat (numPlacement_update Suc) mc) d req3;
               mc \<leftarrow> install l way req' mc;
               Some (mc, d, req') }
             else do { mc \<leftarrow> hint_page l mc3; assert_that (scheme (cfg mc) \<noteq> Tagless); Some (mc, d3, req3) });
          Some (cycle req3, ca, mc, d, req'') }) (served base d0 l mc)"
        unfolding w
        by (rule ok_bind, rule ok_if, erule fill_ok [OF st1 l1 pr1 ch same3 _ cv3 t cur], erule bypass_ok [OF st1 l1 ch same3 _ cv3])
          (use ca cfg1 conv_req(3) [OF cv3] in \<open>auto simp: served_def\<close>)
    qed
  qed
qed

text \<open>The accesses of a hit to the line itself.\<close>

definition line_read :: "MemoryController \<Rightarrow> bool" where
  "line_read mc \<longleftrightarrow> scheme (cfg mc) = AlloyCache \<or> scheme (cfg mc) = UnisonCache"

lemma hit_line_ok:
  assumes cv: "conv (tag_read l mc) base d0 req d" and t: "present (McDram (l_select l))" and ds: "ds_index mc \<le> l_set l"
  shows "serves base d0 mc (hit_line dram l mc d req) (line_read mc)"
proof -
  note R = conv_req [OF cv]
  have acc: "serves base d0 mc (mcdram_access dram l k 4 (sub_req req (l_mc_address l) ty (cycle req)) mc d req) True"
    if "ty \<noteq> PUTS" "\<not> tag_read l mc \<and> k = 0 \<or> tag_read l mc \<and> (k = 1 \<or> k = 2)" for ty k
    by (rule mcdram_access_ok [OF cv t _ _ _ _ that(2)]) (use that(1) R in auto)
  have stay: "serves base d0 mc (Some (mc, d, req)) (tag_read l mc)" by (rule servesI [OF cv same_core_refl])
  show ?thesis
  proof (cases "scheme (cfg mc)")
    case AlloyCache
    show ?thesis
    proof (cases "l_type l")
      case LOAD
      then show ?thesis using AlloyCache acc [of GETX 0] stay ds serve_then [OF _ servesI]
        by (auto simp: hit_line_def line_read_def tag_read_def)
    next
      case STORE
      then show ?thesis using AlloyCache acc [of PUTX 0] by (simp add: hit_line_def line_read_def tag_read_def)
    qed
  next
    case UnisonCache
    then show ?thesis using acc [of PUTX 1] stay by (simp add: hit_line_def line_read_def tag_read_def)
  qed (use stay in \<open>simp_all add: hit_line_def line_read_def tag_read_def\<close>)
qed

text \<open>The end of a hit in a page: the line is marked in the page table.\<close>

definition hit_done :: "MemReq \<Rightarrow> 'd \<Rightarrow> MemoryController \<Rightarrow> MemoryController \<times> 'd \<times> MemReq \<Rightarrow> bool" where
  "hit_done base d0 mc = (\<lambda>(mc', d', req').
     state_ok mc' \<and> cfg mc' = cfg mc \<and> trace mc' = trace mc \<and> ds_index mc' = ds_index mc \<and> conv True base d0 req' d')"

lemma touch_done:
  assumes "hit_at l base way mc" "marked l base way mc mc1" "scheme (cfg mc) \<noteq> AlloyCache" "conv True base d0 req d"
  shows "ok (do { mc \<leftarrow> touch_line l mc1; Some (mc, d, req) }) (hit_done base d0 mc)"
  by (rule ok_bind [OF touch_line_ok [OF assms(1-3)]]) (use assms(4) in \<open>simp add: hit_done_def\<close>)

lemma hit_hybrid_ok:
  assumes h: "hit_at l base way mc" and m: "marked l base way mc mc1" and sch: "scheme (cfg mc) = HybridCache"
    and cv: "conv False base d0 req d" and t: "present (McDram (l_select l))" and rt: "req_type base \<noteq> PUTS"
    and probe: "probe \<longrightarrow> \<not> sram_tag (cfg mc)"
  shows "ok (hit_hybrid dram l probe mc1 d req) (hit_done base d0 mc)"
proof -
  note R = conv_req [OF cv]
  have na: "scheme (cfg mc) \<noteq> AlloyCache" using sch by simp
  show ?thesis
  proof (cases probe)
    case False
    have acc: "serves base d0 mc1 (mcdram_access dram l 0 4 (req\<lparr>lineAddr := l_mc_address l\<rparr>) mc1 d req) True"
      by (rule mcdram_access_ok [OF cv t]) (use R rt in auto)
    show ?thesis unfolding hit_hybrid_def if_P [OF False]
    proof (rule ok_bind [OF acc [unfolded serves_def]], clarify)
      fix mc2 d2 req2 assume "same_core mc1 mc2" and cv2: "conv True base d0 req2 d2"
      then have m2: "marked l base way mc mc2" using marked_core [OF m] by blast
      show "ok (do { mc \<leftarrow> hint_page l mc2; mc \<leftarrow> touch_line l mc; Some (mc, d2, req2) }) (hit_done base d0 mc)"
        by (rule ok_bind [OF hint_page_ok])
          (use markedD(1,4) [OF m2] in simp, rule touch_done [OF h marked_buffered [OF m2] na cv2])
    qed
  next
    case True
    have acc: "serves base d0 mc1 (mcdram_access dram l 0 2 (sub_req req (l_mc_address l) GETS (cycle req)) mc1 d req) True"
      by (rule mcdram_access_ok [OF cv t]) (use R rt in auto)
    have "\<not> \<not> probe" using True by simp
    then show ?thesis unfolding hit_hybrid_def if_not_P [OF \<open>\<not> \<not> probe\<close>] Let_def
    proof (simp only: ok_simps, intro conjI)
      show "\<not> sram_tag (cfg mc1)" using probe True markedD(1) [OF m] by simp
      show "ok (do {
          (mc, d, req) \<leftarrow> mcdram_access dram l 0 2 (sub_req req (l_mc_address l) GETS (cycle req)) mc1 d req;
          (mc, d, req) \<leftarrow> mcdram_access dram l 1 4 (req\<lparr>lineAddr := l_mc_address l\<rparr>) (stat (numTagLoad_update Suc) mc) d req;
          mc \<leftarrow> touch_line l mc;
          Some (mc, d, req) }) (hit_done base d0 mc)"
      proof (rule ok_bind [OF acc [unfolded serves_def]], clarify)
        fix mc2 d2 req2 assume same2: "same_core mc1 mc2" and cv2: "conv True base d0 req2 d2"
        let ?mc = "stat (numTagLoad_update Suc) mc2"
        have "serves base d0 ?mc (mcdram_access dram l 1 4 (req2\<lparr>lineAddr := l_mc_address l\<rparr>) ?mc d2 req2) True"
          by (rule mcdram_access_ok [OF cv2 t]) (use conv_req [OF cv2] rt in auto)
        then have acc2: "serves base d0 mc1 (mcdram_access dram l 1 4 (req2\<lparr>lineAddr := l_mc_address l\<rparr>) ?mc d2 req2) True"
          by (rule serves_core [rotated]) (simp add: same2)
        show "ok (do {
            (mc, d, req) \<leftarrow> mcdram_access dram l 1 4 (req2\<lparr>lineAddr := l_mc_address l\<rparr>) ?mc d2 req2;
            mc \<leftarrow> touch_line l mc;
            Some (mc, d, req) }) (hit_done base d0 mc)"
          by (rule ok_bind [OF acc2 [unfolded serves_def]]) (use touch_done [OF h marked_core [OF m] na] in auto)
      qed
    qed
  qed
qed

lemma hit_page_ok:
  assumes h: "hit_at l base way mc" and m: "marked l base way mc mc1"
    and cv: "conv (line_read mc) base d0 req d" and t: "present (McDram (l_select l))" and rt: "req_type base \<noteq> PUTS"
    and probe: "probe \<longrightarrow> \<not> sram_tag (cfg mc)"
  shows "ok (hit_page dram l probe mc1 d req) (hit_done base d0 mc)"
proof -
  note R = conv_req [OF cv]
  note M = markedD [OF m]
  have acc: "serves base d0 mc1 (mcdram_access dram l 0 4 (req\<lparr>lineAddr := l_mc_address l\<rparr>) mc1 d req) True"
    if "\<not> line_read mc"
    by (rule mcdram_access_ok [OF cv t]) (use that R rt in auto)
  show ?thesis
  proof (cases "scheme (cfg mc)")
    case AlloyCache
    then show ?thesis using marked_ok [OF h m] cv M by (simp add: hit_page_def hit_done_def line_read_def)
  next
    case HMA
    have "ok (mcdram_access dram l 0 4 (req\<lparr>lineAddr := l_mc_address l\<rparr>) mc1 d req) (hit_done base d0 mc)"
      using acc HMA marked_ok [OF h marked_core [OF m]] markedD(1-3) [OF marked_core [OF m]]
      unfolding serves_def by (auto simp: line_read_def hit_done_def elim!: ok_conseq)
    then show ?thesis using HMA M(1) by (simp add: hit_page_def)
  next
    case HybridCache
    then show ?thesis using hit_hybrid_ok [OF h m HybridCache _ t rt probe] cv M(1) by (simp add: hit_page_def line_read_def)
  next
    case Tagless
    have "ok (do { (mc, d, req) \<leftarrow> mcdram_access dram l 0 4 (req\<lparr>lineAddr := l_mc_address l\<rparr>) mc1 d req;
        mc \<leftarrow> touch_line l mc; Some (mc, d, req) }) (hit_done base d0 mc)"
      by (rule ok_bind [OF acc [unfolded serves_def]])
        (use Tagless touch_done [OF h marked_core [OF m]] in \<open>auto simp: line_read_def\<close>)
    then show ?thesis using Tagless M(1) by (simp add: hit_page_def)
  next
    case UnisonCache
    then have cv1: "conv True base d0 req d" using cv by (simp add: line_read_def)
    have "ok (do { (_, _, d) \<leftarrow> dram (McDram (l_select l)) (sub_req req (l_mc_address l) PUTX (cycle req)) 2 2 d;
        mc \<leftarrow> touch_line l (stat (numTagStore_update Suc) (add_mc_bw 2 mc1)); Some (mc, d, req) }) (hit_done base d0 mc)"
      by (rule ok_bind [OF send [OF cv1 t]])
        (use R UnisonCache touch_done [OF h marked_core [OF m]] in auto)
    then show ?thesis using UnisonCache M(1) by (simp add: hit_page_def)
  qed (use state_okD(2) h in \<open>auto simp: hit_at_def cached_scheme_def\<close>)
qed

lemma hit_at_core:
  assumes "hit_at l req way mc" "same_core mc mc'"
  shows "hit_at l req way mc'"
  using assms state_ok_core [OF assms(2)] probed_core [OF assms(2)] by (simp add: hit_at_def same_core_def)

lemma marked_hit:
  assumes h: "hit_at l base way mc" and rt: "req_type req = req_type base"
  shows "marked l base way mc (if req_type req = PUTX
      then upd_way (l_set l) way (\<lambda>w. w\<lparr>way_dirty := True\<rparr>) (stat (numStoreHit_update Suc) mc)
      else stat (numLoadHit_update Suc) mc)"
proof -
  have b: "has_buffer (cfg mc) (mc_tag_buffer mc)" using h state_okD(7) by (simp add: hit_at_def)
  show ?thesis
  proof (cases "req_type req = PUTX")
    case True
    then show ?thesis using b rt unfolding marked_def
      by (intro exI [of _ "mc_tag_buffer mc"]) (simp add: same_core_def upd_way_def stat_def mark_def)
  next
    case False
    then show ?thesis using b rt mark_id [of base l way "cache mc"] unfolding marked_def
      by (intro exI [of _ "mc_tag_buffer mc"]) (simp add: same_core_def stat_def)
  qed
qed

lemma mc_hit_ok:
  assumes h: "hit_at l base way mc" and cv: "conv (tag_read l mc) base d0 req d"
    and t: "present (McDram (l_select l))" and rt: "req_type base \<noteq> PUTS" and probe: "probe \<longrightarrow> \<not> sram_tag (cfg mc)"
  shows "ok (mc_hit dram l probe way mc d req) (served base d0 l mc)"
proof -
  have ds: "ds_index mc \<le> l_set l" using h probed_hit(4) by (auto simp: hit_at_def)
  have "ok (do {
      (mc, d, req) \<leftarrow> hit_line dram l mc d req;
      (counter_access, mc) \<leftarrow> hit_policy l way (mc\<lparr>step := (step mc)\<lparr>num_hit_per_step := num_hit_per_step (step mc) + 1\<rparr>\<rparr>);
      (mc, d, req) \<leftarrow> hit_page dram l probe (if req_type req = PUTX
               then upd_way (l_set l) way (\<lambda>w. w\<lparr>way_dirty := True\<rparr>) (stat (numStoreHit_update Suc) mc)
               else stat (numLoadHit_update Suc) mc) d req;
      Some (cycle req, counter_access, mc, d, req) }) (served base d0 l mc)"
  proof (rule ok_bind [OF hit_line_ok [OF cv t ds, unfolded serves_def]], clarify)
    fix mc1 d1 req1 assume same: "same_core mc mc1" and cv1: "conv (line_read mc) base d0 req1 d1"
    let ?mc = "mc1\<lparr>step := (step mc1)\<lparr>num_hit_per_step := num_hit_per_step (step mc1) + 1\<rparr>\<rparr>"
    have h1: "hit_at l base way ?mc" by (rule hit_at_core [OF h]) (simp add: same)
    have c1: "cfg ?mc = cfg mc" "trace ?mc = trace mc" "ds_index ?mc = ds_index mc" using same by (simp_all add: same_core_def)
    show "ok (do {
        (counter_access, mc) \<leftarrow> hit_policy l way ?mc;
        (mc, d, req) \<leftarrow> hit_page dram l probe (if req_type req1 = PUTX
                 then upd_way (l_set l) way (\<lambda>w. w\<lparr>way_dirty := True\<rparr>) (stat (numStoreHit_update Suc) mc)
                 else stat (numLoadHit_update Suc) mc) d1 req1;
        Some (cycle req, counter_access, mc, d, req) }) (served base d0 l mc)"
    proof (rule ok_bind [OF hit_policy_ok [OF h1]], clarify)
      fix ca mc2 assume h2: "hit_at l base way mc2" and c2: "cfg mc2 = cfg ?mc" "trace mc2 = trace ?mc" "ds_index mc2 = ds_index ?mc"
      have cv2: "conv (line_read mc2) base d0 req1 d1" and pb: "probe \<longrightarrow> \<not> sram_tag (cfg mc2)"
        using cv1 c1 c2 probe by (simp_all add: line_read_def)
      show "ok (do {
          (mc, d, req) \<leftarrow> hit_page dram l probe (if req_type req1 = PUTX
                   then upd_way (l_set l) way (\<lambda>w. w\<lparr>way_dirty := True\<rparr>) (stat (numStoreHit_update Suc) mc2)
                   else stat (numLoadHit_update Suc) mc2) d1 req1;
          Some (cycle req, ca, mc, d, req) }) (served base d0 l mc)"
        by (rule ok_bind [OF hit_page_ok [OF h2 marked_hit [OF h2 conv_req(2) [OF cv1]] cv2 t rt pb]])
          (use c1 c2 ds in \<open>auto simp: hit_done_def served_def dest: conv_req(3)\<close>)
    qed
  qed
  then show ?thesis using ds by (simp add: mc_hit_def Let_def)
qed

section \<open>Probing the tags\<close>

definition probed_ok :: "MemReq \<Rightarrow> 'd \<Rightarrow> locals \<Rightarrow> MemoryController \<Rightarrow> nat \<times> bool \<times> MemoryController \<times> 'd \<times> MemReq \<Rightarrow> bool" where
  "probed_ok base d0 l mc = (\<lambda>(way, probe, mc', d', req').
     state_ok mc' \<and> cfg mc' = cfg mc \<and> trace mc' = trace mc \<and> ds_index mc' = ds_index mc \<and> probed l mc' way \<and>
     (probe \<longrightarrow> \<not> sram_tag (cfg mc)) \<and> conv (tag_read l mc') base d0 req' d')"

lemma probe_unison_ok:
  assumes cv: "conv False base d0 req d" and t: "present (McDram (l_select l))" and rt: "req_type base \<noteq> PUTS"
  shows "serves base d0 mc (probe_unison dram l mc d req) (scheme (cfg mc) = UnisonCache)"
proof (cases "scheme (cfg mc) = UnisonCache")
  case True
  have "serves base d0 mc (do { (c, _, d) \<leftarrow> dram (McDram (l_select l)) r 0 sz d;
      Some (stat (numTagLoad_update Suc) (add_mc_bw sz mc), d, req\<lparr>cycle := c\<rparr>) }) True"
    if "even sz" "req_type r \<noteq> PUTS" "srcId r = srcId base" "cycle base \<le> cycle r" for r sz
    by (rule serve_access [OF cv t that]) simp_all
  then show ?thesis using True conv_req [OF cv] rt by (simp add: probe_unison_def)
next
  case False
  then show ?thesis using servesI [OF cv same_core_refl] by (simp add: probe_unison_def)
qed

lemma probe_page_ok:
  assumes st: "state_ok mc" and l: "locals_ok (cfg mc) base l" and na: "scheme (cfg mc) \<noteq> AlloyCache"
    and cv: "conv False base d0 base d0" and t: "present (McDram (l_select l))" and rt: "req_type base \<noteq> PUTS"
  shows "ok (probe_page dram l mc d0 base) (probed_ok base d0 l mc)"
  unfolding probe_page_def Let_def
proof (rule ok_bind [OF probe_tlb_ok [OF st l na]], clarify)
  fix way t' sts
  let ?mc1 = "mc\<lparr>tlb := t', stats := sts\<rparr>"
  assume st1: "state_ok ?mc1" and pr1: "probed l ?mc1 way"
  show "ok (do {
      (mc, d, req) \<leftarrow> probe_unison dram l ?mc1 d0 base;
      (hybrid_tag_probe, mc) \<leftarrow> probe_hybrid l mc;
      Some (way, hybrid_tag_probe, mc, d, if scheme (cfg mc) = HybridCache \<and> sram_tag (cfg mc)
                then req\<lparr>cycle := cycle req + llc_latency (cfg mc)\<rparr> else req) }) (probed_ok base d0 l mc)"
  proof (rule ok_bind [OF probe_unison_ok [OF cv t rt, unfolded serves_def]], clarify)
    fix mc2 d2 req2
    assume same2: "same_core ?mc1 mc2" and cv2: "conv (scheme (cfg ?mc1) = UnisonCache) base d0 req2 d2"
    show "ok (do { (hybrid_tag_probe, mc) \<leftarrow> probe_hybrid l mc2;
        Some (way, hybrid_tag_probe, mc, d2, if scheme (cfg mc) = HybridCache \<and> sram_tag (cfg mc)
                then req2\<lparr>cycle := cycle req2 + llc_latency (cfg mc)\<rparr> else req2) }) (probed_ok base d0 l mc)"
    proof (rule ok_bind [OF probe_hybrid_ok [OF state_ok_core [OF same2 st1]]], clarify)
      fix probe mc3 assume same3: "same_core mc2 mc3" and pb: "probe \<longrightarrow> scheme (cfg mc2) = HybridCache \<and> \<not> sram_tag (cfg mc2)"
      have same: "same_core ?mc1 mc3" by (rule same_core_trans [OF same2 same3])
      have c2: "cfg mc2 = cfg mc" using same2 by (simp add: same_core_def)
      have c3: "cfg mc3 = cfg mc" "trace mc3 = trace mc" "ds_index mc3 = ds_index mc" using same by (simp_all add: same_core_def)
      have tr: "tag_read l mc3 \<longleftrightarrow> scheme (cfg mc) = UnisonCache" using na c3 by (simp add: tag_read_def)
      have cv3: "conv (tag_read l mc3) base d0 req2 d2" using cv2 tr by simp
      show "ok (Some (way, probe, mc3, d2, if scheme (cfg mc3) = HybridCache \<and> sram_tag (cfg mc3)
                then req2\<lparr>cycle := cycle req2 + llc_latency (cfg mc3)\<rparr> else req2)) (probed_ok base d0 l mc)"
        using state_ok_core [OF same st1] probed_core [OF same] pr1 pb cv3 c2 c3 conv_cycle [OF cv3] conv_req(3) [OF cv3]
        by (simp add: probed_ok_def)
    qed
  qed
qed

lemma probe_alloy_ok:
  assumes st: "state_ok mc" and a: "scheme (cfg mc) = AlloyCache"
    and cv: "conv False base d0 base d0" and t: "present (McDram (l_select l))" and rt: "req_type base \<noteq> PUTS"
  shows "ok (probe_alloy dram l mc d0 base) (probed_ok base d0 l mc)"
proof -
  define way where "way = (if way_valid (way_at mc (l_set l) 0) \<and> way_tag (way_at mc (l_set l) 0) = l_tag l \<and> ds_index mc \<le> l_set l
    then 0 else num_ways (cfg mc))"
  have pr: "probed l mc way" using a by (auto simp: probed_def way_def)
  have ok1: "probed_ok base d0 l mc (way, False, mc', d', req')"
    if "same_core mc mc'" "conv (tag_read l mc) base d0 req' d'" for mc' d' req'
    using that state_ok_core [OF that(1) st] probed_core [OF that(1)] pr
    by (simp add: probed_ok_def same_core_def tag_read_def)
  have "ok (do { (c, _, d) \<leftarrow> dram (McDram (l_select l)) (base\<lparr>lineAddr := l_mc_address l\<rparr>) 0 6 d0;
      Some (way, False, stat (numTagLoad_update Suc) (add_mc_bw 6 mc), d, base\<lparr>cycle := c\<rparr>) }) (probed_ok base d0 l mc)"
    if "tag_read l mc"
    by (rule ok_bind [OF send [OF cv t]]) (use rt that ok1 conv_cycle in auto)
  moreover have "probed_ok base d0 l mc (way, False, mc, d0, base)"
    "probed_ok base d0 l mc (way, False, mc, d0, base\<lparr>cycle := cycle base + llc_latency (cfg mc)\<rparr>)"
    if "\<not> tag_read l mc"
    by (rule ok1; use that cv conv_cycle [OF cv] in simp)+
  ultimately show ?thesis using a unfolding probe_alloy_def Let_def way_def [symmetric]
    by (cases "ds_index mc \<le> l_set l") (simp_all add: tag_read_def)
qed

lemma mc_probe_ok:
  assumes st: "state_ok mc" and l: "locals_ok (cfg mc) base l"
    and "conv False base d0 base d0" "present (McDram (l_select l))" "req_type base \<noteq> PUTS"
  shows "ok (mc_probe dram l mc d0 base) (probed_ok base d0 l mc)"
proof -
  note C = cfg_okD [OF state_okD(1,2) [OF st]]
  show ?thesis
  proof (cases "scheme (cfg mc) = AlloyCache")
    case True
    then show ?thesis using probe_alloy_ok [OF st True assms(3-5)] C(5) by (simp add: mc_probe_def)
  next
    case False
    then show ?thesis using probe_page_ok [OF st l False assms(3-5)] C(6) by (simp add: mc_probe_def)
  qed
qed

section \<open>Counters and rebalancing\<close>

lemma mc_counter_ok:
  assumes cv: "conv True base d0 req d" and t: "present (McDram (l_select l))" and ca: "ca \<longrightarrow> ds_index mc \<le> l_set l"
  shows "pays base d0 req mc (mc_counter dram l ca mc d req)"
proof (cases "ca \<and> \<not> sram_tag (cfg mc)")
  case True
  have "pays base d0 req mc (do {
      (_, _, d) \<leftarrow> dram (McDram (l_select l)) (sub_req req (l_mc_address l) GETS (cycle req)) 2 2 d;
      (_, _, d) \<leftarrow> dram (McDram (l_select l)) (sub_req req (l_mc_address l) PUTX (cycle req)) 2 2 d;
      Some (add_mc_bw 4 (stat (numCounterAccess_update Suc) mc), d) })"
    by (rule pay_access [OF cv t], simp, simp, simp add: conv_req(1) [OF cv], rule pay_access, assumption,
        rule t, simp, simp, simp add: conv_req(1) [OF cv], rule paysI, assumption, simp)
  then show ?thesis using True ca by (simp add: mc_counter_def)
next
  case False
  then have "mc_counter dram l ca mc d req = Some (mc, d)" unfolding mc_counter_def by (rule if_not_P)
  then show ?thesis using paysI [OF cv same_core_refl] by simp
qed

text \<open>
  While a set is being emptied, the placement policy still describes the pages it had: \<open>flushing s\<close>
  is the invariant of the controller with the policy in step with every set but \<open>s\<close>.
\<close>

definition flushing :: "nat \<Rightarrow> MemoryController \<Rightarrow> bool" where
  "flushing s mc \<longleftrightarrow>
     cfg_ok (cfg mc) \<and> (scheme (cfg mc) = AlloyCache \<or> scheme (cfg mc) = HybridCache) \<and> s < num_sets (cfg mc) \<and>
     shape_ok (cfg mc) (cache mc) \<and>
     (scheme (cfg mc) = AlloyCache \<longrightarrow> line_placement_policy mc \<noteq> None) \<and>
     (scheme (cfg mc) \<noteq> AlloyCache \<longrightarrow> pages_ok (cfg mc) (cache mc) (tlb mc) (ds_index mc)) \<and>
     (\<exists>ws. has_policy (cfg mc) ((cache mc)[s := ws]) (page_placement_policy mc)) \<and>
     has_buffer (cfg mc) (mc_tag_buffer mc)"

definition invalid :: "MemoryController \<Rightarrow> nat \<Rightarrow> nat \<Rightarrow> bool" where
  "invalid mc s n \<longleftrightarrow> (\<forall>w < n. \<not> way_valid (cache mc ! s ! w))"

text \<open>The part of the state that emptying set \<open>s\<close> leaves alone.\<close>

definition only_set :: "nat \<Rightarrow> MemoryController \<Rightarrow> MemoryController \<Rightarrow> bool" where
  "only_set s mc mc' \<longleftrightarrow>
     cfg mc' = cfg mc \<and> trace mc' = trace mc \<and> ds_index mc' = ds_index mc \<and>
     (\<forall>s'. s' \<noteq> s \<longrightarrow> cache mc' ! s' = cache mc ! s')"

lemma rebalance_remap_ok:
  assumes "has_buffer (cfg mc) (mc_tag_buffer mc)" "scheme (cfg mc) = HybridCache"
  shows "ok (rebalance_remap req tag mc) (\<lambda>mc'. \<exists>b sts. has_buffer (cfg mc) b \<and>
    mc' = mc\<lparr>tlb := (tlb mc)(tag \<mapsto> (tlb_at (tlb mc) tag)\<lparr>tlb_way := num_ways (cfg mc)\<rparr>), mc_tag_buffer := b, stats := sts\<rparr>)"
proof -
  let ?t = "(tlb mc)(tag \<mapsto> (tlb_at (tlb mc) tag)\<lparr>tlb_way := num_ways (cfg mc)\<rparr>)"
  obtain tb where tb: "mc_tag_buffer mc = Some tb" "tb_inv tb" by (rule has_bufferD [OF assms])
  obtain b where b: "canInsert tb tag = Some b" using tb.can1_total [OF tb(2)] by blast
  define tb1 where "tb1 = (if b then tb else flush_tag_buffer (cycle req) tb)"
  have i1: "tb_inv tb1" using tb(2) flush_tag_buffer_inv by (simp add: tb1_def)
  have c1: "canInsert tb1 tag = Some True"
    using b clear_canInsert [OF tb(2)] by (simp add: tb1_def flush_tag_buffer_def)
  obtain tb2 where tb2: "tb_insert tb1 tag True = Some tb2" "tb_inv tb2" using tb.ins_ok [OF i1 c1, of True] by blast
  define sts where "sts = (if b then stats mc else numTagBufferFlush_update Suc (stats mc))"
  have "rebalance_remap req tag mc = Some (mc\<lparr>tlb := ?t, mc_tag_buffer := Some tb2, stats := sts\<rparr>)"
    using tb(1) b c1 tb2(1) by (cases b) (simp_all add: rebalance_remap_def upd_tlb_def Let_def tb1_def sts_def stat_def)
  moreover have "has_buffer (cfg mc) (Some tb2)" using tb2(2) by (simp add: has_buffer_def)
  ultimately show ?thesis unfolding ok_def by blast
qed

lemma flushing_drop:
  assumes f: "flushing s mc" and w: "way < num_ways (cfg mc)"
    and mc1: "cfg mc1 = cfg mc" "cache mc1 = cache mc" "trace mc1 = trace mc" "ds_index mc1 = ds_index mc"
      "page_placement_policy mc1 = page_placement_policy mc" "line_placement_policy mc1 = line_placement_policy mc"
    and b: "has_buffer (cfg mc) (mc_tag_buffer mc1)"
    and t: "scheme (cfg mc) \<noteq> AlloyCache \<Longrightarrow> tlb mc1 = (if way_valid (cache mc ! s ! way)
        then (tlb mc)(way_tag (cache mc ! s ! way) \<mapsto> (tlb_at (tlb mc) (way_tag (cache mc ! s ! way)))\<lparr>tlb_way := num_ways (cfg mc)\<rparr>)
        else tlb mc)"
    and inv: "invalid mc s way"
  defines "mc2 \<equiv> upd_way s way (\<lambda>w. w\<lparr>way_valid := False, way_dirty := False\<rparr>) mc1"
  shows "flushing s mc2 \<and> only_set s mc mc2 \<and> invalid mc2 s (Suc way)"
proof -
  have F: "cfg_ok (cfg mc)" "scheme (cfg mc) = AlloyCache \<or> scheme (cfg mc) = HybridCache" "s < num_sets (cfg mc)"
    "shape_ok (cfg mc) (cache mc)" "scheme (cfg mc) = AlloyCache \<Longrightarrow> line_placement_policy mc \<noteq> None"
    "scheme (cfg mc) \<noteq> AlloyCache \<Longrightarrow> pages_ok (cfg mc) (cache mc) (tlb mc) (ds_index mc)"
    using f by (simp_all add: flushing_def)
  obtain ws where ws: "has_policy (cfg mc) ((cache mc)[s := ws]) (page_placement_policy mc)" using f by (auto simp: flushing_def)
  have len: "length (cache mc) = num_sets (cfg mc)" "length (cache mc ! s) = num_ways (cfg mc)"
    using F(3,4) by (simp_all add: shape_ok_def)
  define x where "x = (cache mc ! s ! way)\<lparr>way_valid := False, way_dirty := False\<rparr>"
  have eq: "mc2 = mc1\<lparr>cache := (cache mc)[s := (cache mc ! s)[way := x]]\<rparr>"
    by (simp add: mc2_def upd_way_def x_def mc1)
  have "pages_ok (cfg mc) ((cache mc)[s := (cache mc ! s)[way := x]]) (tlb mc1) (ds_index mc)" if na: "scheme (cfg mc) \<noteq> AlloyCache"
    unfolding t [OF na] by (rule pages_ok_drop [OF F(6) [OF na] F(4,3) w]) (simp_all add: x_def)
  moreover have "shape_ok (cfg mc) ((cache mc)[s := (cache mc ! s)[way := x]])" by (rule shape_ok_update [OF F(4,3)])
  ultimately have "flushing s mc2" using F(1-3,5) mc1 b ws by (auto simp: eq flushing_def)
  moreover have "only_set s mc mc2" using mc1 by (simp add: eq only_set_def)
  moreover have "invalid mc2 s (Suc way)"
    using inv len F(3) w by (auto simp: eq invalid_def x_def nth_list_update less_Suc_eq)
  ultimately show ?thesis by blast
qed

lemma only_set_trans: "only_set s mc mc1 \<Longrightarrow> only_set s mc1 mc2 \<Longrightarrow> only_set s mc mc2"
  by (simp add: only_set_def)

lemma rebalance_way_ok:
  assumes f: "flushing s mc" and w: "way < num_ways (cfg mc)" and inv: "invalid mc s way"
    and cv: "conv True base d0 req d" and t: "present ExtDram" "present (McDram ch)"
  shows "ok (rebalance_way dram req ch s way (mc, d))
    (\<lambda>(mc', d'). flushing s mc' \<and> only_set s mc mc' \<and> invalid mc' s (Suc way) \<and> conv True base d0 req d')"
proof -
  define x where "x = cache mc ! s ! way"
  define sz where "sz = granularity (cfg mc) div 64 * 4"
  have sz: "even sz" by (simp add: sz_def)
  have traffic: "pays base d0 req mc (if way_valid x \<and> way_dirty x
      then do {
        (_, _, d) \<leftarrow> dram (McDram ch) (sub_req req (way_tag x * 64) GETS (cycle req)) 2 sz d;
        (_, _, d) \<leftarrow> dram ExtDram (sub_req req (way_tag x * 64) GETS (cycle req)) 2 sz d;
        Some (add_mc_bw sz (add_ext_bw sz mc), d) }
      else Some (mc, d))" (is "pays _ _ _ _ ?m")
  proof (cases "way_valid x \<and> way_dirty x")
    case True
    show ?thesis unfolding if_P [OF True]
      by (rule pay_access [OF cv t(2) sz], simp, simp add: conv_req(1) [OF cv], rule pay_access, assumption,
        rule t(1), rule sz, simp, simp add: conv_req(1) [OF cv], rule paysI, assumption, simp)
  next
    case False
    show ?thesis unfolding if_not_P [OF False] by (rule paysI [OF cv same_core_refl])
  qed
  have b: "has_buffer (cfg mc) (mc_tag_buffer mc)" using f by (simp add: flushing_def)
  show ?thesis unfolding rebalance_way_def Let_def prod.case way_at_def x_def [symmetric] sz_def [symmetric]
  proof (rule ok_bind [OF traffic [unfolded pays_def]], clarify)
    fix mc1 d1 assume same: "same_core mc mc1" and cv1: "conv True base d0 req d1"
    note S = same_coreD [OF same]
    let ?P = "\<lambda>mc2. cfg mc2 = cfg mc \<and> cache mc2 = cache mc \<and> trace mc2 = trace mc \<and> ds_index mc2 = ds_index mc \<and>
      page_placement_policy mc2 = page_placement_policy mc \<and> line_placement_policy mc2 = line_placement_policy mc \<and>
      has_buffer (cfg mc) (mc_tag_buffer mc2) \<and>
      (scheme (cfg mc) \<noteq> AlloyCache \<longrightarrow> tlb mc2 = (if way_valid x
        then (tlb mc)(way_tag x \<mapsto> (tlb_at (tlb mc) (way_tag x))\<lparr>tlb_way := num_ways (cfg mc)\<rparr>) else tlb mc))"
    have remap: "ok (if scheme (cfg mc1) = HybridCache \<and> way_valid x then rebalance_remap req (way_tag x) mc1 else Some mc1) ?P"
    proof (rule ok_if)
      assume h: "scheme (cfg mc1) = HybridCache \<and> way_valid x"
      have "has_buffer (cfg mc1) (mc_tag_buffer mc1)" "scheme (cfg mc1) = HybridCache" using b S h by simp_all
      from rebalance_remap_ok [OF this] show "ok (rebalance_remap req (way_tag x) mc1) ?P"
        by (rule ok_conseq) (use S h in auto)
    next
      assume "\<not> (scheme (cfg mc1) = HybridCache \<and> way_valid x)"
      then show "ok (Some mc1) ?P" using S b f by (auto simp: flushing_def)
    qed
    show "ok (do { mc \<leftarrow> (if scheme (cfg mc1) = HybridCache \<and> way_valid x then rebalance_remap req (way_tag x) mc1 else Some mc1);
        Some (upd_way s way (\<lambda>w. w\<lparr>way_valid := False, way_dirty := False\<rparr>) mc, d1) })
        (\<lambda>(mc', d'). flushing s mc' \<and> only_set s mc mc' \<and> invalid mc' s (Suc way) \<and> conv True base d0 req d')"
      by (rule ok_bind [OF remap]) (use flushing_drop [OF f w _ _ _ _ _ _ _ _ inv] cv1 in \<open>simp add: x_def\<close>)
  qed
qed

lemma flushing_start:
  assumes "state_ok mc" "scheme (cfg mc) = AlloyCache \<or> scheme (cfg mc) = HybridCache" "s < num_sets (cfg mc)"
  shows "flushing s mc"
  using state_okD [OF assms(1)] assms(2,3) exI [of _ "cache mc ! s"] by (auto simp: flushing_def)

lemma flushing_end:
  assumes f: "flushing s mc" and inv: "invalid mc s (num_ways (cfg mc))"
    and p: "scheme (cfg mc) = HybridCache \<Longrightarrow> page_placement_policy mc = Some pp"
  shows "state_ok (if scheme (cfg mc) = HybridCache then mc\<lparr>page_placement_policy := Some (flushChunk pp s)\<rparr> else mc)"
proof -
  have F: "cfg_ok (cfg mc)" "scheme (cfg mc) = AlloyCache \<or> scheme (cfg mc) = HybridCache" "s < num_sets (cfg mc)"
    "shape_ok (cfg mc) (cache mc)" "scheme (cfg mc) = AlloyCache \<Longrightarrow> line_placement_policy mc \<noteq> None"
    "scheme (cfg mc) \<noteq> AlloyCache \<Longrightarrow> pages_ok (cfg mc) (cache mc) (tlb mc) (ds_index mc)"
    "has_buffer (cfg mc) (mc_tag_buffer mc)"
    using f by (simp_all add: flushing_def)
  have len: "length (cache mc ! s) = num_ways (cfg mc)" using F(3,4) by (simp add: shape_ok_def)
  have "has_policy (cfg mc) (cache mc) (Some (flushChunk pp s))" if h: "scheme (cfg mc) = HybridCache"
  proof -
    obtain ws where "has_policy (cfg mc) ((cache mc)[s := ws]) (Some pp)" using f p h by (auto simp: flushing_def)
    then have pp: "policy_ok (cfg mc) ((cache mc)[s := ws]) pp" using h by (auto simp: has_policy_def)
    have "pp_ok (num_ways (cfg mc)) (num_sets (cfg mc)) ((cache mc)[s := ws, s := cache mc ! s]) (flushChunk pp s)"
      by (rule flushChunk_ok) (use pp F(3) len inv in \<open>simp_all add: policy_ok_def invalid_def\<close>)
    then show ?thesis using pp h by (auto simp: has_policy_def policy_ok_def flushChunk_def set_entries_def)
  qed
  then show ?thesis using F by (auto simp: state_ok_def cached_scheme_def has_policy_def)
qed

lemma rebalance_set_ok:
  assumes st: "state_ok mc" and sch: "scheme (cfg mc) = AlloyCache \<or> scheme (cfg mc) = HybridCache" and s: "s < num_sets (cfg mc)"
    and cv: "conv True base d0 req d" and t: "present ExtDram" "present (McDram ch)"
  shows "ok (rebalance_set dram req ch s (mc, d))
    (\<lambda>(mc', d'). state_ok mc' \<and> only_set s mc mc' \<and> invalid mc' s (num_ways (cfg mc)) \<and> conv True base d0 req d')"
proof -
  let ?P = "\<lambda>n (mc', d'). flushing s mc' \<and> only_set s mc mc' \<and> invalid mc' s n \<and> conv True base d0 req d'"
  have loop: "ok (foldM (\<lambda>way. rebalance_way dram req ch s way) [0..<num_ways (cfg mc)] (mc, d)) (?P (num_ways (cfg mc)))"
  proof (rule ok_foldM_upt, simp)
    show "?P 0 (mc, d)" using flushing_start [OF st sch s] cv by (simp add: only_set_def invalid_def)
    show "ok (rebalance_way dram req ch s way st') (?P (Suc way))" if "way < num_ways (cfg mc)" "?P way st'" for way st'
    proof (cases st')
      case (Pair mc1 d1)
      have P: "flushing s mc1" "only_set s mc mc1" "invalid mc1 s way" "conv True base d0 req d1" using that(2) Pair by auto
      have "way < num_ways (cfg mc1)" using that(1) P(2) by (simp add: only_set_def)
      from rebalance_way_ok [OF P(1) this P(3,4) t] show ?thesis
        unfolding Pair by (rule ok_conseq) (use only_set_trans [OF P(2)] in auto)
    qed
  qed
  show ?thesis unfolding rebalance_set_def prod.case
  proof (rule ok_bind [OF loop], clarify)
    fix mc1 d1 assume P: "flushing s mc1" "only_set s mc mc1" "invalid mc1 s (num_ways (cfg mc))" "conv True base d0 req d1"
    have c1: "cfg mc1 = cfg mc" using P(2) by (simp add: only_set_def)
    have pp: "\<exists>pp. page_placement_policy mc1 = Some pp" if "scheme (cfg mc1) = HybridCache"
      using P(1) that by (auto simp: flushing_def has_policy_def)
    show "ok (if scheme (cfg mc1) = HybridCache
        then do { pp \<leftarrow> page_placement_policy mc1; Some (mc1\<lparr>page_placement_policy := Some (flushChunk pp s)\<rparr>, d1) }
        else Some (mc1, d1))
        (\<lambda>(mc', d'). state_ok mc' \<and> only_set s mc mc' \<and> invalid mc' s (num_ways (cfg mc)) \<and> conv True base d0 req d')"
    proof (rule ok_if)
      assume h: "scheme (cfg mc1) = HybridCache"
      then obtain q where q: "page_placement_policy mc1 = Some q" using pp by blast
      then show "ok (do { pp \<leftarrow> page_placement_policy mc1; Some (mc1\<lparr>page_placement_policy := Some (flushChunk pp s)\<rparr>, d1) })
          (\<lambda>(mc', d'). state_ok mc' \<and> only_set s mc mc' \<and> invalid mc' s (num_ways (cfg mc)) \<and> conv True base d0 req d')"
        using flushing_end [OF P(1), of q] P h c1 by (simp add: only_set_def invalid_def)
    next
      assume "scheme (cfg mc1) \<noteq> HybridCache"
      then show "ok (Some (mc1, d1))
          (\<lambda>(mc', d'). state_ok mc' \<and> only_set s mc mc' \<and> invalid mc' s (num_ways (cfg mc)) \<and> conv True base d0 req d')"
        using flushing_end [OF P(1)] P c1 by simp
    qed
  qed
qed

text \<open>The state after emptying the sets from \<open>a\<close> below \<open>b\<close>.\<close>

definition emptied :: "nat \<Rightarrow> nat \<Rightarrow> MemReq \<Rightarrow> 'd \<Rightarrow> MemReq \<Rightarrow> MemoryController \<Rightarrow> MemoryController \<times> 'd \<Rightarrow> bool" where
  "emptied a b base d0 req mc = (\<lambda>(mc', d').
     state_ok mc' \<and> cfg mc' = cfg mc \<and> trace mc' = trace mc \<and> ds_index mc' = ds_index mc \<and>
     (\<forall>s. a \<le> s \<longrightarrow> s < b \<longrightarrow> invalid mc' s (num_ways (cfg mc))) \<and> conv True base d0 req d')"

lemma rebalance_channel_ok:
  assumes sch: "scheme (cfg mc) = AlloyCache \<or> scheme (cfg mc) = HybridCache"
    and P: "emptied a a base d0 req mc (mc1, d1)" and b: "a \<le> b" "b \<le> num_sets (cfg mc)" and t: "present ExtDram" "present (McDram ch)"
  shows "ok (foldM (\<lambda>s. rebalance_set dram req ch s) [a..<b] (mc1, d1)) (emptied a b base d0 req mc)"
proof (rule ok_foldM_upt [OF b(1)])
  show "emptied a a base d0 req mc (mc1, d1)" by (rule P)
  show "ok (rebalance_set dram req ch s st) (emptied a (Suc s) base d0 req mc)"
    if "a \<le> s" "s < b" "emptied a s base d0 req mc st" for s st
  proof (cases st)
    case (Pair mc2 d2)
    have E: "state_ok mc2" "cfg mc2 = cfg mc" "trace mc2 = trace mc" "ds_index mc2 = ds_index mc"
      "\<forall>s'. a \<le> s' \<longrightarrow> s' < s \<longrightarrow> invalid mc2 s' (num_ways (cfg mc))" "conv True base d0 req d2"
      using that(3) Pair by (simp_all add: emptied_def)
    have s: "s < num_sets (cfg mc2)" and sch2: "scheme (cfg mc2) = AlloyCache \<or> scheme (cfg mc2) = HybridCache"
      using that(2) b(2) E(2) sch by simp_all
    from rebalance_set_ok [OF E(1) sch2 s E(6) t] show ?thesis
      unfolding Pair by (rule ok_conseq) (use E in \<open>auto simp: emptied_def only_set_def invalid_def less_Suc_eq\<close>)
  qed
qed

lemma pages_ok_ds:
  assumes "pages_ok c cs t ds" "\<And>s w. s < num_sets c \<Longrightarrow> w < num_ways c \<Longrightarrow> way_valid (cs ! s ! w) \<Longrightarrow> ds \<le> s \<Longrightarrow> ds' \<le> s"
  shows "pages_ok c cs t ds'"
  using assms by (auto simp: pages_ok_def way_ok_def)

lemma state_ok_ds:
  assumes st: "state_ok mc" and t: "scheme (cfg mc) \<noteq> Tagless"
    and "\<And>s w. s < num_sets (cfg mc) \<Longrightarrow> w < num_ways (cfg mc) \<Longrightarrow> way_valid (cache mc ! s ! w) \<Longrightarrow> ds_index mc \<le> s \<Longrightarrow> ds \<le> s"
  shows "state_ok (mc\<lparr>ds_index := ds\<rparr>)"
  using state_okD [OF st] t pages_ok_ds [of "cfg mc" "cache mc" "tlb mc" "ds_index mc" ds] assms(3) by (simp add: state_ok_def)

lemma rebalance_sets_ok:
  assumes st: "state_ok mc" and sch: "scheme (cfg mc) = AlloyCache \<or> scheme (cfg mc) = HybridCache"
    and cv: "conv True base d0 req d" and t: "attached (cfg mc)"
    and b: "b \<le> num_sets (cfg mc)"
  shows "ok (foldM (\<lambda>ch. foldM (\<lambda>s. rebalance_set dram req ch s) [ds_index mc..<b]) [0..<mcdram_per_mc (cfg mc)] (mc, d))
    (emptied (ds_index mc) b base d0 req mc)"
proof -
  let ?a = "ds_index mc"
  have start: "emptied ?a ?a base d0 req mc (mc, d)" using st cv by (simp add: emptied_def)
  have weak: "emptied ?a ?a base d0 req mc st'" if "emptied ?a b base d0 req mc st'" for st'
    using that by (cases st') (simp add: emptied_def)
  let ?P = "\<lambda>(i::nat) st'. emptied ?a ?a base d0 req mc st' \<and> (0 < i \<longrightarrow> emptied ?a b base d0 req mc st')"
  have "ok (foldM (\<lambda>ch. foldM (\<lambda>s. rebalance_set dram req ch s) [?a..<b]) [0..<mcdram_per_mc (cfg mc)] (mc, d)) (?P (mcdram_per_mc (cfg mc)))"
  proof (rule ok_foldM_upt, simp)
    show "?P 0 (mc, d)" using start by simp
    show "ok (foldM (\<lambda>s. rebalance_set dram req ch s) [?a..<b] st') (?P (Suc ch))"
      if ch: "ch < mcdram_per_mc (cfg mc)" and P: "?P ch st'" for ch st'
    proof (cases "?a \<le> b")
      case True
      have p: "present ExtDram" "present (McDram ch)" using t ch by (simp_all add: attached_def)
      obtain mc1 d1 where [simp]: "st' = (mc1, d1)" by (cases st')
      have "ok (foldM (\<lambda>s. rebalance_set dram req ch s) [?a..<b] (mc1, d1)) (emptied ?a b base d0 req mc)"
        by (rule rebalance_channel_ok [OF sch _ True _ p]) (use P b in simp_all)
      then show ?thesis unfolding \<open>st' = (mc1, d1)\<close> by (rule ok_conseq) (use weak in auto)
    next
      case False
      then have "[?a..<b] = []" by simp
      moreover have "emptied ?a b base d0 req mc st'" using P False by (cases st') (auto simp: emptied_def)
      ultimately show ?thesis using P by (simp only: foldM.simps ok_simps) blast
    qed
  qed
  moreover have "0 < mcdram_per_mc (cfg mc)" by (rule cfg_okD(1) [OF state_okD(1,2) [OF st]])
  ultimately show ?thesis by (simp add: ok_def) blast
qed

lemma mc_rebalance_ok:
  assumes st: "state_ok mc" and bw: "bw_balance (cfg mc)" and cv: "conv True base d0 req d" and t: "attached (cfg mc)"
  shows "ok (mc_rebalance dram req mc d) (\<lambda>(mc', d'). state_ok mc' \<and> cfg mc' = cfg mc \<and> trace mc' = trace mc \<and> conv True base d0 req d')"
proof -
  have sch: "scheme (cfg mc) = AlloyCache \<or> scheme (cfg mc) = HybridCache"
    using cfg_okD(8) [OF state_okD(1,2) [OF st] bw] .
  define delta where "delta = delta_index (cfg mc) (step mc)"
  define ds where "ds = (if int (ds_index mc) + delta \<le> 0 then 0 else nat (int (ds_index mc) + delta))"
  define b where "b = min (ds_index mc + nat delta) (num_sets (cfg mc))"
  have loop: "ok (if 0 < delta
      then foldM (\<lambda>ch. foldM (\<lambda>s. rebalance_set dram req ch s) [ds_index mc..<b]) [0..<mcdram_per_mc (cfg mc)] (mc, d)
      else Some (mc, d)) (\<lambda>st'. emptied (ds_index mc) (if 0 < delta then b else ds_index mc) base d0 req mc st')"
  proof (rule ok_if)
    assume "0 < delta"
    then show "ok (foldM (\<lambda>ch. foldM (\<lambda>s. rebalance_set dram req ch s) [ds_index mc..<b]) [0..<mcdram_per_mc (cfg mc)] (mc, d))
        (\<lambda>st'. emptied (ds_index mc) (if 0 < delta then b else ds_index mc) base d0 req mc st')"
      using rebalance_sets_ok [OF st sch cv t, of b] by (simp add: b_def)
  next
    assume "\<not> 0 < delta"
    then show "ok (Some (mc, d)) (\<lambda>st'. emptied (ds_index mc) (if 0 < delta then b else ds_index mc) base d0 req mc st')"
      using st cv by (simp add: emptied_def)
  qed
  show ?thesis unfolding mc_rebalance_def Let_def delta_def [symmetric] b_def [symmetric] ds_def [symmetric]
  proof (rule ok_bind [OF loop], clarify)
    fix mc1 d1 assume "emptied (ds_index mc) (if 0 < delta then b else ds_index mc) base d0 req mc (mc1, d1)"
    then have E: "state_ok mc1" "cfg mc1 = cfg mc" "trace mc1 = trace mc" "ds_index mc1 = ds_index mc"
      "\<forall>s. ds_index mc \<le> s \<longrightarrow> s < (if 0 < delta then b else ds_index mc) \<longrightarrow> invalid mc1 s (num_ways (cfg mc))" "conv True base d0 req d1"
      by (simp_all add: emptied_def)
    have "ds \<le> s" if "s < num_sets (cfg mc)" "w < num_ways (cfg mc)" "way_valid (cache mc1 ! s ! w)" "ds_index mc \<le> s" for s w
    proof -
      have "\<not> s < (if 0 < delta then b else ds_index mc)" using E(5) that by (auto simp: invalid_def)
      then show ?thesis using that(1,4) by (auto simp: ds_def b_def split: if_splits)
    qed
    then have "state_ok (mc1\<lparr>ds_index := ds\<rparr>)" using state_ok_ds [OF E(1), of ds] sch E(2,4) by auto
    then show "ok (Some (mc1\<lparr>ds_index := ds\<rparr>, d1))
        (\<lambda>(mc', d'). state_ok mc' \<and> cfg mc' = cfg mc \<and> trace mc' = trace mc \<and> conv True base d0 req d')"
      using E by simp
  qed
qed

section \<open>The whole access\<close>

lemma mc_step_ok:
  assumes st: "state_ok mc" and cv: "conv True base d0 req d" and t: "attached (cfg mc)"
  shows "ok (mc_step dram req mc d) (\<lambda>(mc', d'). state_ok mc' \<and> cfg mc' = cfg mc \<and> trace mc' = trace mc \<and> conv True base d0 req d')"
proof -
  let ?mc = "mc\<lparr>step := halve_step (step mc)\<rparr>"
  have st1: "state_ok ?mc" by (rule state_ok_core [OF _ st]) simp
  have "ok (mc_rebalance dram req ?mc d) (\<lambda>(mc', d'). state_ok mc' \<and> cfg mc' = cfg mc \<and> trace mc' = trace mc \<and> conv True base d0 req d')"
    if "bw_balance (cfg mc)"
    using mc_rebalance_ok [OF st1 _ cv] that t by simp
  then show ?thesis using cfg_okD(4) [OF state_okD(1,2) [OF st]] st st1 cv by (simp add: mc_step_def Let_def)
qed

lemma mc_finish_ok:
  assumes S: "served base d0 l mc0 (ready_cycle, ca, mc, d, req)" and t: "attached (cfg mc0)" "present (McDram (l_select l))"
  shows "ok (do {
      (mc, d) \<leftarrow> mc_counter dram l ca mc d req;
      mc \<leftarrow> mc_flush req mc;
      mc \<leftarrow> mc_remap_os mc;
      (mc, d) \<leftarrow> mc_step dram req mc d;
      Some (ready_cycle, mc, d) })
    (\<lambda>(c, mc', d'). cycle base \<le> c \<and> state_ok mc' \<and> cfg mc' = cfg mc0 \<and> trace mc' = trace mc0 \<and> conv True base d0 req d')"
proof -
  have S': "cycle base \<le> ready_cycle" "state_ok mc" "cfg mc = cfg mc0" "trace mc = trace mc0" "ca \<longrightarrow> ds_index mc \<le> l_set l"
    "conv True base d0 req d" using S by (simp_all add: served_def)
  show ?thesis
  proof (rule ok_bind [OF mc_counter_ok [OF S'(6) t(2) S'(5), unfolded pays_def]], clarify)
    fix mc1 d1 assume s1: "same_core mc mc1" and cv1: "conv True base d0 req d1"
    have st1: "state_ok mc1" by (rule state_ok_core [OF s1 S'(2)])
    show "ok (do { mc \<leftarrow> mc_flush req mc1; mc \<leftarrow> mc_remap_os mc; (mc, d) \<leftarrow> mc_step dram req mc d1; Some (ready_cycle, mc, d) })
        (\<lambda>(c, mc', d'). cycle base \<le> c \<and> state_ok mc' \<and> cfg mc' = cfg mc0 \<and> trace mc' = trace mc0 \<and> conv True base d0 req d')"
    proof (rule ok_bind [OF mc_flush_ok [OF state_okD(7) [OF st1]]])
      fix mc2 assume "buffered mc1 mc2"
      then have B: "state_ok mc2" "cfg mc2 = cfg mc1" "trace mc2 = trace mc1" using buffered_state_ok st1 by auto
      show "ok (do { mc \<leftarrow> mc_remap_os mc2; (mc, d) \<leftarrow> mc_step dram req mc d1; Some (ready_cycle, mc, d) })
          (\<lambda>(c, mc', d'). cycle base \<le> c \<and> state_ok mc' \<and> cfg mc' = cfg mc0 \<and> trace mc' = trace mc0 \<and> conv True base d0 req d')"
      proof (rule ok_bind [OF mc_remap_os_ok [OF B(1)]])
        fix mc3 assume s3: "same_core mc2 mc3"
        have c3: "cfg mc3 = cfg mc0" "trace mc3 = trace mc0" using s1 s3 B S' by (simp_all add: same_core_def)
        show "ok (do { (mc, d) \<leftarrow> mc_step dram req mc3 d1; Some (ready_cycle, mc, d) })
            (\<lambda>(c, mc', d'). cycle base \<le> c \<and> state_ok mc' \<and> cfg mc' = cfg mc0 \<and> trace mc' = trace mc0 \<and> conv True base d0 req d')"
          by (rule ok_bind [OF mc_step_ok [OF state_ok_core [OF s3 B(1)] cv1]]) (use t(1) c3 S'(1) in auto)
      qed
    qed
  qed
qed

lemma mc_cached_ok:
  assumes st: "state_ok mc" and l: "locals_ok (cfg mc) base l" and rd: "rdy (srcId base) d0"
    and t: "attached (cfg mc)" and rt: "req_type base \<noteq> PUTS"
  shows "ok (mc_cached dram l mc d0 base) (\<lambda>(c, mc', d'). cycle base \<le> c \<and> state_ok mc' \<and> cfg mc' = cfg mc \<and> trace mc' = trace mc \<and>
    pnd (cycle base) (srcId base) d' \<and> (\<forall>s. s \<noteq> srcId base \<longrightarrow> rdy s d0 \<longrightarrow> rdy s d'))"
proof -
  have p: "present ExtDram" "present (McDram (l_select l))" using t l by (simp_all add: attached_def locals_ok_def)
  show ?thesis unfolding mc_cached_def
  proof (rule ok_bind [OF mc_probe_ok [OF st l conv_start [OF rd] p(2) rt]], clarify)
    fix way probe mc1 d1 req1 assume "probed_ok base d0 l mc (way, probe, mc1, d1, req1)"
    then have P: "state_ok mc1" "cfg mc1 = cfg mc" "trace mc1 = trace mc" "probed l mc1 way" "probe \<longrightarrow> \<not> sram_tag (cfg mc1)"
      "conv (tag_read l mc1) base d0 req1 d1" by (simp_all add: probed_ok_def)
    have l1: "locals_ok (cfg mc1) base l" using l P(2) by simp
    have serve: "ok (if way \<noteq> num_ways (cfg mc1) then mc_hit dram l probe way mc1 d1 req1 else mc_miss dram l probe mc1 d1 req1)
        (served base d0 l mc1)"
    proof (rule ok_if)
      show "ok (mc_hit dram l probe way mc1 d1 req1) (served base d0 l mc1)" if "way \<noteq> num_ways (cfg mc1)"
        by (rule mc_hit_ok [OF _ P(6) p(2) rt P(5)]) (use P(1,4) l1 that in \<open>simp add: hit_at_def\<close>)
      show "ok (mc_miss dram l probe mc1 d1 req1) (served base d0 l mc1)" if "\<not> way \<noteq> num_ways (cfg mc1)"
        by (rule mc_miss_ok [OF P(1) l1 _ P(6) p rt]) (use P(4) that in simp)
    qed
    show "ok (do {
        (data_ready_cycle, counter_access, mc, d, req) \<leftarrow>
          (if way \<noteq> num_ways (cfg mc1) then mc_hit dram l probe way mc1 d1 req1 else mc_miss dram l probe mc1 d1 req1);
        (mc, d) \<leftarrow> mc_counter dram l counter_access mc d req;
        mc \<leftarrow> mc_flush req mc;
        mc \<leftarrow> mc_remap_os mc;
        (mc, d) \<leftarrow> mc_step dram req mc d;
        Some (data_ready_cycle, mc, d) })
        (\<lambda>(c, mc', d'). cycle base \<le> c \<and> state_ok mc' \<and> cfg mc' = cfg mc \<and> trace mc' = trace mc \<and>
          pnd (cycle base) (srcId base) d' \<and> (\<forall>s. s \<noteq> srcId base \<longrightarrow> rdy s d0 \<longrightarrow> rdy s d'))"
    proof (rule ok_bind [OF serve], clarify)
      fix rc ca mc2 d2 req2 assume S: "served base d0 l mc1 (rc, ca, mc2, d2, req2)"
      have "attached (cfg mc1)" using t P(2) by simp
      from mc_finish_ok [OF S this p(2)]
      show "ok (do {
          (mc, d) \<leftarrow> mc_counter dram l ca mc2 d2 req2;
          mc \<leftarrow> mc_flush req2 mc;
          mc \<leftarrow> mc_remap_os mc;
          (mc, d) \<leftarrow> mc_step dram req2 mc d;
          Some (rc, mc, d) })
          (\<lambda>(c, mc', d'). cycle base \<le> c \<and> state_ok mc' \<and> cfg mc' = cfg mc \<and> trace mc' = trace mc \<and>
            pnd (cycle base) (srcId base) d' \<and> (\<forall>s. s \<noteq> srcId base \<longrightarrow> rdy s d0 \<longrightarrow> rdy s d'))"
        by (rule ok_conseq) (use P(2,3) in \<open>auto simp: conv_def\<close>)
    qed
  qed
qed

text \<open>
  The theorem about the whole access.  The memories that the controller uses depend on the scheme:
  without a cache only the external DRAM, with \<open>CacheOnly\<close> only the in-package DRAM.
\<close>

definition attached_for :: "mc_config \<Rightarrow> bool" where
  "attached_for c \<longleftrightarrow>
     (scheme c \<noteq> CacheOnly \<longrightarrow> present ExtDram) \<and>
     (scheme c \<noteq> NoCache \<longrightarrow> (\<forall>i < mcdram_per_mc c. present (McDram i)))"

lemma direct_ok:
  assumes "rdy (srcId base) d" "present t" "req_type base \<noteq> PUTS" "r = base \<or> r = base\<lparr>lineAddr := a\<rparr>"
  shows "ok (dram t r 0 4 d) (\<lambda>(c, st, d'). cycle base \<le> c \<and> st = mem_grant base \<and> pnd (cycle base) (srcId base) d' \<and>
    (\<forall>s. s \<noteq> srcId base \<longrightarrow> rdy s d \<longrightarrow> rdy s d'))"
proof -
  have r: "cycle r = cycle base" "srcId r = srcId base" "req_type r = req_type base" "mem_grant r = mem_grant base"
    using assms(4) by (auto simp: mem_grant_def req_is_def)
  then show ?thesis using dram_first [of t 4 r d] assms(1-3) by (auto simp: ok_def)
qed

lemma mc_inv_simps:
  "mc_inv (mc\<lparr>num_requests := n\<rparr>) = mc_inv mc" "mc_inv (stat f mc) = mc_inv mc"
  by (simp_all add: mc_inv_def trace_ok_def state_ok_def stat_def)

lemma mc_access_ok:
  assumes inv: "mc_inv mc" and t: "attached_for (cfg mc)" and rd: "rdy (srcId req) d" and rt: "req_type req \<noteq> PUTS"
  shows "ok (mc_access dram mc d req) (\<lambda>(c, st, mc', d'). cycle req \<le> c \<and> st = mem_grant req \<and> mc_inv mc' \<and> cfg mc' = cfg mc \<and>
    pnd (cycle req) (srcId req) d' \<and> (\<forall>s. s \<noteq> srcId req \<longrightarrow> rdy s d \<longrightarrow> rdy s d'))"
  unfolding mc_access_def if_not_P [OF rt] Let_def
proof (rule ok_bind [OF mc_trace_ok [OF inv]], clarify)
  fix mc0 assume i0: "mc_inv mc0" and c0: "cfg mc0 = cfg mc"
  define mc1 where "mc1 = mc0\<lparr>num_requests := num_requests mc0 + 1\<rparr>"
  have i1: "mc_inv mc1" and c1: "cfg mc1 = cfg mc" using i0 c0 by (simp_all add: mc1_def mc_inv_simps)
  have cok: "cfg_ok (cfg mc)" using i1 c1 by (simp add: mc_inv_def)
  let ?Q = "\<lambda>(c, st, mc', d'). cycle req \<le> c \<and> st = mem_grant req \<and> mc_inv mc' \<and> cfg mc' = cfg mc \<and>
    pnd (cycle req) (srcId req) d' \<and> (\<forall>s. s \<noteq> srcId req \<longrightarrow> rdy s d \<longrightarrow> rdy s d')"
  have direct: "ok (do { (c, st, d) \<leftarrow> dram t r 0 4 d; Some (c, st, stat (numLoadHit_update Suc) mc1, d) }) ?Q"
    if "present t" "r = req \<or> r = req\<lparr>lineAddr := a\<rparr>" for t r a
    by (rule ok_bind [OF direct_ok [OF rd that(1) rt that(2)]]) (use i1 c1 in \<open>auto simp: mc_inv_simps\<close>)
  have split: "\<exists>l. mc_split (cfg mc) req = Some l \<and> l_select l < mcdram_per_mc (cfg mc) \<and>
      (cached_scheme (scheme (cfg mc)) \<longrightarrow> locals_ok (cfg mc) req l)" if "scheme (cfg mc) \<noteq> NoCache"
  proof (cases "scheme (cfg mc) = CacheOnly")
    case True
    then show ?thesis using cok by (simp add: mc_split_def cfg_ok_def cached_scheme_def div_greater_zero_iff Let_def)
  next
    case False
    then have "cached_scheme (scheme (cfg mc))" using that by (simp add: cached_scheme_def)
    then show ?thesis using mc_split_ok [OF cok _ rt] by (auto simp: locals_ok_def)
  qed
  show "ok (if scheme (cfg mc1) = NoCache
        then do { (c, st, d) \<leftarrow> dram ExtDram req 0 4 d; Some (c, st, stat (numLoadHit_update Suc) mc1, d) }
        else do {
          l \<leftarrow> mc_split (cfg mc1) req;
          if scheme (cfg mc1) = CacheOnly
          then do {
            (c, st, d) \<leftarrow> dram (McDram (l_select l)) (req\<lparr>lineAddr := l_mc_address l\<rparr>) 0 4 d;
            Some (c, st, stat (numLoadHit_update Suc) mc1, d) }
          else do { (c, mc, d) \<leftarrow> mc_cached dram l mc1 d req; Some (c, mem_grant req, mc, d) } }) ?Q"
  proof (rule ok_if)
    show "ok (do { (c, st, d) \<leftarrow> dram ExtDram req 0 4 d; Some (c, st, stat (numLoadHit_update Suc) mc1, d) }) ?Q"
      if "scheme (cfg mc1) = NoCache"
      by (rule direct) (use t c1 that in \<open>simp_all add: attached_for_def\<close>)
    assume nc: "\<not> scheme (cfg mc1) = NoCache"
    then obtain l where l: "mc_split (cfg mc1) req = Some l" "l_select l < mcdram_per_mc (cfg mc)"
      "cached_scheme (scheme (cfg mc)) \<longrightarrow> locals_ok (cfg mc) req l" using split c1 by auto
    have only: "ok (do { (c, st, d) \<leftarrow> dram (McDram (l_select l)) (req\<lparr>lineAddr := l_mc_address l\<rparr>) 0 4 d;
        Some (c, st, stat (numLoadHit_update Suc) mc1, d) }) ?Q"
      by (rule direct) (use t c1 nc l(2) in \<open>auto simp: attached_for_def\<close>)
    have cached: "ok (do { (c, mc, d) \<leftarrow> mc_cached dram l mc1 d req; Some (c, mem_grant req, mc, d) }) ?Q"
      if co: "scheme (cfg mc1) \<noteq> CacheOnly"
    proof -
      have sch: "cached_scheme (scheme (cfg mc1))" using nc co by (simp add: cached_scheme_def)
      have st1: "state_ok mc1" and tr: "trace_ok mc1" using i1 sch by (simp_all add: mc_inv_def)
      have at: "attached (cfg mc1)" using t co nc c1 by (simp add: attached_for_def attached_def)
      have l1: "locals_ok (cfg mc1) req l" using l(3) sch c1 by simp
      show ?thesis
        by (rule ok_bind [OF mc_cached_ok [OF st1 l1 rd at rt]])
          (use tr c1 cok sch in \<open>auto simp: mc_inv_def trace_ok_def\<close>)
    qed
    show "ok (do {
          l \<leftarrow> mc_split (cfg mc1) req;
          if scheme (cfg mc1) = CacheOnly
          then do {
            (c, st, d) \<leftarrow> dram (McDram (l_select l)) (req\<lparr>lineAddr := l_mc_address l\<rparr>) 0 4 d;
            Some (c, st, stat (numLoadHit_update Suc) mc1, d) }
          else do { (c, mc, d) \<leftarrow> mc_cached dram l mc1 d req; Some (c, mem_grant req, mc, d) } }) ?Q"
      using only cached l(1) by simp
  qed
qed

end

end
