(* ===== verification/Config.thy ===== *)
theory Config
  imports Numerics
begin

text \<open>
  Configuration values (\<open>src/src/config.h\<close>, \<open>src/src/config.cpp\<close>): typed reads with and without a default,
  and the parsers of token lists, number lists and range masks.

  The parsed input file belongs to the library libconfig; it is the record \<open>Config\<close> of its queries,
  one typed lookup per type.  The copy of every value read that \<open>outCfg\<close> collects for the output
  file is not modelled.  A panic is \<open>None\<close>.
\<close>

section \<open>Reading settings\<close>

record Config =
  cfg_exists :: "string \<Rightarrow> bool"
  cfg_int :: "string \<Rightarrow> int option"
  cfg_bool :: "string \<Rightarrow> bool option"
  cfg_str :: "string \<Rightarrow> string option"
  cfg_double :: "string \<Rightarrow> double option"

definition genericGet :: "Config \<Rightarrow> (string \<Rightarrow> 'a option) \<Rightarrow> string \<Rightarrow> 'a option" where
  "genericGet c lookupValue key = (if cfg_exists c key then lookupValue key else None)"

definition genericGet_default :: "Config \<Rightarrow> (string \<Rightarrow> 'a option) \<Rightarrow> string \<Rightarrow> 'a \<Rightarrow> 'a option" where
  "genericGet_default c lookupValue key def = (if cfg_exists c key then lookupValue key else Some def)"

text \<open>\<open>uint32_t\<close> settings are stored as \<open>int\<close> and converted.\<close>

definition get_uint32 :: "Config \<Rightarrow> string \<Rightarrow> nat option" where
  "get_uint32 c key = map_option (\<lambda>v. nat (v mod 2 ^ 32)) (genericGet c (cfg_int c) key)"

definition get_uint32_default :: "Config \<Rightarrow> string \<Rightarrow> nat \<Rightarrow> nat option" where
  "get_uint32_default c key def = map_option (\<lambda>v. nat (v mod 2 ^ 32)) (genericGet_default c (cfg_int c) key (int def))"

definition get_bool_default :: "Config \<Rightarrow> string \<Rightarrow> bool \<Rightarrow> bool option" where
  "get_bool_default c key def = genericGet_default c (cfg_bool c) key def"

definition get_str :: "Config \<Rightarrow> string \<Rightarrow> string option" where
  "get_str c key = genericGet c (cfg_str c) key"

definition get_str_default :: "Config \<Rightarrow> string \<Rightarrow> string \<Rightarrow> string option" where
  "get_str_default c key def = genericGet_default c (cfg_str c) key def"

definition get_double :: "Config \<Rightarrow> string \<Rightarrow> double option" where
  "get_double c key = genericGet c (cfg_double c) key"

definition get_double_default :: "Config \<Rightarrow> string \<Rightarrow> double \<Rightarrow> double option" where
  "get_double_default c key def = genericGet_default c (cfg_double c) key def"

section \<open>Tokens\<close>

text \<open>
  \<open>Tokenize\<close> searches alternately for the next delimiter and the next other character; on lists these are
  \<open>takeWhile\<close> and \<open>dropWhile\<close>.  Delimiters at the start give an empty first token.
\<close>

function Tokenize :: "string \<Rightarrow> string \<Rightarrow> string list" where
  "Tokenize delimiters str =
     (let token = takeWhile (\<lambda>c. c \<notin> set delimiters) str;
          rest = dropWhile (\<lambda>c. c \<notin> set delimiters) str;
          next = dropWhile (\<lambda>c. c \<in> set delimiters) rest
      in token # (if rest = [] \<or> next = [] then [] else Tokenize delimiters next))"
  by pat_completeness auto
termination
proof (relation "measure (\<lambda>(d, s). length s)")
  fix delimiters str rest "next" :: string
  assume rest: "rest = dropWhile (\<lambda>c. c \<notin> set delimiters) str" and nxt: "next = dropWhile (\<lambda>c. c \<in> set delimiters) rest"
    and ne: "\<not> (rest = [] \<or> next = [])"
  obtain c cs where r: "rest = c # cs" using ne by (cases rest) blast+
  have "c \<in> set delimiters" using rest r dropWhile_eq_Cons_conv [of "\<lambda>c. c \<notin> set delimiters" str c cs] by simp
  then have "length next \<le> length cs" by (simp add: nxt r length_dropWhile_le)
  moreover have "length rest \<le> length str" unfolding rest by (rule length_dropWhile_le)
  ultimately show "((delimiters, next), delimiters, str) \<in> measure (\<lambda>(d, s). length s)" by (simp add: r)
qed simp

declare Tokenize.simps [simp del]

section \<open>Numbers\<close>

text \<open>
  \<open>stringstream >> uint32_t\<close>: leading white space, an optional sign, the longest run of digits.  No
  digits, or a number of more than 32 bits, sets the fail bit; a negative number is negated modulo \<open>2^32\<close>.
\<close>

definition is_space :: "char \<Rightarrow> bool" where
  "is_space c \<longleftrightarrow> c \<in> {CHR '' '', CHR 0x09, CHR 0x0A, CHR 0x0B, CHR 0x0C, CHR 0x0D}"

definition is_digit :: "char \<Rightarrow> bool" where
  "is_digit c \<longleftrightarrow> 48 \<le> (of_char c :: nat) \<and> (of_char c :: nat) \<le> 57"

definition digits_value :: "string \<Rightarrow> nat" where
  "digits_value ds = foldl (\<lambda>n c. n * 10 + (of_char c - 48)) 0 ds"

definition read_uint32 :: "string \<Rightarrow> nat option" where
  "read_uint32 s =
     (let s1 = dropWhile is_space s;
          neg = (s1 \<noteq> [] \<and> hd s1 = CHR ''-'');
          s2 = (if s1 \<noteq> [] \<and> (hd s1 = CHR ''-'' \<or> hd s1 = CHR ''+'') then tl s1 else s1);
          ds = takeWhile is_digit s2;
          v = digits_value ds
      in if ds = [] \<or> 2 ^ 32 \<le> v then None
         else Some (if neg then (2 ^ 32 - v) mod 2 ^ 32 else v))"

text \<open>\<open>ParseList<uint32_t>\<close>.\<close>

fun parse_all :: "string list \<Rightarrow> nat list option" where
  "parse_all [] = Some []"
| "parse_all (n # ns) =
     (if n = [] then parse_all ns
      else do { x \<leftarrow> read_uint32 n; xs \<leftarrow> parse_all ns; Some (x # xs) })"

definition ParseList :: "string \<Rightarrow> string \<Rightarrow> nat list option" where
  "ParseList delimiters listStr = parse_all (Tokenize delimiters listStr)"

definition ParseList_fill :: "string \<Rightarrow> nat \<Rightarrow> nat \<Rightarrow> nat list option" where
  "ParseList_fill listStr maxSize fillValue = do {
     res \<leftarrow> ParseList '' '' listStr;
     assert_that (length res \<le> maxSize);
     Some (res @ replicate (maxSize - length res) fillValue) }"

section \<open>Ranges and masks\<close>

record Range =
  r_min :: int
  r_sup :: int
  r_step :: int

definition to_int32 :: "int \<Rightarrow> int" where
  "to_int32 v = (v + 2 ^ 31) mod 2 ^ 32 - 2 ^ 31"

fun range_numbers :: "string list \<Rightarrow> nat list option" where
  "range_numbers [] = Some []"
| "range_numbers (s # ss) = do { x \<leftarrow> read_uint32 s; xs \<leftarrow> range_numbers ss; Some (x # xs) }"

definition Range_new :: "string \<Rightarrow> Range option" where
  "Range_new r = do {
     n \<leftarrow> range_numbers (Tokenize '':'' r);
     range \<leftarrow> (case n of
         [a] \<Rightarrow> Some \<lparr>r_min = to_int32 (int a), r_sup = to_int32 (to_int32 (int a) + 1), r_step = 1\<rparr>
       | [a, b] \<Rightarrow> Some \<lparr>r_min = to_int32 (int a), r_sup = to_int32 (int b), r_step = 1\<rparr>
       | [a, b, c] \<Rightarrow> Some \<lparr>r_min = to_int32 (int a), r_sup = to_int32 (int b), r_step = to_int32 (int c)\<rparr>
       | _ \<Rightarrow> None);
     assert_that (\<not> (r_min range < 0 \<or> r_step range < 0 \<or> r_sup range < 0));
     assert_that (r_step range \<noteq> 0);
     assert_that (r_min range < r_sup range);
     Some range }"

text \<open>
  The loop of \<open>Range::fill\<close>, which compares with the size of the mask cast to \<open>int32_t\<close>.  If \<open>i += step\<close> overflows 32 bits, \<open>i\<close> wraps to a negative number, which is
  below \<open>sup\<close> and makes the next round panic.  A step that does not advance would loop for ever.
\<close>

function fill_from :: "int \<Rightarrow> int \<Rightarrow> int \<Rightarrow> bool list \<Rightarrow> bool list option" where
  "fill_from i limit step bits =
     (if i < limit
      then if to_int32 (int (length bits)) \<le> i \<or> i < 0 then None
           else if step \<le> 0 \<or> 2 ^ 31 \<le> i + step then None
           else fill_from (i + step) limit step (bits[nat i := True])
      else Some bits)"
  by pat_completeness auto
termination
  by (relation "measure (\<lambda>(i, limit, step, bits). nat (limit - i))") auto

declare fill_from.simps [simp del]

definition fill :: "Range \<Rightarrow> bool list \<Rightarrow> bool list option" where
  "fill r bits = fill_from (r_min r) (r_sup r) (r_step r) bits"

definition ParseMask :: "string \<Rightarrow> nat \<Rightarrow> bool list option" where
  "ParseMask maskStr maskSize =
     foldM (\<lambda>r bits. if r = [] then Some bits else do { range \<leftarrow> Range_new r; fill range bits })
       (Tokenize '' '' maskStr) (replicate maskSize False)"

section \<open>Lemmas\<close>

text \<open>Joining tokens with a delimiter and splitting again.\<close>

fun join :: "char \<Rightarrow> string list \<Rightarrow> string" where
  "join d [] = []"
| "join d [t] = t"
| "join d (t # u # ts) = t @ d # join d (u # ts)"

lemma Tokenize_join:
  assumes "ts \<noteq> []" "\<forall>t \<in> set ts. t \<noteq> [] \<and> set t \<inter> set delims = {}" "d \<in> set delims"
  shows "Tokenize delims (join d ts) = ts"
  using assms
proof (induction d ts rule: join.induct)
  case (2 d t)
  then have "takeWhile (\<lambda>c. c \<notin> set delims) t = t" "dropWhile (\<lambda>c. c \<notin> set delims) t = []" by auto
  then show ?case by (simp add: Tokenize.simps [of delims t] Let_def)
next
  case (3 d' t u ts)
  have t: "\<And>c. c \<in> set t \<Longrightarrow> c \<notin> set delims" and u: "u \<noteq> []" "\<And>c. c \<in> set u \<Longrightarrow> c \<notin> set delims" using 3(3) by auto
  have j: "join d' (u # ts) \<noteq> []" "hd (join d' (u # ts)) = hd u" using u by (cases ts; simp)+
  have "hd u \<notin> set delims" using u by simp
  then have nxt: "dropWhile (\<lambda>c. c \<in> set delims) (join d' (u # ts)) = join d' (u # ts)"
    using j by (cases "join d' (u # ts)") auto
  have "takeWhile (\<lambda>c. c \<notin> set delims) (t @ d' # join d' (u # ts)) = t"
    "dropWhile (\<lambda>c. c \<notin> set delims) (t @ d' # join d' (u # ts)) = d' # join d' (u # ts)"
    using t 3(4) by (simp_all add: takeWhile_append2 dropWhile_append2)
  moreover have "\<exists>x \<in> set (join d' (u # ts)). x \<notin> set delims"
    using j \<open>hd u \<notin> set delims\<close> by (metis list.set_sel(1))
  ultimately show ?case using 3 nxt j(1) by (simp add: Tokenize.simps [of delims "t @ d' # join d' (u # ts)"] Let_def)
qed simp

text \<open>The indices a range names, and what filling a mask with it does.\<close>

definition in_range :: "Range \<Rightarrow> nat \<Rightarrow> bool" where
  "in_range r j \<longleftrightarrow> r_min r \<le> int j \<and> int j < r_sup r \<and> r_step r dvd (int j - r_min r)"

text \<open>
  The last index the loop visits, and when a range fits a mask of \<open>n\<close> entries: its last index is below the size as a
  signed number, and the step beyond it does not overflow.
\<close>

definition range_last :: "int \<Rightarrow> int \<Rightarrow> int \<Rightarrow> int" where
  "range_last i limit step = i + (limit - 1 - i) div step * step"

definition range_fits :: "nat \<Rightarrow> Range \<Rightarrow> bool" where
  "range_fits n r \<longleftrightarrow> range_last (r_min r) (r_sup r) (r_step r) < to_int32 (int n) \<and>
     range_last (r_min r) (r_sup r) (r_step r) + r_step r < 2 ^ 31"

definition marked :: "(nat \<Rightarrow> bool) \<Rightarrow> bool list \<Rightarrow> bool list" where
  "marked P bits = map (\<lambda>j. bits ! j \<or> P j) [0..<length bits]"

lemma marked_simps [simp]: "length (marked P bits) = length bits" "j < length bits \<Longrightarrow> marked P bits ! j \<longleftrightarrow> bits ! j \<or> P j"
  by (simp_all add: marked_def)

lemma marked_marked: "marked P (marked Q bits) = marked (\<lambda>j. Q j \<or> P j) bits"
  by (rule nth_equalityI) auto

lemma marked_cong: "(\<And>j. j < length bits \<Longrightarrow> P j = Q j) \<Longrightarrow> marked P bits = marked Q bits"
  by (rule nth_equalityI) auto

lemma to_int32_le: "0 \<le> x \<Longrightarrow> to_int32 x \<le> x"
  by (simp add: to_int32_def) (smt (verit) zmod_le_nonneg_dividend)

lemma range_last_step:
  assumes "0 < step" "i + step < limit"
  shows "range_last (i + step) limit step = range_last i limit step" "i + step \<le> range_last i limit step"
proof -
  have "limit - 1 - i = limit - 1 - (i + step) + step" by simp
  then have "(limit - 1 - i) div step = (limit - 1 - (i + step)) div step + 1"
    using assms(1) div_add_self2 [of step "limit - 1 - (i + step)"] by (metis less_irrefl)
  then show "range_last (i + step) limit step = range_last i limit step"
    by (simp add: range_last_def algebra_simps)
  moreover have "0 \<le> (limit - 1 - (i + step)) div step * step" using assms by (simp add: pos_imp_zdiv_nonneg_iff)
  ultimately show "i + step \<le> range_last i limit step" by (simp add: range_last_def)
qed

lemma range_last_end: "0 < step \<Longrightarrow> i < limit \<Longrightarrow> limit \<le> i + step \<Longrightarrow> range_last i limit step = i"
  by (simp add: range_last_def div_pos_pos_trivial)

lemma dvd_next:
  fixes i j step :: int
  assumes "0 < step"
  shows "i + step \<le> j \<and> step dvd (j - (i + step)) \<longleftrightarrow> i < j \<and> step dvd (j - i)"
proof -
  have "step dvd (j - (i + step)) \<longleftrightarrow> step dvd (j - i)" by (simp add: diff_diff_eq [symmetric] dvd_diff_left_iff)
  moreover have "step \<le> j - i" if "i < j" "step dvd j - i" using zdvd_imp_le [OF that(2)] that(1) by simp
  ultimately show ?thesis using assms by auto
qed

lemma visited_split:
  fixes i j step limit :: int
  assumes "0 < step" "i < limit"
  shows "i \<le> j \<and> j < limit \<and> step dvd (j - i) \<longleftrightarrow> j = i \<or> i + step \<le> j \<and> j < limit \<and> step dvd (j - (i + step))"
  using dvd_next [OF assms(1), of i j] assms(2) by (cases "j = i") auto

lemma fill_from_exact:
  assumes "0 \<le> i" "0 < step" "i < limit"
  shows "fill_from i limit step bits =
    (if range_last i limit step < to_int32 (int (length bits)) \<and> range_last i limit step + step < 2 ^ 31
     then Some (marked (\<lambda>j. i \<le> int j \<and> int j < limit \<and> step dvd (int j - i)) bits) else None)"
  using assms
proof (induction i limit step bits rule: fill_from.induct)
  case (1 i limit step bits)
  let ?size = "to_int32 (int (length bits))"
  have size: "?size \<le> int (length bits)" by (rule to_int32_le) simp
  have upd: "bits[nat i := True] = marked (\<lambda>j. int j = i) bits" if "i < ?size"
    using 1(2) that size by (intro nth_equalityI) (auto simp: nth_list_update)
  show ?case
  proof (cases "i + step < limit")
    case True
    note last = range_last_step [OF 1(3) True]
    show ?thesis
    proof (cases "?size \<le> i \<or> 2 ^ 31 \<le> i + step")
      case True
      then show ?thesis using 1(2-4) last(2) by (auto simp: fill_from.simps [of i])
    next
      case False
      then have "fill_from i limit step bits = fill_from (i + step) limit step (bits[nat i := True])"
        using 1(2-4) by (simp add: fill_from.simps [of i])
      moreover have "marked (\<lambda>j. i + step \<le> int j \<and> int j < limit \<and> step dvd (int j - (i + step))) (bits[nat i := True])
          = marked (\<lambda>j. i \<le> int j \<and> int j < limit \<and> step dvd (int j - i)) bits"
      proof -
        have "i < ?size" using False by simp
        then show ?thesis by (simp only: upd marked_marked visited_split [OF 1(3,4)])
      qed
      ultimately show ?thesis using 1(1) 1(2-4) True False last(1) by simp
    qed
  next
    case False
    have one: "marked (\<lambda>j. int j = i) bits = marked (\<lambda>j. i \<le> int j \<and> int j < limit \<and> step dvd (int j - i)) bits"
      using False by (intro marked_cong) (auto simp: visited_split [OF 1(3,4)])
    have "fill_from (i + step) limit step bits' = Some bits'" for bits' using False by (simp add: fill_from.simps [of "i + step"])
    then show ?thesis
      using 1(2-4) False upd one by (auto simp: fill_from.simps [of i] range_last_end)
  qed
qed

lemma Range_new_bounds:
  assumes "Range_new s = Some r"
  shows "0 \<le> r_min r" "r_min r < r_sup r" "0 < r_step r"
proof -
  have "0 \<le> r_min r \<and> r_min r < r_sup r \<and> 0 < r_step r"
    using assms by (auto simp: Range_new_def assert_that_def split: if_splits bind_splits list.splits)
  then show "0 \<le> r_min r" "r_min r < r_sup r" "0 < r_step r" by simp_all
qed

lemma fill_exact:
  assumes "Range_new s = Some r"
  shows "fill r bits = (if range_fits (length bits) r then Some (marked (in_range r) bits) else None)"
  using fill_from_exact [OF Range_new_bounds(1,3,2) [OF assms], of bits]
  unfolding fill_def range_fits_def in_range_def [abs_def] .

lemma fill_all:
  assumes "\<forall>t \<in> set ts. t \<noteq> []"
  shows "foldM (\<lambda>r bits. if r = [] then Some bits else do { range \<leftarrow> Range_new r; fill range bits }) ts bits =
    (if \<forall>t \<in> set ts. \<exists>r. Range_new t = Some r \<and> range_fits (length bits) r
     then Some (marked (\<lambda>j. \<exists>t \<in> set ts. in_range (the (Range_new t)) j) bits) else None)"
  using assms
proof (induction ts arbitrary: bits)
  case Nil
  have "marked (\<lambda>j. False) bits = bits" by (rule nth_equalityI) simp_all
  then show ?case by simp
next
  case (Cons t ts)
  show ?case
  proof (cases "Range_new t")
    case (Some r)
    then show ?thesis using Cons fill_exact [OF Some, of bits] by (simp add: marked_marked)
  qed (use Cons in simp)
qed

section \<open>Properties\<close>

text \<open>
  C14. Tokens that are not empty and contain no delimiter survive printing and parsing: joined with any
  delimiter, \<open>Tokenize\<close> gives them back.
\<close>

theorem config_tokenize_roundtrip:
  assumes "ts \<noteq> []" "\<forall>t \<in> set ts. t \<noteq> [] \<and> set t \<inter> set delims = {}" "d \<in> set delims"
  shows "Tokenize delims (join d ts) = ts"
  by (rule Tokenize_join [OF assms])

theorem config_tokenize_roundtrip_witness:
  "Tokenize '' :'' (join (CHR '':'') [''0'', ''16'', ''2'']) = [''0'', ''16'', ''2'']"
  by (rule config_tokenize_roundtrip) simp_all

text \<open>
  C13. \<open>ParseMask\<close> on ranges separated by spaces, for every list of ranges and every size of the mask.  It returns
  exactly if every word is a range whose last index is below the size of the mask, taken as a signed 32-bit number, and
  whose last index plus step does not overflow 32 bits; the mask then has exactly those indices set that one of the ranges
  \<open>min:sup:step\<close> names.  Otherwise it panics.
\<close>

theorem config_parse_mask:
  assumes "ts \<noteq> []" "\<forall>t \<in> set ts. t \<noteq> [] \<and> CHR '' '' \<notin> set t"
  shows "ParseMask (join (CHR '' '') ts) n =
    (if \<forall>t \<in> set ts. \<exists>r. Range_new t = Some r \<and> range_fits n r
     then Some (map (\<lambda>j. \<exists>t \<in> set ts. in_range (the (Range_new t)) j) [0..<n]) else None)"
proof -
  have "Tokenize '' '' (join (CHR '' '') ts) = ts" by (rule Tokenize_join) (use assms in simp_all)
  moreover have "marked P (replicate n False) = map P [0..<n]" for P by (rule nth_equalityI) simp_all
  ultimately show ?thesis using fill_all [of ts "replicate n False"] assms(2) by (simp add: ParseMask_def)
qed

theorem config_parse_mask_witness:
  "ParseMask ''0:8:2 5'' 7 = Some [True, False, True, False, True, True, True] \<and>
   ParseMask ''0:8:2 5'' 6 = None \<and> ParseMask ''5:8:2147483647'' 10 = None"
proof -
  have t: "Tokenize '':'' ''0:8:2'' = [''0'', ''8'', ''2'']" "Tokenize '':'' ''5'' = [''5'']"
    "Tokenize '':'' ''5:8:2147483647'' = [''5'', ''8'', ''2147483647'']"
    by (simp_all add: Tokenize.simps)
  have n: "read_uint32 ''0'' = Some 0" "read_uint32 ''8'' = Some 8" "read_uint32 ''2'' = Some 2" "read_uint32 ''5'' = Some 5"
    "read_uint32 ''2147483647'' = Some 2147483647"
    by (simp_all add: read_uint32_def is_space_def is_digit_def digits_value_def)
  have r: "Range_new ''0:8:2'' = Some \<lparr>r_min = 0, r_sup = 8, r_step = 2\<rparr>"
    "Range_new ''5'' = Some \<lparr>r_min = 5, r_sup = 6, r_step = 1\<rparr>"
    "Range_new ''5:8:2147483647'' = Some \<lparr>r_min = 5, r_sup = 8, r_step = 2147483647\<rparr>"
    by (simp_all add: Range_new_def t n to_int32_def assert_that_def)
  have seven: "[0..<7] = [0, 1, 2, 3, 4, 5, 6]" by (simp add: upt_rec)
  have "ParseMask ''0:8:2 5'' 7 = Some [True, False, True, False, True, True, True]"
    using config_parse_mask [of "[''0:8:2'', ''5'']" 7] r by (simp add: range_fits_def range_last_def to_int32_def in_range_def seven)
  moreover have "ParseMask ''0:8:2 5'' 6 = None"
    using config_parse_mask [of "[''0:8:2'', ''5'']" 6] r by (simp add: range_fits_def range_last_def to_int32_def)
  moreover have "ParseMask ''5:8:2147483647'' 10 = None"
    using config_parse_mask [of "[''5:8:2147483647'']" 10] r by (simp add: range_fits_def range_last_def to_int32_def)
  ultimately show ?thesis by blast
qed

end
