(* ===== verification/Mc_Init.thy ===== *)
theory Mc_Init
  imports Mc_Inv Config
begin

text \<open>
  The constructor of \<open>MemoryController\<close> (\<open>src/src/mc.cpp\<close>): reading and checking the configuration, and
  the initial tag store, placement policy and tag buffer.  The memories it creates are a
  parameter of the controller's operations.

  Fields and arrays the constructor leaves uninitialised have whatever the allocated memory holds; they
  come from the parameter \<open>raw_memory\<close>.  \<open>sys.mem.mcdram.size\<close> is multiplied in 32 bits.
\<close>

section \<open>Definitions\<close>

record raw_memory =
  raw_cfg :: mc_config
  raw_address :: "nat \<Rightarrow> address"
  raw_type :: "nat \<Rightarrow> nat"
  raw_trace_len :: nat
  raw_evict_idx :: nat
  raw_way :: "nat \<Rightarrow> nat \<Rightarrow> Way"
  raw_chunk :: "nat \<Rightarrow> ChunkInfo"
  raw_clear_time :: cyc
  raw_rand :: nat

definition mc_scheme :: "Config \<Rightarrow> string \<Rightarrow> nat \<Rightarrow> nat \<Rightarrow> nat \<Rightarrow> nat \<Rightarrow> (Scheme \<times> nat) option" where
  "mc_scheme c sch gran ways sz raw_footprint =
     (if sch = ''AlloyCache'' then do {
        assert_that (gran = 64);
        assert_that (ways = 1);
        Some (AlloyCache, raw_footprint) }
      else if sch = ''UnisonCache'' then do {
        assert_that (gran = 4096);
        fp \<leftarrow> get_uint32 c ''sys.mem.mcdram.footprint_size'';
        Some (UnisonCache, fp) }
      else if sch = ''HMA'' then do {
        assert_that (gran = 4096);
        assert_that (ways = sz div gran);
        Some (HMA, raw_footprint) }
      else if sch = ''HybridCache'' then do {
        assert_that (gran = 4096 \<or> gran = 4096 * 512);
        Some (HybridCache, raw_footprint) }
      else if sch = ''NoCache'' then Some (NoCache, raw_footprint)
      else if sch = ''CacheOnly'' then Some (CacheOnly, raw_footprint)
      else if sch = ''Tagless'' then do {
        fp \<leftarrow> get_uint32 c ''sys.mem.mcdram.footprint_size'';
        Some (Tagless, fp) }
      else None)"

definition mc_cache_config :: "Config \<Rightarrow> string \<Rightarrow> mc_config \<Rightarrow> (nat \<times> nat \<times> nat) option" where
  "mc_cache_config c sch raw =
     (if sch \<noteq> ''NoCache''
      then do {
        gran \<leftarrow> get_uint32 c ''sys.mem.mcdram.cache_granularity'';
        ways \<leftarrow> get_uint32 c ''sys.mem.mcdram.num_ways'';
        mcdram_type \<leftarrow> get_str_default c ''sys.mem.mcdram.type'' ''Simple'';
        sz \<leftarrow> get_uint32_default c ''sys.mem.mcdram.size'' 128;
        Some (gran, ways, sz * 1024 * 1024 mod 2 ^ 32) }
      else Some (granularity raw, num_ways raw, cache_size raw))"

definition mc_sets :: "Config \<Rightarrow> Scheme \<Rightarrow> nat \<Rightarrow> nat \<Rightarrow> nat \<Rightarrow> mc_config \<Rightarrow> (nat \<times> nat) option" where
  "mc_sets c sch gran ways sz raw =
     (if sch \<noteq> NoCache
      then do {
        per_mc \<leftarrow> get_uint32_default c ''sys.mem.mcdram.mcdramPerMC'' 4;
        assert_that (ways \<noteq> 0 \<and> gran \<noteq> 0);
        let sets = sz div ways div gran;
        assert_that (sch = Tagless \<longrightarrow> sets = 1);
        Some (per_mc, sets) }
      else Some (mcdram_per_mc raw, num_sets raw))"

definition mc_read_config :: "Config \<Rightarrow> string \<Rightarrow> mc_config \<Rightarrow> mc_config option" where
  "mc_read_config c name raw = do {
     enableTrace \<leftarrow> get_bool_default c ''sys.mem.enableTrace'' False;
     let tracing = (enableTrace \<and> name = ''mem-0'');
     traceDir \<leftarrow> (if tracing then get_str_default c ''sys.mem.traceDir'' ''./'' else Some []);
     sram \<leftarrow> get_bool_default c ''sys.mem.sram_tag'' False;
     llc \<leftarrow> get_uint32 c ''sys.caches.l3.latency'';
     timing_scale \<leftarrow> get_double_default c ''sys.mem.dram_timing_scale'' 1;
     sch \<leftarrow> get_str_default c ''sys.mem.cache_scheme'' ''NoCache'';
     ext_type \<leftarrow> get_str_default c ''sys.mem.ext_dram.type'' ''Simple'';
     (gran, ways, sz) \<leftarrow> mc_cache_config c sch raw;
     (scheme, fp) \<leftarrow> mc_scheme c sch gran ways sz (footprint_size raw);
     placement \<leftarrow> get_str_default c ''sys.mem.mcdram.placementPolicy'' ''LRU'';
     bw \<leftarrow> get_bool_default c ''sys.mem.bwBalance'' False;
     assert_that (bw \<longrightarrow> scheme = AlloyCache \<or> scheme = HybridCache);
     (per_mc, sets) \<leftarrow> mc_sets c scheme gran ways sz raw;
     Some \<lparr>mc_name = name, collect_trace = enableTrace,
           max_trace_len = (if tracing then 10000 else max_trace_len raw),
           mcdram_per_mc = per_mc, granularity = gran, num_ways = ways, cache_size = sz, num_sets = sets,
           scheme = scheme, footprint_size = fp, bw_balance = bw, os_quantum = os_quantum raw,
           sram_tag = sram, llc_latency = llc\<rparr> }"

text \<open>An empty tag store; the placement policies; the tag buffer.\<close>

definition empty_cache :: "mc_config \<Rightarrow> (nat \<Rightarrow> nat \<Rightarrow> Way) \<Rightarrow> Set list" where
  "empty_cache mcfg raw = map (\<lambda>i. map (\<lambda>j. (raw i j)\<lparr>way_valid := False\<rparr>) [0..<num_ways mcfg]) [0..<num_sets mcfg]"

definition mc_line_policy :: "Config \<Rightarrow> Scheme \<Rightarrow> nat \<Rightarrow> LinePlacementPolicy option option" where
  "mc_line_policy c sch seed =
     (if sch = AlloyCache
      then do {
        rate \<leftarrow> get_double c ''sys.mem.mcdram.sampleRate'';
        replace \<leftarrow> get_bool_default c ''sys.mem.mcdram.enableReplace'' True;
        Some (Some (lp_initialize seed rate replace)) }
      else Some None)"

definition mc_page_policy ::
    "Config \<Rightarrow> mc_view \<Rightarrow> Scheme \<Rightarrow> nat \<Rightarrow> (nat \<Rightarrow> ChunkInfo) \<Rightarrow> PagePlacementPolicy option option" where
  "mc_page_policy c mv sch seed raw =
     (if sch = UnisonCache \<or> sch = HybridCache
      then do {
        rate \<leftarrow> get_double c ''sys.mem.mcdram.sampleRate'';
        replace \<leftarrow> get_bool_default c ''sys.mem.mcdram.enableReplace'' True;
        policy \<leftarrow> get_str c ''sys.mem.mcdram.placementPolicy'';
        pp \<leftarrow> pp_initialize mv sch rate replace policy seed raw;
        Some (Some pp) }
      else Some None)"

definition mc_buffer :: "Config \<Rightarrow> Scheme \<Rightarrow> cyc \<Rightarrow> TagBuffer option option" where
  "mc_buffer c sch raw =
     (if sch = HybridCache
      then do {
        tb_size \<leftarrow> get_uint32_default c ''sys.mem.mcdram.tag_buffer_size'' 1024;
        Some (Some (TagBuffer_new tb_size raw)) }
      else Some None)"

definition no_stats :: McStats where
  "no_stats =
     \<lparr>numPlacement = 0, numCleanEviction = 0, numDirtyEviction = 0, numLoadHit = 0, numLoadMiss = 0,
      numStoreHit = 0, numStoreMiss = 0, numCounterAccess = 0, numTagLoad = 0, numTagStore = 0,
      numTagBufferFlush = 0, numTBDirtyHit = 0, numTBDirtyMiss = 0, numTouchedLines = 0, numEvictedLines = 0,
      numNotTouchedLines = 0, numTouchedPages = 0\<rparr>"

definition no_steps :: StepStats where
  "no_steps = \<lparr>num_hit_per_step = 0, num_miss_per_step = 0, mc_bw_per_step = 0, ext_bw_per_step = 0\<rparr>"

definition MemoryController_new :: "Config \<Rightarrow> string \<Rightarrow> raw_memory \<Rightarrow> MemoryController option" where
  "MemoryController_new c name raw = do {
     mcfg \<leftarrow> mc_read_config c name (raw_cfg raw);
     let sch = scheme mcfg;
     let mc =
       \<lparr>cfg = mcfg,
        trace = \<lparr>address_trace = map (raw_address raw) [0..<10000], type_trace = map (raw_type raw) [0..<10000],
                 cur_trace_len = (if collect_trace mcfg \<and> name = ''mem-0'' then 0 else raw_trace_len raw), trace_file = []\<rparr>,
        next_evict_idx = (if sch = Tagless then 0 else raw_evict_idx raw),
        cache = (if sch \<noteq> NoCache then empty_cache mcfg (raw_way raw) else []),
        line_placement_policy = None, page_placement_policy = None, mc_tag_buffer = None,
        num_requests = 0, ds_index = 0, tlb = Map.empty, step = no_steps, stats = no_stats\<rparr>;
     lp \<leftarrow> mc_line_policy c sch (raw_rand raw);
     pp \<leftarrow> mc_page_policy c (view mc) sch (raw_rand raw) (raw_chunk raw);
     tb \<leftarrow> mc_buffer c sch (raw_clear_time raw);
     Some (mc\<lparr>line_placement_policy := lp, page_placement_policy := pp, mc_tag_buffer := tb\<rparr>) }"

section \<open>The constructor establishes the invariant\<close>

text \<open>
  What the constructor does not check but the controller relies on: there are memories, sets and
  tag-buffer sets; pages have 4096 bytes; the OS interval of HMA, which no code initialises, is not zero; the
  frequency-based policy replaces, and the Unison scheme, which has no tag buffer, does not use it.
\<close>

definition runnable :: "MemoryController \<Rightarrow> bool" where
  "runnable mc \<longleftrightarrow>
     scheme (cfg mc) = NoCache \<or>
     0 < mcdram_per_mc (cfg mc) \<and> 0 < num_sets (cfg mc) \<and>
     (scheme (cfg mc) = CacheOnly \<longrightarrow> 64 \<le> granularity (cfg mc)) \<and>
     (scheme (cfg mc) = HybridCache \<or> scheme (cfg mc) = Tagless \<longrightarrow> granularity (cfg mc) = 4096) \<and>
     (scheme (cfg mc) = HMA \<longrightarrow> os_quantum (cfg mc) \<noteq> 0) \<and>
     (\<forall>pp. page_placement_policy mc = Some pp \<longrightarrow> placement_policy pp = FBR \<longrightarrow>
        pp_enable_replace pp \<and> scheme (cfg mc) = HybridCache) \<and>
     (\<forall>tb. mc_tag_buffer mc = Some tb \<longrightarrow> 0 < tb_num_sets tb)"

lemma mc_read_config_scheme:
  assumes "mc_read_config c name raw = Some mcfg" "scheme mcfg \<noteq> NoCache"
  shows "0 < num_ways mcfg" "0 < granularity mcfg" "num_sets mcfg = cache_size mcfg div num_ways mcfg div granularity mcfg"
    and "\<exists>n. cache_size mcfg = n * 2 ^ 20"
    and "scheme mcfg = AlloyCache \<Longrightarrow> granularity mcfg = 64 \<and> num_ways mcfg = 1"
    and "scheme mcfg = UnisonCache \<or> scheme mcfg = HMA \<Longrightarrow> granularity mcfg = 4096"
    and "scheme mcfg = Tagless \<Longrightarrow> num_sets mcfg = 1"
    and "bw_balance mcfg \<Longrightarrow> scheme mcfg = AlloyCache \<or> scheme mcfg = HybridCache"
proof -
  obtain sch gran ways sz sc fp where r: "mc_cache_config c sch raw = Some (gran, ways, sz)"
    "mc_scheme c sch gran ways sz (footprint_size raw) = Some (sc, fp)" "mc_sets c sc gran ways sz raw = Some (mcdram_per_mc mcfg, num_sets mcfg)"
    "granularity mcfg = gran" "num_ways mcfg = ways" "cache_size mcfg = sz" "scheme mcfg = sc"
    and bw: "bw_balance mcfg \<Longrightarrow> sc = AlloyCache \<or> sc = HybridCache"
    using assms(1) unfolding mc_read_config_def Let_def
    by (auto simp: assert_that_def split: bind_splits if_splits)
  have sch: "sch \<noteq> ''NoCache''" using r(2,7) assms(2) by (auto simp: mc_scheme_def)
  show "0 < num_ways mcfg" "0 < granularity mcfg" "num_sets mcfg = cache_size mcfg div num_ways mcfg div granularity mcfg"
    "scheme mcfg = Tagless \<Longrightarrow> num_sets mcfg = 1"
    using r assms(2) by (auto simp: mc_sets_def assert_that_def Let_def split: bind_splits if_splits)
  show "scheme mcfg = AlloyCache \<Longrightarrow> granularity mcfg = 64 \<and> num_ways mcfg = 1"
    "scheme mcfg = UnisonCache \<or> scheme mcfg = HMA \<Longrightarrow> granularity mcfg = 4096"
    using r by (auto simp: mc_scheme_def assert_that_def split: bind_splits if_splits)
  show "bw_balance mcfg \<Longrightarrow> scheme mcfg = AlloyCache \<or> scheme mcfg = HybridCache" using bw r(7) by simp
  obtain n where "sz = n * 1024 * 1024 mod 2 ^ 32"
    using r(1) sch by (auto simp: mc_cache_config_def split: bind_splits if_splits)
  moreover have "n * 1024 * 1024 mod 2 ^ 32 = (n mod 2 ^ 12) * 2 ^ 20"
    using mod_mult_mult2 [of n "2 ^ 20" "2 ^ 12"] by (simp add: mult.commute)
  ultimately show "\<exists>n. cache_size mcfg = n * 2 ^ 20" using r(6) by auto
qed

lemma mc_read_config_trace:
  assumes "mc_read_config c name raw = Some mcfg"
  shows "mc_name mcfg = name" "collect_trace mcfg \<Longrightarrow> name = ''mem-0'' \<Longrightarrow> max_trace_len mcfg = 10000"
  using assms by (auto simp: mc_read_config_def Let_def bind_eq_Some_conv)

lemma runnable_cfg_ok:
  assumes r: "mc_read_config c name raw = Some (cfg mc)" and run: "runnable mc"
  shows "cfg_ok (cfg mc)"
proof (cases "scheme (cfg mc) = NoCache")
  case False
  note R = mc_read_config_scheme [OF r False]
  have sets: "0 < num_sets (cfg mc)" using run False by (simp add: runnable_def)
  obtain n where n: "cache_size (cfg mc) = n * 2 ^ 20" using R(4) by blast
  then have "0 < n" using sets R(3) by (cases n) simp_all
  then have "640 \<le> cache_size (cfg mc)" using n by simp
  then show ?thesis using False run sets R(1,5-8) by (auto simp: runnable_def cfg_ok_def split: Scheme.splits)
qed (simp add: cfg_ok_def)

lemma empty_cache_simps:
  "length (empty_cache mcfg raw) = num_sets mcfg"
  "s < num_sets mcfg \<Longrightarrow> length (empty_cache mcfg raw ! s) = num_ways mcfg"
  "s < num_sets mcfg \<Longrightarrow> w < num_ways mcfg \<Longrightarrow> \<not> way_valid (empty_cache mcfg raw ! s ! w)"
  by (simp_all add: empty_cache_def)

lemma mc_page_policy_ok:
  assumes pp: "mc_page_policy c mv sch seed raw = Some p" and sch: "sch = UnisonCache \<or> sch = HybridCache"
    and mv: "mv_num_ways mv = num_ways mcfg" "mv_num_sets mv = num_sets mcfg" "0 < num_ways mcfg"
    and fbr: "\<And>pp. p = Some pp \<Longrightarrow> placement_policy pp = FBR \<Longrightarrow> pp_enable_replace pp"
  shows "\<exists>pp. p = Some pp \<and> pp_scheme pp = sch \<and> pp_ok (num_ways mcfg) (num_sets mcfg) (empty_cache mcfg r) pp"
proof -
  obtain rate replace policy q where q: "pp_initialize mv sch rate replace policy seed raw = Some q" "p = Some q"
    using pp sch by (auto simp: mc_page_policy_def bind_eq_Some_conv)
  have "mv_num_ways mv < 9" and pol: "policy = ''LRU'' \<or> policy = ''FBR'' \<and> replace"
    using q(1) fbr [OF q(2)]
    by (auto simp: pp_initialize_def assert_that_def Let_def clearStats_def split: bind_splits if_splits)
  then have "\<exists>pp. pp_initialize mv sch rate replace policy seed raw = Some pp \<and> pp_scheme pp = sch \<and>
      pp_ok (mv_num_ways mv) (mv_num_sets mv) (empty_cache mcfg r) pp"
    by (intro pp_initialize_ok) (use mv in \<open>simp_all add: empty_cache_simps\<close>)
  then show ?thesis using q mv by simp
qed

lemma MemoryController_new_parts:
  assumes "MemoryController_new c name raw = Some mc"
  shows "mc_read_config c name (raw_cfg raw) = Some (cfg mc)" "mc_name (cfg mc) = name"
    "scheme (cfg mc) \<noteq> NoCache \<Longrightarrow> cache mc = empty_cache (cfg mc) (raw_way raw)"
    "tlb mc = Map.empty" "ds_index mc = 0" "scheme (cfg mc) = Tagless \<Longrightarrow> next_evict_idx mc = 0"
    "mc_line_policy c (scheme (cfg mc)) (raw_rand raw) = Some (line_placement_policy mc)"
    "mc_buffer c (scheme (cfg mc)) (raw_clear_time raw) = Some (mc_tag_buffer mc)"
    "\<exists>mv. mc_page_policy c mv (scheme (cfg mc)) (raw_rand raw) (raw_chunk raw) = Some (page_placement_policy mc) \<and>
       mv_num_ways mv = num_ways (cfg mc) \<and> mv_num_sets mv = num_sets (cfg mc)"
    "trace mc = \<lparr>address_trace = map (raw_address raw) [0..<10000], type_trace = map (raw_type raw) [0..<10000],
       cur_trace_len = (if collect_trace (cfg mc) \<and> name = ''mem-0'' then 0 else raw_trace_len raw), trace_file = []\<rparr>"
proof -
  obtain mcfg where r1: "mc_read_config c name (raw_cfg raw) = Some mcfg"
    using assms by (auto simp: MemoryController_new_def bind_eq_Some_conv)
  define mc0 where "mc0 =
       \<lparr>cfg = mcfg,
        trace = \<lparr>address_trace = map (raw_address raw) [0..<10000], type_trace = map (raw_type raw) [0..<10000],
                 cur_trace_len = (if collect_trace mcfg \<and> name = ''mem-0'' then 0 else raw_trace_len raw), trace_file = []\<rparr>,
        next_evict_idx = (if scheme mcfg = Tagless then 0 else raw_evict_idx raw),
        cache = (if scheme mcfg \<noteq> NoCache then empty_cache mcfg (raw_way raw) else []),
        line_placement_policy = None, page_placement_policy = None, mc_tag_buffer = None,
        num_requests = 0, ds_index = 0, tlb = Map.empty, step = no_steps, stats = no_stats\<rparr>"
  have "(do {
     lp \<leftarrow> mc_line_policy c (scheme mcfg) (raw_rand raw);
     pp \<leftarrow> mc_page_policy c (view mc0) (scheme mcfg) (raw_rand raw) (raw_chunk raw);
     tb \<leftarrow> mc_buffer c (scheme mcfg) (raw_clear_time raw);
     Some (mc0\<lparr>line_placement_policy := lp, page_placement_policy := pp, mc_tag_buffer := tb\<rparr>) }) = Some mc"
    using assms r1 unfolding MemoryController_new_def Let_def mc0_def by simp
  then obtain lp pp tb where r2: "mc_line_policy c (scheme mcfg) (raw_rand raw) = Some lp"
    "mc_buffer c (scheme mcfg) (raw_clear_time raw) = Some tb"
    "mc_page_policy c (view mc0) (scheme mcfg) (raw_rand raw) (raw_chunk raw) = Some pp"
    and mc: "mc = mc0\<lparr>line_placement_policy := lp, page_placement_policy := pp, mc_tag_buffer := tb\<rparr>"
    by (auto simp: bind_eq_Some_conv)
  have "mv_num_ways (view mc0) = num_ways mcfg" "mv_num_sets (view mc0) = num_sets mcfg" by (simp_all add: view_def mc0_def)
  note r = r1 r2(1,2) exI [of "\<lambda>mv. mc_page_policy c mv (scheme mcfg) (raw_rand raw) (raw_chunk raw) = Some pp \<and>
       mv_num_ways mv = num_ways mcfg \<and> mv_num_sets mv = num_sets mcfg" "view mc0", OF conjI, OF r2(3) conjI, OF this]
  note mc = mc [unfolded mc0_def]
  from mc_read_config_trace(1) [OF r(1)] show "mc_read_config c name (raw_cfg raw) = Some (cfg mc)" "mc_name (cfg mc) = name"
    "scheme (cfg mc) \<noteq> NoCache \<Longrightarrow> cache mc = empty_cache (cfg mc) (raw_way raw)"
    "tlb mc = Map.empty" "ds_index mc = 0" "scheme (cfg mc) = Tagless \<Longrightarrow> next_evict_idx mc = 0"
    "mc_line_policy c (scheme (cfg mc)) (raw_rand raw) = Some (line_placement_policy mc)"
    "mc_buffer c (scheme (cfg mc)) (raw_clear_time raw) = Some (mc_tag_buffer mc)"
    "\<exists>mv. mc_page_policy c mv (scheme (cfg mc)) (raw_rand raw) (raw_chunk raw) = Some (page_placement_policy mc) \<and>
       mv_num_ways mv = num_ways (cfg mc) \<and> mv_num_sets mv = num_sets (cfg mc)"
    "trace mc = \<lparr>address_trace = map (raw_address raw) [0..<10000], type_trace = map (raw_type raw) [0..<10000],
       cur_trace_len = (if collect_trace (cfg mc) \<and> name = ''mem-0'' then 0 else raw_trace_len raw), trace_file = []\<rparr>"
    using r by (simp_all add: mc)
qed

lemma MemoryController_new_inv:
  assumes new: "MemoryController_new c name raw = Some mc" and run: "runnable mc"
  shows "mc_inv mc"
proof -
  note P = MemoryController_new_parts [OF new]
  have cok: "cfg_ok (cfg mc)" by (rule runnable_cfg_ok [OF P(1) run])
  have tr: "trace_ok mc" using mc_read_config_trace [OF P(1)] by (auto simp: trace_ok_def P(10))
  have st: "state_ok mc" if sch: "cached_scheme (scheme (cfg mc))"
  proof -
    have nn: "scheme (cfg mc) \<noteq> NoCache" using sch by (simp add: cached_scheme_def)
    note C = P(3) [OF nn]
    have "shape_ok (cfg mc) (cache mc)" by (simp add: C shape_ok_def empty_cache_simps)
    moreover have "pages_ok (cfg mc) (cache mc) (tlb mc) (ds_index mc)"
      by (simp add: C P(4) pages_ok_def way_ok_def empty_cache_simps)
    moreover have "line_placement_policy mc \<noteq> None" if "scheme (cfg mc) = AlloyCache"
      using P(7) that by (cases "line_placement_policy mc") (auto simp: mc_line_policy_def bind_eq_Some_conv)
    moreover have "has_policy (cfg mc) (cache mc) (page_placement_policy mc)"
    proof (cases "scheme (cfg mc) = UnisonCache \<or> scheme (cfg mc) = HybridCache")
      case True
      obtain mv where mv: "mc_page_policy c mv (scheme (cfg mc)) (raw_rand raw) (raw_chunk raw) = Some (page_placement_policy mc)"
        "mv_num_ways mv = num_ways (cfg mc)" "mv_num_sets mv = num_sets (cfg mc)" using P(9) by blast
      obtain pp where "page_placement_policy mc = Some pp" "pp_scheme pp = scheme (cfg mc)"
        "pp_ok (num_ways (cfg mc)) (num_sets (cfg mc)) (cache mc) pp"
        using mc_page_policy_ok [OF mv(1) True mv(2,3) mc_read_config_scheme(1) [OF P(1) nn], of "raw_way raw"] run nn C
        by (auto simp: runnable_def)
      then show ?thesis using run nn by (auto simp: has_policy_def policy_ok_def runnable_def intro: RepScheme.exhaust)
    qed (simp add: has_policy_def)
    moreover have "has_buffer (cfg mc) (mc_tag_buffer mc)"
    proof (cases "scheme (cfg mc) = HybridCache")
      case True
      obtain n where n: "mc_tag_buffer mc = Some (TagBuffer_new n (raw_clear_time raw))"
        using P(8) True by (cases "mc_tag_buffer mc") (auto simp: mc_buffer_def bind_eq_Some_conv)
      then have "0 < tb_num_sets (TagBuffer_new n (raw_clear_time raw))" using run nn by (simp add: runnable_def)
      then have "8 \<le> n" by (simp add: TagBuffer_new_def Let_def div_greater_zero_iff)
      then show ?thesis using n TagBuffer_new_inv(1) by (simp add: has_buffer_def)
    qed (simp add: has_buffer_def)
    moreover have "scheme (cfg mc) = Tagless \<longrightarrow> next_evict_idx mc < num_ways (cfg mc) \<and> ds_index mc = 0"
      using P(5,6) mc_read_config_scheme(1) [OF P(1) nn] by simp
    ultimately show ?thesis using cok sch by (simp add: state_ok_def)
  qed
  show ?thesis using cok tr st by (simp add: mc_inv_def)
qed

end
