(* ===== verification/Mc_Run.thy ===== *)
theory Mc_Run
  imports Mc_Access Mc_Init
begin

text \<open>
  The memory controller attached to its memories, from the constructor on: safety of single accesses and
  of whole request sequences, in which every core takes its timing record before its next request.
\<close>

section \<open>The attached memories\<close>

definition memories_for :: "mem_system \<Rightarrow> mc_config \<Rightarrow> bool" where
  "memories_for ms c \<longleftrightarrow>
     (scheme c \<noteq> CacheOnly \<longrightarrow> has_target ms ExtDram) \<and>
     (scheme c \<noteq> NoCache \<longrightarrow> (\<forall>i < mcdram_per_mc c. has_target ms (McDram i)))"

lemma memories_attached: "memories_for ms c = drams.attached_for ms c"
  by (simp add: memories_for_def drams.attached_for_def)

lemma mc_access_drams:
  assumes "mc_inv mc" "memories_for ms (cfg mc)" "ready (srcId req) b" "req_type req \<noteq> PUTS"
  shows "\<exists>c mc' b'. mc_access (mem_access ms) mc b req = Some (c, mem_grant req, mc', b') \<and> cycle req \<le> c \<and>
    mc_inv mc' \<and> cfg mc' = cfg mc \<and> pending (cycle req) (srcId req) b' \<and> grows b b' \<and>
    (\<forall>s. s \<noteq> srcId req \<longrightarrow> ready s b \<longrightarrow> ready s b')"
  using drams.mc_access_ok [OF assms(1) _ _ assms(4), of ms b b] assms(2,3) by (auto simp: memories_attached ok_def)

lemma mc_access_clean:
  assumes "req_type req = PUTS"
  shows "mc_access dram mc d req = Some (cycle req, StI, mc, d)"
  using assms by (simp add: mc_access_def mem_grant_def)

section \<open>Request sequences\<close>

text \<open>After an access the core takes its record out of its recorder (\<open>CoreRecorder::record\<close>).\<close>

definition take_record :: "nat \<Rightarrow> bound \<Rightarrow> bound" where
  "take_record s b =
     (case eventRecorders b s of
        None \<Rightarrow> b
      | Some er \<Rightarrow> if hasRecord er then b\<lparr>eventRecorders := (eventRecorders b)(s := Some (snd (popRecord er)))\<rparr> else b)"

definition serve :: "mem_system \<Rightarrow> MemReq \<Rightarrow> MemoryController \<times> bound \<Rightarrow> (MemoryController \<times> bound) option" where
  "serve ms req = (\<lambda>(mc, b). do {
     (c, st, mc, b) \<leftarrow> mc_access (mem_access ms) mc b req;
     Some (mc, take_record (srcId req) b) })"

lemma take_record_ready:
  assumes "pending c s b"
  shows "ready s (take_record s b)"
  using assms by (auto simp: pending_def ready_def take_record_def popRecord_def hasRecord_def tr_isValid_def tr_clear_def
    split: option.splits)

lemma take_record_other: "ready s' b \<Longrightarrow> ready s' (take_record s b)"
  by (auto simp: ready_def take_record_def popRecord_def hasRecord_def tr_isValid_def tr_clear_def split: option.splits)

lemma serve_ok:
  assumes "mc_inv mc" "memories_for ms (cfg mc)" "\<forall>s. ready s b"
  shows "\<exists>mc' b'. serve ms req (mc, b) = Some (mc', b') \<and> mc_inv mc' \<and> cfg mc' = cfg mc \<and> (\<forall>s. ready s b')"
proof (cases "req_type req = PUTS")
  case True
  then show ?thesis using assms take_record_other by (simp add: serve_def mc_access_clean)
next
  case False
  obtain c mc' b' where r: "mc_access (mem_access ms) mc b req = Some (c, mem_grant req, mc', b')" "mc_inv mc'" "cfg mc' = cfg mc"
    "pending (cycle req) (srcId req) b'" "\<forall>s. s \<noteq> srcId req \<longrightarrow> ready s b \<longrightarrow> ready s b'"
    using mc_access_drams [OF assms(1,2) _ False] assms(3) by blast
  have "ready s (take_record (srcId req) b')" for s
    using r(4,5) assms(3) take_record_ready take_record_other by (cases "s = srcId req") auto
  then show ?thesis using r(1-3) by (simp add: serve_def)
qed

lemma serve_all_ok:
  assumes "mc_inv mc" "memories_for ms (cfg mc)" "\<forall>s. ready s b"
  shows "\<exists>mc' b'. foldM (serve ms) reqs (mc, b) = Some (mc', b') \<and> mc_inv mc' \<and> (\<forall>s. ready s b')"
  using assms
proof (induction reqs arbitrary: mc b)
  case (Cons req reqs)
  obtain mc1 b1 where 1: "serve ms req (mc, b) = Some (mc1, b1)" "mc_inv mc1" "cfg mc1 = cfg mc" "\<forall>s. ready s b1"
    using serve_ok [OF Cons.prems] by blast
  show ?case using Cons.IH [OF 1(2) _ 1(4)] Cons.prems(2) 1(1,3) by simp
qed simp

section \<open>A concrete controller\<close>

text \<open>A Banshee controller with one mebibyte of cache, frequency-based replacement and two DDR memories.\<close>

definition demo_config :: Config where
  "demo_config =
     \<lparr>cfg_exists = (\<lambda>k. k \<notin> {''sys.mem.enableTrace'', ''sys.mem.sram_tag'', ''sys.mem.dram_timing_scale'', ''sys.mem.bwBalance'',
                          ''sys.mem.ext_dram.type'', ''sys.mem.mcdram.type'', ''sys.mem.mcdram.enableReplace''}),
      cfg_int = (\<lambda>k. if k = ''sys.mem.mcdram.cache_granularity'' then Some 4096
                     else if k = ''sys.mem.mcdram.num_ways'' then Some 4
                     else if k = ''sys.mem.mcdram.size'' then Some 1
                     else if k = ''sys.mem.mcdram.mcdramPerMC'' then Some 1
                     else if k = ''sys.mem.mcdram.tag_buffer_size'' then Some 16
                     else Some 30),
      cfg_bool = (\<lambda>_. None),
      cfg_str = (\<lambda>k. if k = ''sys.mem.cache_scheme'' then Some ''HybridCache'' else Some ''FBR''),
      cfg_double = (\<lambda>_. Some (1 / 2))\<rparr>"

definition demo_raw :: raw_memory where
  "demo_raw =
     \<lparr>raw_cfg = \<lparr>mc_name = [], collect_trace = False, max_trace_len = 0, mcdram_per_mc = 0, granularity = 0, num_ways = 0,
        cache_size = 0, num_sets = 0, scheme = NoCache, footprint_size = 0, bw_balance = False, os_quantum = 0, sram_tag = False,
        llc_latency = 0\<rparr>,
      raw_address = (\<lambda>_. 0), raw_type = (\<lambda>_. 0), raw_trace_len = 0, raw_evict_idx = 0,
      raw_way = (\<lambda>_ _. \<lparr>way_tag = 0, way_valid = False, way_dirty = False\<rparr>),
      raw_chunk = (\<lambda>_. \<lparr>access_count = 0, entries = [], num_hits = 0, num_misses = 0\<rparr>),
      raw_clear_time = 0, raw_rand = 42\<rparr>"

definition demo_ddr :: MemObject where
  "demo_ddr = DDRMem \<lparr>ddr_id = 0, minRdLatency = 40, minWrLatency = 30, ddr_preDelay = 5, postDelayRd = 5, postDelayWr = 0,
     ddr_domain = 0, sysFreqKHz = 2000000, memFreqKHz = 666666\<rparr>"

definition demo_memories :: mem_system where
  "demo_memories = \<lparr>ext_dram = demo_ddr, mcdram = [demo_ddr]\<rparr>"

definition demo_bound :: bound where
  "demo_bound = \<lparr>events = [], eventRecorders = (\<lambda>s. if s < 4 then Some
     \<lparr>er_tr = \<lparr>tr_addr = 0, tr_reqCycle = 0, tr_respCycle = 0, tr_type = GETS, tr_startEvent = None, tr_endEvent = None\<rparr>,
      er_srcId = s, lastGapCycles = 0, lastStartSlack = 0\<rparr> else None)\<rparr>"

definition demo_req :: "address \<Rightarrow> AccessType \<Rightarrow> nat \<Rightarrow> MemReq" where
  "demo_req addr ty src = \<lparr>lineAddr = addr, req_type = ty, childId = 0, req_state = StI, cycle = 100, initialState = StI, srcId = src,
     req_flags = 0\<rparr>"

lemma demo_ready: "ready s demo_bound"
  by (simp add: ready_def demo_bound_def graph_ok_def edges_def acyclic_def hasRecord_def tr_isValid_def)

lemma demo_new:
  "\<exists>mc. MemoryController_new demo_config ''mem-1'' demo_raw = Some mc \<and> runnable mc \<and> memories_for demo_memories (cfg mc)"
proof -
  note gets = get_uint32_def get_uint32_default_def get_bool_default_def get_str_def get_str_default_def get_double_def
    get_double_default_def genericGet_def genericGet_default_def demo_config_def
  show ?thesis
    by (simp add: MemoryController_new_def mc_read_config_def mc_cache_config_def mc_scheme_def mc_sets_def mc_line_policy_def
      mc_page_policy_def mc_buffer_def pp_initialize_def clearStats_def runnable_def memories_for_def has_target_def
      overrides_access_def demo_memories_def demo_ddr_def view_def TagBuffer_new_def Let_def gets)
qed

end
