(* ===== verification/Mtrand.thy ===== *)
theory Mtrand
  imports Prelude "HOL-Library.Log_Nat"
begin

text \<open>
  The Mersenne twister \<open>MTRand\<close> (\<open>src/src/mtrand.h\<close>): seeding from a number and from an array, the
  reload of the state vector, drawing integers, and saving and restoring the generator.  State words are
  64 bits wide, as in the source; that only their low 32 bits are ever used is a theorem.

  The bounded draw \<open>randInt(n)\<close> takes numbers until one is in range; it is shown to be the first of the draws that,
  reduced to as many bits as \<open>n\<close> has, does not exceed \<open>n\<close>.

  The pointer \<open>pNext\<close> is the index \<open>mt_next\<close> into the state vector.  Seeding from \<open>/dev/urandom\<close> and the draws of
  floating-point numbers are not modelled.
\<close>

unbundle bit_operations_syntax

definition mt_N :: nat where "mt_N = 624"
definition mt_M :: nat where "mt_M = 397"

record MTRand =
  mt_state :: "64 word list"
  mt_next :: nat
  mt_left :: nat

section \<open>Words of 32 bits\<close>

definition low32 :: "64 word \<Rightarrow> bool" where
  "low32 w \<longleftrightarrow> take_bit 32 w = w"

lemma low32_bit: "low32 w \<longleftrightarrow> (\<forall>n \<ge> 32. \<not> bit w n)"
proof -
  have "bit w n \<Longrightarrow> n < 64" for n using bit_imp_le_length [of w n] by simp
  then show ?thesis unfolding low32_def by (simp add: bit_eq_iff bit_take_bit_iff) (metis not_le)
qed

lemma low32_unat: "low32 w \<longleftrightarrow> unat w < 2 ^ 32"
proof
  assume "low32 w"
  then have "unat w = unat (take_bit 32 w)" by (simp add: low32_def)
  also have "\<dots> = take_bit 32 (unat w)" by (simp add: unsigned_take_bit_eq)
  also have "\<dots> < 2 ^ 32" by (rule take_bit_nat_less_exp)
  finally show "unat w < 2 ^ 32" .
next
  assume "unat w < 2 ^ 32"
  then have "unat (take_bit 32 w) = unat w"
    by (simp add: unsigned_take_bit_eq take_bit_nat_eq_self)
  then show "low32 w" by (simp add: low32_def word_unat_eq_iff)
qed

lemma low32_mask: "0xffffffff = (mask 32 :: 64 word)"
  by (simp add: mask_eq_exp_minus_1)

lemma low32_closed [simp]:
  "low32 a \<Longrightarrow> low32 b \<Longrightarrow> low32 (a XOR b)"
  "low32 a \<Longrightarrow> low32 b \<Longrightarrow> low32 (a OR b)"
  "low32 a \<Longrightarrow> low32 (a AND b)"
  "low32 b \<Longrightarrow> low32 (a AND b)"
  "low32 a \<Longrightarrow> low32 (drop_bit n a)"
  by (auto simp: low32_bit bit_simps)

lemma low32_and_mask [simp]: "low32 (a AND 0xffffffff)"
  unfolding low32_mask by (auto simp: low32_bit bit_simps)

lemma low32_numeral [simp]: "low32 (numeral k) \<longleftrightarrow> take_bit 32 (numeral k :: 64 word) = numeral k"
  by (simp add: low32_def)

lemma low32_zero [simp]: "low32 0" by (simp add: low32_def)

section \<open>Seeding\<close>

definition hiBit :: "64 word \<Rightarrow> 64 word" where "hiBit u = u AND 0x80000000"
definition loBit :: "64 word \<Rightarrow> 64 word" where "loBit u = u AND 1"
definition loBits :: "64 word \<Rightarrow> 64 word" where "loBits u = u AND 0x7fffffff"
definition mixBits :: "64 word \<Rightarrow> 64 word \<Rightarrow> 64 word" where "mixBits u v = hiBit u OR loBits v"
definition magic :: "64 word \<Rightarrow> 64 word" where "magic u = (if loBit u \<noteq> 0 then 0x9908b0df else 0)"

definition twist :: "64 word \<Rightarrow> 64 word \<Rightarrow> 64 word \<Rightarrow> 64 word" where
  "twist m s0 s1 = m XOR drop_bit 1 (mixBits s0 s1) XOR magic s1"

definition mt_initialize :: "64 word \<Rightarrow> 64 word list \<Rightarrow> 64 word list" where
  "mt_initialize seed state =
     fold (\<lambda>i s. s[i := (1812433253 * (s ! (i - 1) XOR drop_bit 30 (s ! (i - 1))) + of_nat i) AND 0xffffffff])
       [1..<mt_N] (state[0 := seed AND 0xffffffff])"

text \<open>The state vector is regenerated in place: later words are computed from the new values of earlier ones.\<close>

definition twist_at :: "nat \<Rightarrow> nat \<Rightarrow> nat \<Rightarrow> 64 word list \<Rightarrow> 64 word list" where
  "twist_at p m n s = s[p := twist (s ! m) (s ! p) (s ! n)]"

definition reload :: "MTRand \<Rightarrow> MTRand" where
  "reload g =
     (let s = fold (\<lambda>p. twist_at p (p + mt_M) (p + 1)) [0..<mt_N - mt_M] (mt_state g);
          s = fold (\<lambda>p. twist_at p (p - (mt_N - mt_M)) (p + 1)) [mt_N - mt_M..<mt_N - 1] s;
          s = twist_at (mt_N - 1) (mt_N - 1 - (mt_N - mt_M)) 0 s
      in g\<lparr>mt_state := s, mt_left := mt_N, mt_next := 0\<rparr>)"

definition mt_seed :: "64 word \<Rightarrow> MTRand \<Rightarrow> MTRand" where
  "mt_seed oneSeed g = reload (g\<lparr>mt_state := mt_initialize oneSeed (mt_state g)\<rparr>)"

text \<open>Seeding from an array; the two loops share the index \<open>i\<close>, which wraps from the last word to the second.\<close>

definition wrap_state :: "nat \<Rightarrow> 64 word list \<Rightarrow> nat \<times> 64 word list" where
  "wrap_state i s = (if mt_N \<le> i + 1 then (1, s[0 := s ! (mt_N - 1)]) else (i + 1, s))"

definition seed_mix :: "64 word list \<Rightarrow> nat \<times> nat \<times> 64 word list \<Rightarrow> nat \<times> nat \<times> 64 word list" where
  "seed_mix bigSeed = (\<lambda>(i, j, s).
     let v = s ! i XOR ((s ! (i - 1) XOR drop_bit 30 (s ! (i - 1))) * 1664525);
         v = v + ((bigSeed ! j AND 0xffffffff) + of_nat j);
         s = s[i := v AND 0xffffffff];
         (i, s) = wrap_state i s;
         j = (if length bigSeed \<le> j + 1 then 0 else j + 1)
     in (i, j, s))"

definition seed_mix2 :: "nat \<times> 64 word list \<Rightarrow> nat \<times> 64 word list" where
  "seed_mix2 = (\<lambda>(i, s).
     let v = s ! i XOR ((s ! (i - 1) XOR drop_bit 30 (s ! (i - 1))) * 1566083941);
         v = v - of_nat i;
         s = s[i := v AND 0xffffffff]
     in wrap_state i s)"

definition mt_seed_array :: "64 word list \<Rightarrow> MTRand \<Rightarrow> MTRand option" where
  "mt_seed_array bigSeed g =
     (if bigSeed = [] then None
      else let s = mt_initialize 19650218 (mt_state g);
               (i, j, s) = (seed_mix bigSeed ^^ max mt_N (length bigSeed)) (1, 0, s);
               (i, s) = (seed_mix2 ^^ (mt_N - 1)) (i, s)
           in Some (reload (g\<lparr>mt_state := s[0 := 0x80000000]\<rparr>)))"

section \<open>Drawing\<close>

definition temper :: "64 word \<Rightarrow> 64 word" where
  "temper s1 =
     (let s1 = s1 XOR drop_bit 11 s1;
          s1 = s1 XOR (push_bit 7 s1 AND 0x9d2c5680);
          s1 = s1 XOR (push_bit 15 s1 AND 0xefc60000)
      in s1 XOR drop_bit 18 s1)"

definition randInt :: "MTRand \<Rightarrow> 64 word \<times> MTRand" where
  "randInt g =
     (let g = (if mt_left g = 0 then reload g else g)
      in (temper (mt_state g ! mt_next g), g\<lparr>mt_left := mt_left g - 1, mt_next := mt_next g + 1\<rparr>))"

text \<open>Draws until a number in the range is found: \<open>None\<close> is a search that never ends.\<close>

definition used_bits :: "64 word \<Rightarrow> 64 word" where
  "used_bits n =
     (let u = n OR drop_bit 1 n; u = u OR drop_bit 2 u; u = u OR drop_bit 4 u; u = u OR drop_bit 8 u
      in u OR drop_bit 16 u)"

partial_function (option) randInt_upto :: "64 word \<Rightarrow> MTRand \<Rightarrow> (64 word \<times> MTRand) option" where
  "randInt_upto n g =
     (let (r, g) = randInt g; i = r AND used_bits n
      in if i > n then randInt_upto n g else Some (i, g))"

section \<open>Saving and restoring\<close>

definition mt_save :: "MTRand \<Rightarrow> 64 word list" where
  "mt_save g = take mt_N (mt_state g) @ [of_nat (mt_left g)]"

definition mt_load :: "64 word list \<Rightarrow> MTRand \<Rightarrow> MTRand" where
  "mt_load a g = g\<lparr>mt_state := take mt_N a, mt_left := unat (a ! mt_N), mt_next := mt_N - unat (a ! mt_N)\<rparr>"

definition mt_assign :: "MTRand \<Rightarrow> MTRand \<Rightarrow> MTRand" where
  "mt_assign g src = g\<lparr>mt_state := mt_state src, mt_left := mt_left src, mt_next := mt_N - mt_left src\<rparr>"

section \<open>The invariant of the generator\<close>

definition words_ok :: "64 word list \<Rightarrow> bool" where
  "words_ok s \<longleftrightarrow> length s = mt_N \<and> (\<forall>w \<in> set s. low32 w)"

definition mt_ok :: "MTRand \<Rightarrow> bool" where
  "mt_ok g \<longleftrightarrow> words_ok (mt_state g) \<and> mt_left g \<le> mt_N \<and> mt_next g = mt_N - mt_left g"

lemma mt_last: "mt_N - Suc 0 < mt_N" "0 < mt_N" "mt_M < mt_N" "1 < mt_M"
  by (simp_all add: mt_N_def mt_M_def)

lemma words_ok_nth: "words_ok s \<Longrightarrow> i < mt_N \<Longrightarrow> low32 (s ! i)"
  by (simp add: words_ok_def)

lemma words_ok_update: "words_ok s \<Longrightarrow> low32 w \<Longrightarrow> words_ok (s[i := w])"
  using set_update_subset_insert [of s i w] by (auto simp: words_ok_def)

lemma twist_low32: "low32 m \<Longrightarrow> low32 s1 \<Longrightarrow> low32 (twist m s0 s1)"
  by (simp add: twist_def mixBits_def hiBit_def loBits_def magic_def)

lemma twist_at_ok: "words_ok s \<Longrightarrow> m < mt_N \<Longrightarrow> n < mt_N \<Longrightarrow> words_ok (twist_at p m n s)"
  unfolding twist_at_def by (intro words_ok_update twist_low32 words_ok_nth)

lemma fold_words:
  assumes "words_ok s" "\<And>p s. p \<in> set ps \<Longrightarrow> words_ok s \<Longrightarrow> words_ok (f p s)"
  shows "words_ok (fold f ps s)"
  using assms by (induction ps arbitrary: s) auto

lemma reload_ok:
  assumes "words_ok (mt_state g)"
  shows "mt_ok (reload g)"
proof -
  define s1 where "s1 = fold (\<lambda>p. twist_at p (p + mt_M) (p + 1)) [0..<mt_N - mt_M] (mt_state g)"
  define s2 where "s2 = fold (\<lambda>p. twist_at p (p - (mt_N - mt_M)) (p + 1)) [mt_N - mt_M..<mt_N - 1] s1"
  have "words_ok s1" unfolding s1_def
    by (rule fold_words [OF assms], rule twist_at_ok) (use mt_last in auto)
  then have "words_ok s2" unfolding s2_def
    by (rule fold_words, intro twist_at_ok) (use mt_last in auto)
  then have "words_ok (twist_at (mt_N - 1) (mt_N - 1 - (mt_N - mt_M)) 0 s2)"
    by (rule twist_at_ok) (use mt_last in auto)
  then show ?thesis by (simp add: reload_def Let_def mt_ok_def s1_def s2_def)
qed

text \<open>The loop of \<open>initialize\<close> writes every word, so what the state held before does not matter.\<close>

lemma initialize_loop:
  assumes "length s = mt_N" "low32 (s ! 0)" "n \<le> mt_N"
  shows "length (fold (\<lambda>i s. s[i := f i s AND 0xffffffff]) [1..<n] s) = mt_N \<and>
    (\<forall>i < n. low32 (fold (\<lambda>i s. s[i := f i s AND 0xffffffff]) [1..<n] s ! i)) \<or> n = 0"
  using assms(3)
proof (induction n)
  case (Suc n)
  then show ?case using assms(1,2) by (cases "n = 0") (auto simp: less_Suc_eq nth_list_update_if)
qed simp

lemma initialize_ok:
  assumes "length s = mt_N"
  shows "words_ok (mt_initialize seed s)"
proof -
  have "length (s[0 := seed AND 0xffffffff]) = mt_N" "low32 (s[0 := seed AND 0xffffffff] ! 0)"
    using assms mt_last(2) by simp_all
  from initialize_loop [OF this order_refl] show ?thesis
    using mt_last(2) by (auto simp: mt_initialize_def words_ok_def in_set_conv_nth)
qed

lemma mt_seed_ok: "length (mt_state g) = mt_N \<Longrightarrow> mt_ok (mt_seed seed g)"
  by (simp add: mt_seed_def reload_ok initialize_ok)

lemma wrap_state_ok: "words_ok s \<Longrightarrow> words_ok (snd (wrap_state i s))"
  by (auto simp: wrap_state_def intro!: words_ok_update words_ok_nth mt_last)

lemma seed_mix_ok: "words_ok (snd (snd x)) \<Longrightarrow> words_ok (snd (snd (seed_mix b x)))"
  by (simp add: seed_mix_def Let_def split_beta wrap_state_ok words_ok_update)

lemma seed_mix2_ok: "words_ok (snd x) \<Longrightarrow> words_ok (snd (seed_mix2 x))"
  by (simp add: seed_mix2_def Let_def split_beta wrap_state_ok words_ok_update)

lemma funpow_keeps: "P x \<Longrightarrow> (\<And>x. P x \<Longrightarrow> P (f x)) \<Longrightarrow> P ((f ^^ n) x)"
  by (induction n) auto

lemma mt_seed_array_ok:
  assumes "length (mt_state g) = mt_N" "b \<noteq> []"
  shows "\<exists>g'. mt_seed_array b g = Some g' \<and> mt_ok g'"
proof -
  define x where "x = (seed_mix b ^^ max mt_N (length b)) (1, 0, mt_initialize 19650218 (mt_state g))"
  define y where "y = (seed_mix2 ^^ (mt_N - 1)) (fst x, snd (snd x))"
  have "words_ok (snd (snd x))" unfolding x_def
    by (rule funpow_keeps [where P = "\<lambda>x. words_ok (snd (snd x))"]) (simp_all add: initialize_ok assms(1) seed_mix_ok)
  then have "words_ok (snd y)" unfolding y_def
    by (intro funpow_keeps [where P = "\<lambda>x. words_ok (snd x)"]) (simp_all add: seed_mix2_ok)
  then have "words_ok ((snd y)[0 := 0x80000000])" by (rule words_ok_update) simp
  then show ?thesis using assms(2)
    unfolding mt_seed_array_def Let_def split_beta x_def [symmetric] y_def [symmetric]
    by (simp add: reload_ok)
qed

section \<open>What the draws promise\<close>

lemma temper_low32: "low32 s \<Longrightarrow> low32 (temper s)"
  by (simp add: temper_def Let_def)

lemma randInt_ok:
  assumes "mt_ok g"
  shows "low32 (fst (randInt g)) \<and> mt_ok (snd (randInt g))"
proof -
  define g' where "g' = (if mt_left g = 0 then reload g else g)"
  have g': "mt_ok g'" using assms reload_ok by (simp add: g'_def mt_ok_def)
  have left: "0 < mt_left g'" by (simp add: g'_def reload_def Let_def mt_N_def)
  then have "mt_next g' < mt_N" using g' by (simp add: mt_ok_def mt_N_def)
  then have "low32 (mt_state g' ! mt_next g')" using g' words_ok_nth by (simp add: mt_ok_def)
  then show ?thesis using g' left
    by (auto simp: randInt_def g'_def [symmetric] temper_low32 mt_ok_def Let_def)
qed

definition mt_draws :: "nat \<Rightarrow> MTRand \<Rightarrow> MTRand" where
  "mt_draws k = (\<lambda>g. snd (randInt g)) ^^ k"

lemma mt_draws_ok: "mt_ok g \<Longrightarrow> mt_ok (mt_draws k g)"
  unfolding mt_draws_def by (rule funpow_keeps) (simp_all add: randInt_ok)

lemma mt_draws_Suc: "mt_draws (Suc k) g = mt_draws k (snd (randInt g))"
  unfolding mt_draws_def funpow_Suc_right by simp

lemma used_bits_mask: "used_bits (mask k) = mask k"
  unfolding used_bits_def Let_def by (rule bit_word_eqI) (auto simp: bit_simps)

lemma and_mask_le: "a AND mask k \<le> (mask k :: 'a::len word)"
  by (simp add: word_and_le1)

lemma randInt_upto_first:
  assumes "fst (randInt (mt_draws k g)) AND used_bits n \<le> n"
    "\<And>j. j < k \<Longrightarrow> \<not> fst (randInt (mt_draws j g)) AND used_bits n \<le> n"
  shows "randInt_upto n g = Some (fst (randInt (mt_draws k g)) AND used_bits n, mt_draws (Suc k) g)"
  using assms
proof (induction k arbitrary: g)
  case 0
  then show ?case
    by (subst randInt_upto.simps) (auto simp: mt_draws_def split_beta Let_def dest: leD)
next
  case (Suc k)
  have "\<not> fst (randInt g) AND used_bits n \<le> n" using Suc.prems(2) [of 0] by (simp add: mt_draws_def)
  then have "randInt_upto n g = randInt_upto n (snd (randInt g))"
    by (subst randInt_upto.simps) (simp add: split_beta Let_def not_le)
  also have "\<dots> = Some (fst (randInt (mt_draws k (snd (randInt g)))) AND used_bits n, mt_draws (Suc k) (snd (randInt g)))"
  proof (rule Suc.IH)
    show "fst (randInt (mt_draws k (snd (randInt g)))) AND used_bits n \<le> n"
      using Suc.prems(1) by (simp only: mt_draws_Suc)
    show "\<not> fst (randInt (mt_draws j (snd (randInt g)))) AND used_bits n \<le> n" if "j < k" for j
      using Suc.prems(2) [of "Suc j"] that by (simp only: mt_draws_Suc) simp
  qed
  finally show ?case by (simp only: mt_draws_Suc)
qed

lemma mtrand_mask:
  assumes "mt_ok g"
  shows "\<exists>i g'. randInt_upto (mask k) g = Some (i, g') \<and> i \<le> mask k \<and> mt_ok g' \<and> g' = mt_draws 1 g"
proof -
  have le: "fst (randInt (mt_draws 0 g)) AND used_bits (mask k) \<le> mask k"
    by (simp add: used_bits_mask and_mask_le)
  from randInt_upto_first [OF this] le show ?thesis
    using mt_draws_ok [OF assms, of 1] by auto
qed

section \<open>The bounded draw\<close>

text \<open>The shifts of \<open>used_bits\<close> smear every bit over the 31 bits below it.\<close>

lemma smear_step:
  fixes n u :: "64 word"
  assumes "\<And>i. bit u i \<longleftrightarrow> (\<exists>j < w. bit n (i + j))"
  shows "bit (u OR drop_bit w u) i \<longleftrightarrow> (\<exists>j < w + w. bit n (i + j))"
proof -
  have "(\<exists>j < w + w. bit n (i + j)) \<longleftrightarrow> (\<exists>j < w. bit n (i + j)) \<or> (\<exists>j < w. bit n (w + i + j))" (is "?l \<longleftrightarrow> ?r")
  proof
    assume ?l
    then obtain j where "j < w + w" "bit n (i + j)" by blast
    then have "j < w \<and> bit n (i + j) \<or> j - w < w \<and> bit n (w + i + (j - w))" by (cases "j < w") (simp_all add: add.commute)
    then show ?r by blast
  next
    assume ?r
    then consider j where "j < w" "bit n (i + j)" | j where "w + j < w + w" "bit n (i + (w + j))"
      by (auto simp: ac_simps)
    then show ?l by cases (meson trans_less_add1)+
  qed
  then show ?thesis by (simp add: bit_or_iff bit_drop_bit_eq assms)
qed

lemma bit_used_bits: "bit (used_bits n) i \<longleftrightarrow> (\<exists>j < 32. bit n (i + j))"
proof -
  define u1 where "u1 = n OR drop_bit 1 n"
  define u2 where "u2 = u1 OR drop_bit 2 u1"
  define u4 where "u4 = u2 OR drop_bit 4 u2"
  define u8 where "u8 = u4 OR drop_bit 8 u4"
  have "bit u1 i \<longleftrightarrow> (\<exists>j < 1 + 1. bit n (i + j))" for i unfolding u1_def by (rule smear_step) auto
  then have "bit u1 i \<longleftrightarrow> (\<exists>j < 2. bit n (i + j))" for i unfolding one_add_one .
  then have "bit u2 i \<longleftrightarrow> (\<exists>j < 2 + 2. bit n (i + j))" for i unfolding u2_def by (intro smear_step) simp
  then have "bit u4 i \<longleftrightarrow> (\<exists>j < 4 + 4. bit n (i + j))" for i unfolding u4_def by (intro smear_step) simp
  then have "bit u8 i \<longleftrightarrow> (\<exists>j < 8 + 8. bit n (i + j))" for i unfolding u8_def by (intro smear_step) simp
  then have "bit (u8 OR drop_bit 16 u8) i \<longleftrightarrow> (\<exists>j < 16 + 16. bit n (i + j))" for i by (intro smear_step) simp
  then show ?thesis by (simp add: used_bits_def u1_def u2_def u4_def u8_def Let_def)
qed

lemma bits_from: "(\<exists>m \<ge> i. bit n m) \<longleftrightarrow> i < floorlog 2 (unat n)" for n :: "64 word"
proof -
  have "(\<exists>m \<ge> i. bit n m) \<longleftrightarrow> (\<exists>m. bit (drop_bit i n) m)"
    by (auto simp: bit_drop_bit_eq le_iff_add)
  also have "\<dots> \<longleftrightarrow> drop_bit i n \<noteq> 0" by (metis bit_0_eq bot_apply bot_bool_def bit_eqI)
  also have "\<dots> \<longleftrightarrow> unat n div 2 ^ i \<noteq> 0" by (metis unat_eq_0 unat_drop_bit_eq drop_bit_eq_div)
  also have "\<dots> \<longleftrightarrow> 2 ^ i \<le> unat n" by (simp add: div_eq_0_iff not_less)
  also have "\<dots> \<longleftrightarrow> i < floorlog 2 (unat n)"
  proof (cases "unat n = 0")
    case False
    then have b: "2 ^ (floorlog 2 (unat n) - 1) \<le> unat n" "unat n < 2 ^ floorlog 2 (unat n)" "0 < floorlog 2 (unat n)"
      using floorlog_bounds [of "unat n" 2] by (auto simp: floorlog_def)
    show ?thesis
    proof
      assume "2 ^ i \<le> unat n"
      with b(2) have "(2 :: nat) ^ i < 2 ^ floorlog 2 (unat n)" by linarith
      then show "i < floorlog 2 (unat n)" by simp
    next
      assume "i < floorlog 2 (unat n)"
      then have "(2 :: nat) ^ i \<le> 2 ^ (floorlog 2 (unat n) - 1)" by (intro power_increasing) auto
      with b(1) show "2 ^ i \<le> unat n" by linarith
    qed
  qed (simp add: floorlog_def)
  finally show ?thesis .
qed

lemma used_bits_all:
  assumes "unat n < 2 ^ 32"
  shows "used_bits n = mask (floorlog 2 (unat n))"
proof (rule bit_word_eqI)
  fix i assume i: "i < LENGTH(64)"
  have le: "m < 32" if "bit n m" for m
  proof (rule ccontr)
    assume "\<not> m < 32"
    then have "32 < floorlog 2 (unat n)" using that bits_from [of 32 n] by auto
    then have "2 ^ 32 \<le> (2 :: nat) ^ (floorlog 2 (unat n) - 1)" by (intro power_increasing) auto
    also have "\<dots> \<le> unat n" using floorlog_bounds [of "unat n" 2] \<open>32 < _\<close> by (auto simp: floorlog_def split: if_splits)
    finally show False using assms by simp
  qed
  have "(\<exists>j < 32. bit n (i + j)) \<longleftrightarrow> (\<exists>m \<ge> i. bit n m)"
  proof
    assume "\<exists>m \<ge> i. bit n m"
    then obtain m where "i \<le> m" "bit n m" by blast
    then show "\<exists>j < 32. bit n (i + j)" using le [of m] by (intro exI [of _ "m - i"]) simp
  qed (use le_add1 in blast)
  then show "bit (used_bits n) i \<longleftrightarrow> bit (mask (floorlog 2 (unat n)) :: 64 word) i"
    using i by (simp add: bit_used_bits bits_from bit_mask_iff)
qed

text \<open>A draw reduced to as many bits as the bound has.\<close>

definition reduced_draw :: "64 word \<Rightarrow> nat \<Rightarrow> MTRand \<Rightarrow> nat" where
  "reduced_draw n j g = unat (fst (randInt (mt_draws j g))) mod 2 ^ floorlog 2 (unat n)"

lemma unat_masked_draw:
  assumes "unat n < 2 ^ 32"
  shows "unat (fst (randInt (mt_draws j g)) AND used_bits n) = reduced_draw n j g"
  unfolding used_bits_all [OF assms] by (simp add: reduced_draw_def take_bit_eq_mask [symmetric] unsigned_take_bit_eq take_bit_eq_mod [symmetric])

lemma randInt_upto_returned:
  assumes "randInt_upto n g = Some (i, g')"
  shows "\<exists>k. i = fst (randInt (mt_draws k g)) AND used_bits n \<and> i \<le> n \<and> g' = mt_draws (Suc k) g \<and>
    (\<forall>j < k. \<not> fst (randInt (mt_draws j g)) AND used_bits n \<le> n)"
proof -
  let ?P = "\<lambda>n g r. \<exists>k. fst r = fst (randInt (mt_draws k g)) AND used_bits n \<and> fst r \<le> n \<and> snd r = mt_draws (Suc k) g \<and>
    (\<forall>j < k. \<not> fst (randInt (mt_draws j g)) AND used_bits n \<le> n)"
  have "?P n g (i, g')"
  proof (rule randInt_upto.raw_induct [where P = ?P, OF _ assms])
    fix f n g r
    assume IH: "\<And>n g r. f n g = Some r \<Longrightarrow> ?P n g r"
      and eq: "(let (x, g) = randInt g; i = x AND used_bits n in if i > n then f n g else Some (i, g)) = Some r"
    show "?P n g r"
    proof (cases "fst (randInt g) AND used_bits n \<le> n")
      case True
      then have "r = (fst (randInt g) AND used_bits n, snd (randInt g))" using eq by (simp add: split_beta Let_def leD)
      then show ?thesis using True by (intro exI [of _ 0]) (simp add: mt_draws_def)
    next
      case False
      then have "f n (snd (randInt g)) = Some r" using eq by (simp add: split_beta Let_def not_le)
      then obtain k where k: "fst r = fst (randInt (mt_draws (Suc k) g)) AND used_bits n" "fst r \<le> n" "snd r = mt_draws (Suc (Suc k)) g"
        "\<forall>j < k. \<not> fst (randInt (mt_draws (Suc j) g)) AND used_bits n \<le> n"
        using IH by (force simp: mt_draws_Suc)
      have "\<not> fst (randInt (mt_draws j g)) AND used_bits n \<le> n" if "j < Suc k" for j
        using that k(4) False by (cases j) (auto simp: mt_draws_def)
      with k(1-3) show ?thesis by blast
    qed
  qed
  then show ?thesis by simp
qed

section \<open>Properties\<close>

text \<open>
  C25. Every number drawn from a seeded generator is below \<open>2 ^ 32\<close>, however many draws precede it and
  whatever the state vector held before seeding, although the words are 64 bits wide.
\<close>

theorem mtrand_draw_bounds:
  assumes "length (mt_state raw) = mt_N"
  shows "unat (fst (randInt (mt_draws k (mt_seed seed raw)))) < 2 ^ 32"
  using randInt_ok [OF mt_draws_ok [OF mt_seed_ok [OF assms]]] by (simp add: low32_unat)

theorem mtrand_draw_bounds_witness:
  "unat (fst (randInt (mt_draws 1000 (mt_seed 0xFFFFFFFFFFFFFFFF
     \<lparr>mt_state = replicate mt_N 0xFFFFFFFFFFFFFFFF, mt_next = 7, mt_left = 3\<rparr>)))) < 2 ^ 32"
  by (rule mtrand_draw_bounds) simp

text \<open>
  C26. The bounded draw \<open>randInt(n)\<close>, for every \<open>n\<close> of at most 32 bits, is rejection sampling: it returns exactly if
  some later draw, reduced to as many bits as \<open>n\<close> has, is at most \<open>n\<close>; its result is then the first such number, and
  the generator has advanced by exactly the draws up to it.  For larger \<open>n\<close> the shifts do not reach all lower bits.
\<close>

theorem mtrand_upto_first_draw:
  assumes "unat n < 2 ^ 32"
  shows "randInt_upto n g = Some (i, g') \<longleftrightarrow>
    (\<exists>k. reduced_draw n k g \<le> unat n \<and> (\<forall>j < k. unat n < reduced_draw n j g) \<and> unat i = reduced_draw n k g \<and> g' = mt_draws (Suc k) g)"
proof
  assume "randInt_upto n g = Some (i, g')"
  from randInt_upto_returned [OF this] obtain k where "i = fst (randInt (mt_draws k g)) AND used_bits n" "i \<le> n" "g' = mt_draws (Suc k) g"
    "\<forall>j < k. \<not> fst (randInt (mt_draws j g)) AND used_bits n \<le> n" by blast
  then show "\<exists>k. reduced_draw n k g \<le> unat n \<and> (\<forall>j < k. unat n < reduced_draw n j g) \<and> unat i = reduced_draw n k g \<and> g' = mt_draws (Suc k) g"
    by (intro exI [of _ k]) (simp add: word_le_nat_alt unat_masked_draw [OF assms] not_le)
next
  assume "\<exists>k. reduced_draw n k g \<le> unat n \<and> (\<forall>j < k. unat n < reduced_draw n j g) \<and> unat i = reduced_draw n k g \<and> g' = mt_draws (Suc k) g"
  then obtain k where k: "reduced_draw n k g \<le> unat n" "\<forall>j < k. unat n < reduced_draw n j g" "unat i = reduced_draw n k g" "g' = mt_draws (Suc k) g"
    by blast
  then have "randInt_upto n g = Some (fst (randInt (mt_draws k g)) AND used_bits n, mt_draws (Suc k) g)"
    by (intro randInt_upto_first) (simp_all add: word_le_nat_alt unat_masked_draw [OF assms] not_le)
  moreover have "i = fst (randInt (mt_draws k g)) AND used_bits n"
    using k(3) by (simp add: word_unat_eq_iff unat_masked_draw [OF assms])
  ultimately show "randInt_upto n g = Some (i, g')" using k(4) by simp
qed

text \<open>The first draw gives 6 in three bits, which exceeds 5; the second gives 4.\<close>

definition demo_mt :: MTRand where
  "demo_mt = \<lparr>mt_state = [6, 4] @ replicate 622 0, mt_next = 0, mt_left = 624\<rparr>"

theorem mtrand_upto_first_draw_witness:
  "randInt_upto 5 demo_mt = Some (4, mt_draws 2 demo_mt)"
proof -
  have "fst (randInt (mt_draws 0 demo_mt)) = temper 6" "fst (randInt (mt_draws 1 demo_mt)) = temper 4"
    by (simp_all add: mt_draws_def randInt_def demo_mt_def)
  moreover have "unat (temper 6) mod 8 = 6" "unat (temper 4) mod 8 = 4"
    by (simp_all add: temper_def Let_def)
  moreover have "floorlog 2 5 = (3 :: nat)" by (simp add: compute_floorlog)
  ultimately have r: "reduced_draw 5 0 demo_mt = 6" "reduced_draw 5 1 demo_mt = 4"
    by (simp_all add: reduced_draw_def)
  then have "\<exists>k. reduced_draw 5 k demo_mt \<le> unat (5 :: 64 word) \<and> (\<forall>j < k. unat (5 :: 64 word) < reduced_draw 5 j demo_mt) \<and>
      unat (4 :: 64 word) = reduced_draw 5 k demo_mt \<and> mt_draws (Suc 1) demo_mt = mt_draws (Suc k) demo_mt"
    by (intro exI [of _ 1]) simp
  then have "randInt_upto 5 demo_mt = Some (4, mt_draws (Suc 1) demo_mt)"
    by (rule mtrand_upto_first_draw [THEN iffD2, rotated]) simp
  then show ?thesis by (simp only: Suc_1)
qed

text \<open>C27. Loading what \<open>save\<close> wrote gives back the generator, whatever the generator it is loaded into.\<close>

theorem mtrand_save_load:
  assumes "mt_ok g"
  shows "mt_load (mt_save g) h = g"
proof -
  have len: "length (mt_state g) = mt_N" and left: "mt_left g \<le> mt_N" and nxt: "mt_next g = mt_N - mt_left g"
    using assms by (auto simp: mt_ok_def words_ok_def)
  have "unat (of_nat (mt_left g) :: 64 word) = mt_left g"
    using left by (simp add: unat_of_nat mt_N_def take_bit_nat_eq_self)
  moreover have "mt_save g ! mt_N = of_nat (mt_left g)" using len by (simp add: mt_save_def nth_append)
  ultimately show ?thesis using len nxt by (simp add: mt_load_def mt_save_def)
qed

theorem mtrand_save_load_witness:
  "mt_load (mt_save (mt_draws 700 (mt_seed 42 \<lparr>mt_state = replicate mt_N 0, mt_next = 0, mt_left = 0\<rparr>)))
     \<lparr>mt_state = [], mt_next = 0, mt_left = 0\<rparr> =
   mt_draws 700 (mt_seed 42 \<lparr>mt_state = replicate mt_N 0, mt_next = 0, mt_left = 0\<rparr>)"
  by (rule mtrand_save_load [OF mt_draws_ok [OF mt_seed_ok]]) simp

end
