(* ===== verification/Repl.thy ===== *)
theory Repl
  imports Mem_Types Mtrand
begin

text \<open>
  The replacement policies of the cache arrays (\<open>src/src/repl_policies.h\<close>): LRU with and without regard to
  sharers, DRAM-cache aware LRU, TreeLRU, NRU, random, LFU, and LRU that profiles ordering violations.

  A policy asks the coherence controller of its cache whether a line is valid and how many sharers it has; \<open>cc_view\<close>
  is that controller at the time of the call.  Timestamps and scores are 64-bit numbers, with the reductions written
  out; the score of a candidate is kept in a 32-bit variable.  An access outside an array and a failed assertion are
  \<open>None\<close>.  Candidates are the list that the iterator of the array yields.
\<close>

record cc_view =
  cv_sharers :: "nat \<Rightarrow> nat"
  cv_valid :: "nat \<Rightarrow> bool"

unbundle bit_operations_syntax

text \<open>\<open>isPow2\<close> of \<open>src/src/bithacks.h\<close>.\<close>

definition isPow2 :: "nat \<Rightarrow> bool" where
  "isPow2 val \<longleftrightarrow> val \<noteq> 0 \<and> val AND (val - 1) = 0"

definition u32 :: "nat \<Rightarrow> nat" where "u32 x = x mod 2 ^ 32"
definition u64 :: "nat \<Rightarrow> nat" where "u64 x = x mod 2 ^ 64"

text \<open>An element of an array, \<open>None\<close> outside it.\<close>

definition elem_at :: "'a list \<Rightarrow> nat \<Rightarrow> 'a option" where
  "elem_at xs i = (if i < length xs then Some (xs ! i) else None)"

definition put :: "'a list \<Rightarrow> nat \<Rightarrow> 'a \<Rightarrow> 'a list option" where
  "put xs i x = (if i < length xs then Some (xs[i := x]) else None)"

section \<open>LRU\<close>

record LRU =
  sharersAware :: bool
  timestamp :: nat
  lru_array :: "nat list"

definition LRU_new :: "bool \<Rightarrow> nat \<Rightarrow> LRU" where
  "LRU_new aware numLines = \<lparr>sharersAware = aware, timestamp = 1, lru_array = replicate numLines 0\<rparr>"

definition lru_update :: "nat \<Rightarrow> LRU \<Rightarrow> LRU option" where
  "lru_update i p = do {
     a \<leftarrow> put (lru_array p) i (timestamp p);
     Some (p\<lparr>lru_array := a, timestamp := u64 (timestamp p + 1)\<rparr>) }"

definition lru_replaced :: "nat \<Rightarrow> LRU \<Rightarrow> LRU option" where
  "lru_replaced i p = do { a \<leftarrow> put (lru_array p) i 0; Some (p\<lparr>lru_array := a\<rparr>) }"

definition lru_score :: "bool \<Rightarrow> cc_view \<Rightarrow> nat \<Rightarrow> (nat \<Rightarrow> nat) \<Rightarrow> nat \<Rightarrow> nat" where
  "lru_score aware cc ts count i =
     u64 ((if aware then cv_sharers cc i else 0) * ts + count i * (if cv_valid cc i then 1 else 0))"

text \<open>The loop over the candidates: the first candidate with the smallest truncated score.\<close>

definition pick :: "(nat \<Rightarrow> nat) \<Rightarrow> nat list \<Rightarrow> nat \<times> nat" where
  "pick score cands =
     fold (\<lambda>c (best, bestScore). let s = u32 (score c) in (if s < bestScore then c else best, min s bestScore))
       cands (2 ^ 32 - 1, 2 ^ 64 - 1)"

definition lru_rank :: "cc_view \<Rightarrow> nat list \<Rightarrow> LRU \<Rightarrow> nat option" where
  "lru_rank cc cands p = do {
     assert_that (\<forall>c \<in> set cands. c < length (lru_array p));
     Some (fst (pick (lru_score (sharersAware p) cc (timestamp p) (\<lambda>i. lru_array p ! i)) cands)) }"

section \<open>DRAM-cache aware LRU\<close>

record dc_line =
  dc_count :: nat
  in_dram_cache :: bool

record LRUDC =
  dc_sharersAware :: bool
  dc_timestamp :: nat
  replLines4DC :: nat
  dc_array :: "dc_line list"

definition LRUDC_new :: "bool \<Rightarrow> nat \<Rightarrow> LRUDC" where
  "LRUDC_new aware numLines =
     \<lparr>dc_sharersAware = aware, dc_timestamp = 1, replLines4DC = 0,
      dc_array = replicate numLines \<lparr>dc_count = 0, in_dram_cache = False\<rparr>\<rparr>"

definition dc_update :: "nat \<Rightarrow> bool \<Rightarrow> LRUDC \<Rightarrow> LRUDC option" where
  "dc_update i hit_in_dc p = do {
     a \<leftarrow> put (dc_array p) i \<lparr>dc_count = dc_timestamp p, in_dram_cache = hit_in_dc\<rparr>;
     Some (p\<lparr>dc_array := a, dc_timestamp := u64 (dc_timestamp p + 1)\<rparr>) }"

definition dc_replaced :: "nat \<Rightarrow> LRUDC \<Rightarrow> LRUDC option" where
  "dc_replaced i p = do {
     a \<leftarrow> put (dc_array p) i \<lparr>dc_count = 0, in_dram_cache = False\<rparr>;
     Some (p\<lparr>dc_array := a\<rparr>) }"

definition dc_rank :: "cc_view \<Rightarrow> nat list \<Rightarrow> bool \<Rightarrow> LRUDC \<Rightarrow> (nat \<times> LRUDC) option" where
  "dc_rank cc cands dynamic_repl p = do {
     assert_that (\<forall>c \<in> set cands. c < length (dc_array p));
     let score = lru_score (dc_sharersAware p) cc (dc_timestamp p) (\<lambda>i. dc_count (dc_array p ! i));
     let hits = filter (\<lambda>i. in_dram_cache (dc_array p ! i)) cands;
     let bestCand = fst (pick score hits);
     let secondCand = fst (pick score cands);
     let p = (if bestCand \<noteq> secondCand then p\<lparr>replLines4DC := u64 (replLines4DC p + 1)\<rparr> else p);
     Some (if hits \<noteq> [] \<and> dynamic_repl then bestCand else secondCand, p) }"

section \<open>TreeLRU\<close>

text \<open>
  \<open>TreeLRUReplPolicy\<close> derives from the sharers-aware LRU and inherits its \<open>rankCands\<close>; nothing calls the two
  functions of its own, \<open>recordCandidate\<close> and \<open>getBestCandidate\<close>.
\<close>

record TreeLRU =
  tree_lru :: LRU
  tree_candArray :: "nat list"
  tree_candIdx :: nat

definition TreeLRU_new :: "nat \<Rightarrow> nat \<Rightarrow> TreeLRU option" where
  "TreeLRU_new numLines numCands = do {
     assert_that (numCands AND (numCands - 1) = 0);
     Some \<lparr>tree_lru = LRU_new True numLines, tree_candArray = replicate numCands 0, tree_candIdx = 0\<rparr> }"

definition tree_record :: "nat \<Rightarrow> TreeLRU \<Rightarrow> TreeLRU option" where
  "tree_record i p = do {
     a \<leftarrow> put (tree_candArray p) (tree_candIdx p) i;
     Some (p\<lparr>tree_candArray := a, tree_candIdx := tree_candIdx p + 1\<rparr>) }"

text \<open>The search halves the interval, keeping the half whose latest access is older.\<close>

definition latest :: "(nat \<Rightarrow> nat) \<Rightarrow> nat \<Rightarrow> nat \<Rightarrow> nat" where
  "latest age a b = fold (\<lambda>i t. max t (age i)) [a..<b] 0"

function tree_search :: "(nat \<Rightarrow> nat) \<Rightarrow> nat \<Rightarrow> nat \<Rightarrow> nat" where
  "tree_search age first bound =
     (if 1 < bound - first
      then let pivot = first + (bound - first) div 2
           in if latest age first pivot > latest age pivot bound then tree_search age pivot bound
              else tree_search age first pivot
      else first)"
  by pat_completeness auto
termination by (relation "measure (\<lambda>(age, first, bound). bound - first)") (auto simp: Let_def)

definition tree_best :: "TreeLRU \<Rightarrow> nat option" where
  "tree_best p = do {
     assert_that (tree_candIdx p = length (tree_candArray p));
     assert_that (\<forall>c \<in> set (tree_candArray p). c < length (lru_array (tree_lru p)));
     elem_at (tree_candArray p)
       (tree_search (\<lambda>i. lru_array (tree_lru p) ! (tree_candArray p ! i)) 0 (length (tree_candArray p))) }"

definition tree_replaced :: "nat \<Rightarrow> TreeLRU \<Rightarrow> TreeLRU option" where
  "tree_replaced i p = do { l \<leftarrow> lru_replaced i (tree_lru p); Some (p\<lparr>tree_candIdx := 0, tree_lru := l\<rparr>) }"

section \<open>NRU\<close>

record NRU =
  nru_array :: "nat list"
  nru_candArray :: "nat list"
  youngLines :: nat
  nru_candVal :: nat
  nru_candIdx :: nat

definition NRU_new :: "nat \<Rightarrow> nat \<Rightarrow> NRU" where
  "NRU_new numLines numCands =
     \<lparr>nru_array = replicate numLines 0, nru_candArray = replicate numCands 0, youngLines = 0, nru_candVal = 2 ^ 20, nru_candIdx = 0\<rparr>"

definition nru_update :: "nat \<Rightarrow> NRU \<Rightarrow> NRU option" where
  "nru_update i p = do {
     v \<leftarrow> elem_at (nru_array p) i;
     let young = nat ((int (youngLines p) + 1 - int (v div 2)) mod 2 ^ 32);
     let a = (nru_array p)[i := v OR 2];
     Some (if length (nru_array p) div 2 \<le> young
       then p\<lparr>nru_array := map (\<lambda>v. v div 2) a, youngLines := 0\<rparr>
       else p\<lparr>nru_array := a, youngLines := young\<rparr>) }"

definition nru_record :: "nat \<Rightarrow> NRU \<Rightarrow> NRU option" where
  "nru_record i p = do {
     v \<leftarrow> elem_at (nru_array p) i;
     if v < nru_candVal p
     then do { a \<leftarrow> put (nru_candArray p) 0 i; Some (p\<lparr>nru_candVal := v, nru_candArray := a, nru_candIdx := 1\<rparr>) }
     else if v = nru_candVal p
     then do { a \<leftarrow> put (nru_candArray p) (nru_candIdx p) i; Some (p\<lparr>nru_candArray := a, nru_candIdx := nru_candIdx p + 1\<rparr>) }
     else Some p }"

definition nru_best :: "NRU \<Rightarrow> nat option" where
  "nru_best p = do {
     assert_that (0 < nru_candIdx p);
     elem_at (nru_candArray p) (youngLines p mod nru_candIdx p) }"

definition nru_replaced :: "nat \<Rightarrow> NRU \<Rightarrow> NRU option" where
  "nru_replaced i p = do {
     a \<leftarrow> put (nru_array p) i 0;
     Some (p\<lparr>nru_candVal := 2 ^ 20, nru_candIdx := 0, nru_array := a\<rparr>) }"

section \<open>Random replacement\<close>

record RandRepl =
  rand_candArray :: "nat list"
  rand_rnd :: MTRand
  rand_candIdx :: nat

text \<open>The generator is seeded with a constant plus the address of the object.\<close>

definition RandRepl_new :: "nat \<Rightarrow> 64 word \<Rightarrow> MTRand \<Rightarrow> RandRepl" where
  "RandRepl_new numCands self raw =
     \<lparr>rand_candArray = replicate numCands 0, rand_rnd = mt_seed (0x23A5F + self) raw, rand_candIdx = 0\<rparr>"

definition rand_record :: "nat \<Rightarrow> RandRepl \<Rightarrow> RandRepl option" where
  "rand_record i p = do {
     a \<leftarrow> put (rand_candArray p) (rand_candIdx p) i;
     Some (p\<lparr>rand_candArray := a, rand_candIdx := rand_candIdx p + 1\<rparr>) }"

definition rand_best :: "RandRepl \<Rightarrow> (nat \<times> RandRepl) option" where
  "rand_best p = do {
     assert_that (rand_candIdx p = length (rand_candArray p));
     (idx, g) \<leftarrow> randInt_upto (of_nat (nat ((int (length (rand_candArray p)) - 1) mod 2 ^ 32))) (rand_rnd p);
     c \<leftarrow> elem_at (rand_candArray p) (unat idx);
     Some (c, p\<lparr>rand_rnd := g\<rparr>) }"

definition rand_replaced :: "RandRepl \<Rightarrow> RandRepl" where
  "rand_replaced p = p\<lparr>rand_candIdx := 0\<rparr>"

section \<open>LFU\<close>

text \<open>The access counters and timestamps of LFU are natural numbers.\<close>

record LFUInfo =
  lfu_ts :: nat
  lfu_acc :: nat

record Rank =
  rk_info :: LFUInfo
  rk_sharers :: nat
  rk_valid :: bool

record LFU =
  lfu_timestamp :: nat
  bestCandidate :: "nat option"
  lfu_array :: "LFUInfo list"
  bestRank :: Rank

definition Rank_reset :: Rank where
  "Rank_reset = \<lparr>rk_info = \<lparr>lfu_ts = 0, lfu_acc = 0\<rparr>, rk_sharers = 0, rk_valid = False\<rparr>"

definition LFU_new :: "nat \<Rightarrow> LFU" where
  "LFU_new numLines =
     \<lparr>lfu_timestamp = 1, bestCandidate = None, lfu_array = replicate numLines \<lparr>lfu_ts = 0, lfu_acc = 0\<rparr>, bestRank = Rank_reset\<rparr>"

definition invFreq :: "nat \<Rightarrow> LFUInfo \<Rightarrow> nat" where
  "invFreq curTs i = nat ((int curTs - int (lfu_ts i)) mod 2 ^ 64) div lfu_acc i"

definition lessThan :: "nat \<Rightarrow> Rank \<Rightarrow> Rank \<Rightarrow> bool" where
  "lessThan curTs r other =
     (if \<not> rk_valid r \<and> rk_valid other then True
      else if rk_valid r = rk_valid other
      then if rk_sharers r = 0 \<and> 0 < rk_sharers other then True
           else if 0 < rk_sharers r \<and> rk_sharers other = 0 then False
           else if lfu_acc (rk_info r) = 0 then True
           else if lfu_acc (rk_info other) = 0 then False
           else invFreq curTs (rk_info r) > invFreq curTs (rk_info other)
      else False)"

definition lfu_update :: "nat \<Rightarrow> LFU \<Rightarrow> LFU option" where
  "lfu_update i p = do {
     e \<leftarrow> elem_at (lfu_array p) i;
     let e = \<lparr>lfu_ts = (lfu_acc e * lfu_ts e + lfu_timestamp p) div (lfu_acc e + 1), lfu_acc = lfu_acc e + 1\<rparr>;
     Some (p\<lparr>lfu_array := (lfu_array p)[i := e], lfu_timestamp := lfu_timestamp p + 1000\<rparr>) }"

definition lfu_record :: "cc_view \<Rightarrow> nat \<Rightarrow> LFU \<Rightarrow> LFU option" where
  "lfu_record cc i p = do {
     e \<leftarrow> elem_at (lfu_array p) i;
     let candRank = \<lparr>rk_info = e, rk_sharers = cv_sharers cc i, rk_valid = cv_valid cc i\<rparr>;
     Some (if bestCandidate p = None \<or> lessThan (lfu_timestamp p) candRank (bestRank p)
       then p\<lparr>bestRank := candRank, bestCandidate := Some i\<rparr> else p) }"

definition lfu_replaced :: "nat \<Rightarrow> LFU \<Rightarrow> LFU option" where
  "lfu_replaced i p = do {
     e \<leftarrow> elem_at (lfu_array p) i;
     Some (p\<lparr>bestCandidate := None, bestRank := Rank_reset, lfu_array := (lfu_array p)[i := e\<lparr>lfu_acc := 0\<rparr>]\<rparr>) }"

section \<open>Profiling of ordering violations\<close>

text \<open>
  \<open>ProfViolReplPolicy\<close> over the sharers-aware LRU.  Its \<open>startReplacement\<close> belongs to the legacy interface, which LRU
  does not have: nothing calls it, and \<open>replCycle\<close> keeps the value of \<open>init\<close>.
\<close>

record AccTimes =
  acc_read :: cyc
  acc_write :: cyc

record ProfViol =
  pv_lru :: LRU
  accTimes :: "AccTimes list"
  profRAW :: nat
  profWAR :: nat
  profRAR :: nat
  profWAW :: nat
  profNoViolAcc :: nat
  profAAE :: nat
  profNoViolEv :: nat
  replCycle :: cyc

definition ProfViol_new :: "nat \<Rightarrow> ProfViol" where
  "ProfViol_new numLines =
     \<lparr>pv_lru = LRU_new True numLines, accTimes = replicate numLines \<lparr>acc_read = 0, acc_write = 0\<rparr>, profRAW = 0, profWAR = 0,
      profRAR = 0, profWAW = 0, profNoViolAcc = 0, profAAE = 0, profNoViolEv = 0, replCycle = 0\<rparr>"

definition readViol :: "cyc \<Rightarrow> AccTimes \<Rightarrow> bool option" where
  "readViol c t =
     (if c < min (acc_read t) (acc_write t) then Some (acc_read t < acc_write t)
      else if c < acc_read t then Some True
      else do { assert_that (c < acc_write t); Some False })"

definition count_viol :: "bool \<Rightarrow> bool \<Rightarrow> ProfViol \<Rightarrow> ProfViol" where
  "count_viol rd viol p =
     (if rd then if viol then p\<lparr>profRAR := profRAR p + 1\<rparr> else p\<lparr>profRAW := profRAW p + 1\<rparr>
      else if viol then p\<lparr>profWAR := profWAR p + 1\<rparr> else p\<lparr>profWAW := profWAW p + 1\<rparr>)"

definition pv_update :: "nat \<Rightarrow> MemReq \<Rightarrow> ProfViol \<Rightarrow> ProfViol option" where
  "pv_update i req p = do {
     l \<leftarrow> lru_update i (pv_lru p);
     let rd = (req_type req = GETS);
     assert_that (rd \<or> req_type req = GETX);
     t \<leftarrow> elem_at (accTimes p) i;
     p \<leftarrow> (if cycle req < max (acc_read t) (acc_write t)
           then do { v \<leftarrow> readViol (cycle req) t; Some (count_viol rd v p) }
           else Some (p\<lparr>profNoViolAcc := profNoViolAcc p + 1\<rparr>));
     let t = (if rd then t\<lparr>acc_read := max (acc_read t) (cycle req)\<rparr> else t\<lparr>acc_write := max (acc_write t) (cycle req)\<rparr>);
     l \<leftarrow> lru_update i l;
     Some (p\<lparr>accTimes := (accTimes p)[i := t], pv_lru := l\<rparr>) }"

definition pv_replaced :: "nat \<Rightarrow> ProfViol \<Rightarrow> ProfViol option" where
  "pv_replaced i p = do {
     l \<leftarrow> lru_replaced i (pv_lru p);
     t \<leftarrow> elem_at (accTimes p) i;
     let p = (if replCycle p < max (acc_read t) (acc_write t) then p\<lparr>profAAE := profAAE p + 1\<rparr>
              else p\<lparr>profNoViolEv := profNoViolEv p + 1\<rparr>);
     Some (p\<lparr>pv_lru := l, accTimes := (accTimes p)[i := \<lparr>acc_read = 0, acc_write = 0\<rparr>]\<rparr>) }"

section \<open>The interface\<close>

datatype ReplPolicy =
  LRURepl LRU | LRUDCRepl LRUDC | TreeLRURepl TreeLRU | NRURepl NRU | RandReplPolicy RandRepl | LFURepl LFU | ProfViolRepl ProfViol

definition isDCAware :: "ReplPolicy \<Rightarrow> bool" where
  "isDCAware rp = (case rp of LRUDCRepl _ \<Rightarrow> True | _ \<Rightarrow> False)"

definition rp_update :: "nat \<Rightarrow> MemReq \<Rightarrow> bool \<Rightarrow> ReplPolicy \<Rightarrow> ReplPolicy option" where
  "rp_update i req hit_in_dc rp =
     (case rp of
        LRURepl p \<Rightarrow> do { p \<leftarrow> lru_update i p; Some (LRURepl p) }
      | LRUDCRepl p \<Rightarrow> do { p \<leftarrow> dc_update i hit_in_dc p; Some (LRUDCRepl p) }
      | TreeLRURepl p \<Rightarrow> do { l \<leftarrow> lru_update i (tree_lru p); Some (TreeLRURepl (p\<lparr>tree_lru := l\<rparr>)) }
      | NRURepl p \<Rightarrow> do { p \<leftarrow> nru_update i p; Some (NRURepl p) }
      | RandReplPolicy p \<Rightarrow> Some (RandReplPolicy p)
      | LFURepl p \<Rightarrow> do { p \<leftarrow> lfu_update i p; Some (LFURepl p) }
      | ProfViolRepl p \<Rightarrow> do { p \<leftarrow> pv_update i req p; Some (ProfViolRepl p) })"

definition rp_replaced :: "nat \<Rightarrow> ReplPolicy \<Rightarrow> ReplPolicy option" where
  "rp_replaced i rp =
     (case rp of
        LRURepl p \<Rightarrow> do { p \<leftarrow> lru_replaced i p; Some (LRURepl p) }
      | LRUDCRepl p \<Rightarrow> do { p \<leftarrow> dc_replaced i p; Some (LRUDCRepl p) }
      | TreeLRURepl p \<Rightarrow> do { p \<leftarrow> tree_replaced i p; Some (TreeLRURepl p) }
      | NRURepl p \<Rightarrow> do { p \<leftarrow> nru_replaced i p; Some (NRURepl p) }
      | RandReplPolicy p \<Rightarrow> Some (RandReplPolicy (rand_replaced p))
      | LFURepl p \<Rightarrow> do { p \<leftarrow> lfu_replaced i p; Some (LFURepl p) }
      | ProfViolRepl p \<Rightarrow> do { p \<leftarrow> pv_replaced i p; Some (ProfViolRepl p) })"

text \<open>
  \<open>rankCands\<close>; the policies of the legacy interface (\<open>LegacyReplPolicy::rank\<close>) record the candidates one by one and then
  name the best.
\<close>

definition rp_rank :: "cc_view \<Rightarrow> nat list \<Rightarrow> bool \<Rightarrow> ReplPolicy \<Rightarrow> (nat \<times> ReplPolicy) option" where
  "rp_rank cc cands dynamic_repl rp =
     (case rp of
        LRURepl p \<Rightarrow> do { c \<leftarrow> lru_rank cc cands p; Some (c, rp) }
      | LRUDCRepl p \<Rightarrow> do { (c, p) \<leftarrow> dc_rank cc cands dynamic_repl p; Some (c, LRUDCRepl p) }
      | TreeLRURepl p \<Rightarrow> do { c \<leftarrow> lru_rank cc cands (tree_lru p); Some (c, rp) }
      | NRURepl p \<Rightarrow> do { p \<leftarrow> foldM nru_record cands p; c \<leftarrow> nru_best p; Some (c, NRURepl p) }
      | RandReplPolicy p \<Rightarrow> do { p \<leftarrow> foldM rand_record cands p; (c, p) \<leftarrow> rand_best p; Some (c, RandReplPolicy p) }
      | LFURepl p \<Rightarrow> do { p \<leftarrow> foldM (lfu_record cc) cands p; c \<leftarrow> bestCandidate p; Some (c, LFURepl p) }
      | ProfViolRepl p \<Rightarrow> do { c \<leftarrow> lru_rank cc cands (pv_lru p); Some (c, rp) })"

section \<open>What the arrays rely on\<close>

lemma elem_at_Some [simp]: "elem_at xs i = Some x \<longleftrightarrow> i < length xs \<and> x = xs ! i"
  by (auto simp: elem_at_def)

lemma elem_at_in [simp]: "i < length xs \<Longrightarrow> elem_at xs i = Some (xs ! i)"
  by (simp add: elem_at_def)

lemma put_in [simp]: "i < length xs \<Longrightarrow> put xs i x = Some (xs[i := x])"
  by (simp add: put_def)

lemma put_Some [simp]: "put xs i x = Some ys \<longleftrightarrow> i < length xs \<and> ys = xs[i := x]"
  by (auto simp: put_def)

text \<open>
  \<open>rp_wf n k rp\<close>: the policy serves an array of \<open>n\<close> lines with at most \<open>k\<close> candidates.  \<open>rp_closed\<close>: no replacement is
  under way, the state of the previous one having been reset by \<open>replaced\<close>.
\<close>

definition lru_wf :: "nat \<Rightarrow> LRU \<Rightarrow> bool" where
  "lru_wf n p \<longleftrightarrow> length (lru_array p) = n"

definition nru_wf :: "nat \<Rightarrow> nat \<Rightarrow> NRU \<Rightarrow> bool" where
  "nru_wf n k p \<longleftrightarrow> length (nru_array p) = n \<and> length (nru_candArray p) = k \<and> (\<forall>v \<in> set (nru_array p). v < 4)"

definition rand_wf :: "nat \<Rightarrow> RandRepl \<Rightarrow> bool" where
  "rand_wf k p \<longleftrightarrow> length (rand_candArray p) = k \<and> mt_ok (rand_rnd p) \<and> (\<exists>j < 32. k = 2 ^ j)"

definition rp_wf :: "nat \<Rightarrow> nat \<Rightarrow> ReplPolicy \<Rightarrow> bool" where
  "rp_wf n k rp =
     (case rp of
        LRURepl p \<Rightarrow> lru_wf n p
      | LRUDCRepl p \<Rightarrow> length (dc_array p) = n \<and> dc_sharersAware p
      | TreeLRURepl p \<Rightarrow> lru_wf n (tree_lru p)
      | NRURepl p \<Rightarrow> nru_wf n k p
      | RandReplPolicy p \<Rightarrow> rand_wf k p
      | LFURepl p \<Rightarrow> length (lfu_array p) = n
      | ProfViolRepl p \<Rightarrow> lru_wf n (pv_lru p) \<and> length (accTimes p) = n)"

definition rp_closed :: "ReplPolicy \<Rightarrow> bool" where
  "rp_closed rp =
     (case rp of
        NRURepl p \<Rightarrow> nru_candIdx p = 0 \<and> nru_candVal p = 2 ^ 20
      | RandReplPolicy p \<Rightarrow> rand_candIdx p = 0
      | LFURepl p \<Rightarrow> bestCandidate p = None
      | _ \<Rightarrow> True)"

text \<open>Random replacement insists on the full number of candidates.\<close>

definition rp_exact :: "ReplPolicy \<Rightarrow> bool" where
  "rp_exact rp = (case rp of RandReplPolicy _ \<Rightarrow> True | _ \<Rightarrow> False)"

subsection \<open>Picking the smallest score\<close>

definition pick_step :: "(nat \<Rightarrow> nat) \<Rightarrow> nat \<Rightarrow> nat \<times> nat \<Rightarrow> nat \<times> nat" where
  "pick_step score = (\<lambda>c (best, bestScore). let s = u32 (score c) in (if s < bestScore then c else best, min s bestScore))"

lemma pick_loop:
  assumes "b \<in> C" "\<forall>c \<in> C. u32 (score b) \<le> u32 (score c)"
  shows "\<exists>b'. fold (pick_step score) cands (b, u32 (score b)) = (b', u32 (score b')) \<and> b' \<in> C \<union> set cands \<and>
    (\<forall>c \<in> C \<union> set cands. u32 (score b') \<le> u32 (score c))"
  using assms
proof (induction cands arbitrary: b C)
  case (Cons c cands)
  define b1 where "b1 = (if u32 (score c) < u32 (score b) then c else b)"
  have b1: "pick_step score c (b, u32 (score b)) = (b1, u32 (score b1))" "b1 \<in> insert c C"
      "\<forall>d \<in> insert c C. u32 (score b1) \<le> u32 (score d)"
    using Cons.prems by (auto simp: pick_step_def b1_def Let_def min_def)
  show ?case using Cons.IH [OF b1(2,3)] b1(1) by (simp add: Un_insert_left)
qed auto

lemma pick_min:
  assumes "cands \<noteq> []"
  shows "fst (pick score cands) \<in> set cands" "\<And>c. c \<in> set cands \<Longrightarrow> u32 (score (fst (pick score cands))) \<le> u32 (score c)"
proof -
  obtain c cs where cs: "cands = c # cs" using assms by (cases cands) auto
  have "u32 (score c) < 2 ^ 32" by (simp add: u32_def)
  then have "u32 (score c) < 2 ^ 64 - 1" by (rule less_trans) simp
  then have "pick score cands = fold (pick_step score) cs (c, u32 (score c))"
    by (simp add: cs pick_def pick_step_def [symmetric]) (simp add: pick_step_def Let_def min_def)
  moreover obtain b' where "fold (pick_step score) cs (c, u32 (score c)) = (b', u32 (score b'))" "b' \<in> {c} \<union> set cs"
      "\<forall>d \<in> {c} \<union> set cs. u32 (score b') \<le> u32 (score d)"
    using pick_loop [of c "{c}" score cs] by auto
  ultimately show "fst (pick score cands) \<in> set cands" "\<And>d. d \<in> set cands \<Longrightarrow> u32 (score (fst (pick score cands))) \<le> u32 (score d)"
    by (auto simp: cs)
qed

lemma lru_rank_ok:
  assumes "lru_wf n p" "cands \<noteq> []" "set cands \<subseteq> {..<n}"
  shows "\<exists>c. lru_rank cc cands p = Some c \<and> c \<in> set cands"
  using assms pick_min(1) by (auto simp: lru_rank_def lru_wf_def)

subsection \<open>The legacy policies\<close>

text \<open>While candidates are recorded, NRU holds those of the recorded ones (\<open>D\<close>) that have the smallest value.\<close>

definition nru_mid :: "nat \<Rightarrow> nat \<Rightarrow> NRU \<Rightarrow> nat list \<Rightarrow> bool" where
  "nru_mid n k p D \<longleftrightarrow>
     nru_wf n k p \<and> nru_candIdx p \<le> length D \<and> (D \<noteq> [] \<longrightarrow> 0 < nru_candIdx p) \<and> (D = [] \<longrightarrow> nru_candVal p = 2 ^ 20) \<and>
     (\<forall>j < nru_candIdx p. nru_candArray p ! j \<in> set D \<and> nru_array p ! (nru_candArray p ! j) = nru_candVal p) \<and>
     (\<forall>d \<in> set D. nru_candVal p \<le> nru_array p ! d)"

lemma nru_record_ok:
  assumes mid: "nru_mid n k p D" and i: "i < n" and room: "length D < k"
  shows "ok (nru_record i p) (\<lambda>p'. nru_mid n k p' (D @ [i]) \<and> nru_array p' = nru_array p \<and> youngLines p' = youngLines p)"
proof -
  note m = mid [unfolded nru_mid_def nru_wf_def]
  have v: "nru_array p ! i < 4" using m i by auto
  consider (less) "nru_array p ! i < nru_candVal p" | (eq) "nru_array p ! i = nru_candVal p" "D \<noteq> []"
    | (more) "nru_candVal p < nru_array p ! i" "D \<noteq> []"
    using m v by fastforce
  then show ?thesis
  proof cases
    case less
    then show ?thesis using m i room by (auto simp: nru_record_def nru_mid_def nru_wf_def)
  next
    case eq
    have "nru_candIdx p < k" using m room by simp
    then show ?thesis using m i room eq
      by (auto simp: nru_record_def nru_mid_def nru_wf_def less_Suc_eq nth_list_update_if)
  next
    case more
    then show ?thesis using m i room by (auto simp: nru_record_def nru_mid_def nru_wf_def)
  qed
qed

lemma nru_records_ok:
  assumes "nru_mid n k p D" "set cands \<subseteq> {..<n}" "length D + length cands \<le> k"
  shows "ok (foldM nru_record cands p)
    (\<lambda>p'. nru_mid n k p' (D @ cands) \<and> nru_array p' = nru_array p \<and> youngLines p' = youngLines p)"
  using assms
proof (induction cands arbitrary: p D)
  case (Cons c cands)
  have "ok (nru_record c p) (\<lambda>p'. nru_mid n k p' (D @ [c]) \<and> nru_array p' = nru_array p \<and> youngLines p' = youngLines p)"
    using Cons.prems by (intro nru_record_ok) auto
  then show ?case unfolding foldM.simps
  proof (rule ok_bind)
    fix p' assume p': "nru_mid n k p' (D @ [c]) \<and> nru_array p' = nru_array p \<and> youngLines p' = youngLines p"
    show "ok (foldM nru_record cands p')
      (\<lambda>q. nru_mid n k q (D @ c # cands) \<and> nru_array q = nru_array p \<and> youngLines q = youngLines p)"
      using Cons.IH [of p' "D @ [c]"] Cons.prems p' by simp
  qed
qed simp

lemma nru_rank_min:
  assumes wf: "nru_wf n k p" "nru_candIdx p = 0" "nru_candVal p = 2 ^ 20" and c: "cands \<noteq> []" "set cands \<subseteq> {..<n}" "length cands \<le> k"
  shows "ok (foldM nru_record cands p \<bind> (\<lambda>p. nru_best p \<bind> (\<lambda>c. Some (c, p))))
    (\<lambda>(c, p'). c \<in> set cands \<and> nru_wf n k p' \<and> (\<forall>d \<in> set cands. nru_array p ! c \<le> nru_array p ! d))"
proof (rule ok_bind [OF nru_records_ok])
  show "nru_mid n k p []" using wf by (simp add: nru_mid_def)
  show "set cands \<subseteq> {..<n}" "length [] + length cands \<le> k" using c by simp_all
  fix p' assume p': "nru_mid n k p' ([] @ cands) \<and> nru_array p' = nru_array p \<and> youngLines p' = youngLines p"
  have "youngLines p' mod nru_candIdx p' < nru_candIdx p'" using p' c by (auto simp: nru_mid_def)
  then show "ok (nru_best p' \<bind> (\<lambda>c. Some (c, p')))
      (\<lambda>(c, p'). c \<in> set cands \<and> nru_wf n k p' \<and> (\<forall>d \<in> set cands. nru_array p ! c \<le> nru_array p ! d))"
    using p' c by (auto simp: nru_mid_def nru_best_def nru_wf_def)
qed

lemma rand_records:
  assumes "length (rand_candArray p) = rand_candIdx p + length cands"
  shows "foldM rand_record cands p =
    Some (p\<lparr>rand_candArray := take (rand_candIdx p) (rand_candArray p) @ cands, rand_candIdx := rand_candIdx p + length cands\<rparr>)"
  using assms
proof (induction cands arbitrary: p)
  case (Cons c cands)
  then have i: "rand_candIdx p < length (rand_candArray p)" by simp
  define p1 where "p1 = p\<lparr>rand_candArray := (rand_candArray p)[rand_candIdx p := c], rand_candIdx := rand_candIdx p + 1\<rparr>"
  have 1: "rand_record c p = Some p1" using i by (simp add: rand_record_def p1_def)
  have "foldM rand_record cands p1 =
      Some (p1\<lparr>rand_candArray := take (rand_candIdx p1) (rand_candArray p1) @ cands, rand_candIdx := rand_candIdx p1 + length cands\<rparr>)"
    by (rule Cons.IH) (use Cons.prems in \<open>simp add: p1_def\<close>)
  moreover have "take (rand_candIdx p1) (rand_candArray p1) = take (rand_candIdx p) (rand_candArray p) @ [c]"
    using i by (simp add: p1_def take_Suc_conv_app_nth)
  ultimately show ?case by (simp add: 1) (simp add: p1_def)
qed simp

lemma rand_rank_ok:
  assumes wf: "rand_wf k p" "rand_candIdx p = 0" and c: "length cands = k"
  shows "ok (foldM rand_record cands p \<bind> (\<lambda>p. rand_best p)) (\<lambda>(c, p'). c \<in> set cands \<and> rand_wf k p')"
proof -
  define p1 where "p1 = p\<lparr>rand_candArray := cands, rand_candIdx := k\<rparr>"
  have 1: "foldM rand_record cands p = Some p1"
    using rand_records [of p cands] wf c by (simp add: p1_def rand_wf_def)
  obtain j where j: "j < 32" "k = 2 ^ j" using wf(1) by (auto simp: rand_wf_def)
  have k: "0 < k" "k \<le> 2 ^ 31" using j power_increasing [of j 31 "2 :: nat"] by auto
  have "nat ((int k - 1) mod 2 ^ 32) = k - 1" using k by (simp add: nat_diff_distrib)
  moreover have msk: "(of_nat (k - 1) :: 64 word) = mask j" using j by (simp add: mask_eq_exp_minus_1 of_nat_diff)
  ultimately have top: "(of_nat (nat ((int k - 1) mod 2 ^ 32)) :: 64 word) = mask j" by simp
  have g: "mt_ok (rand_rnd p)" using wf(1) by (simp add: rand_wf_def)
  obtain i g where ig: "randInt_upto (mask j) (rand_rnd p) = Some (i, g)" "i \<le> mask j" "mt_ok g"
    using mtrand_mask [OF g] by blast
  have "unat i \<le> unat (of_nat (k - 1) :: 64 word)" using ig(2) msk by (simp add: word_le_nat_alt)
  also have "\<dots> \<le> k - 1" by (simp add: unat_of_nat)
  finally have "unat i < k" using k by simp
  then have "rand_best p1 = Some (cands ! unat i, p1\<lparr>rand_rnd := g\<rparr>)" "cands ! unat i \<in> set cands"
    using c ig(1) top by (simp_all add: rand_best_def p1_def)
  then show ?thesis using c ig(3) j by (auto simp: 1 rand_wf_def p1_def)
qed

lemma lessThan_valid:
  "lessThan t r other \<Longrightarrow> rk_valid r \<Longrightarrow> rk_valid other"
  "\<not> lessThan t r other \<Longrightarrow> rk_valid other \<Longrightarrow> rk_valid r"
  by (auto simp: lessThan_def split: if_splits)

lemma lfu_record_ok:
  assumes "c < length (lfu_array p)"
    "\<And>b. bestCandidate p = Some b \<Longrightarrow> b \<in> C \<and> rk_valid (bestRank p) = cv_valid cc b \<and> (cv_valid cc b \<longrightarrow> (\<forall>d \<in> C. cv_valid cc d))"
    "bestCandidate p = None \<longrightarrow> C = {}"
  shows "ok (lfu_record cc c (p :: LFU)) (\<lambda>p'. length (lfu_array p') = length (lfu_array p) \<and> bestCandidate p' \<noteq> None \<and>
    (\<forall>b. bestCandidate p' = Some b \<longrightarrow> b \<in> insert c C \<and> rk_valid (bestRank p') = cv_valid cc b \<and>
      (cv_valid cc b \<longrightarrow> (\<forall>d \<in> insert c C. cv_valid cc d))))"
proof -
  define r where "r = \<lparr>rk_info = lfu_array p ! c, rk_sharers = cv_sharers cc c, rk_valid = cv_valid cc c\<rparr>"
  have rec: "lfu_record cc c p = Some (if bestCandidate p = None \<or> lessThan (lfu_timestamp p) r (bestRank p)
       then p\<lparr>bestRank := r, bestCandidate := Some c\<rparr> else p)"
    using assms(1) by (simp add: lfu_record_def r_def Let_def)
  have v: "rk_valid r = cv_valid cc c" by (simp add: r_def)
  show ?thesis
  proof (cases "bestCandidate p")
    case None
    then show ?thesis using assms(3) by (simp add: rec v)
  next
    case (Some b)
    note b = assms(2) [OF Some]
    show ?thesis
    proof (cases "lessThan (lfu_timestamp p) r (bestRank p)")
      case True
      have le: "cv_valid cc c \<longrightarrow> cv_valid cc b" using lessThan_valid(1) [OF True] b unfolding v by blast
      have "lfu_record cc c p = Some (p\<lparr>bestRank := r, bestCandidate := Some c\<rparr>)" unfolding rec using True by simp
      then show ?thesis by (rule ok_exI) (simp add: v, use le b in blast)
    next
      case False
      have le: "cv_valid cc b \<longrightarrow> cv_valid cc c" using lessThan_valid(2) [OF False] b unfolding v by blast
      have "lfu_record cc c p = Some p" unfolding rec using False Some by simp
      then show ?thesis by (rule ok_exI) (simp add: Some, use le b in blast)
    qed
  qed
qed

lemma lfu_records_ok:
  assumes "length (lfu_array (p :: LFU)) = n" "set cands \<subseteq> {..<n}"
    "\<And>c. bestCandidate p = Some c \<Longrightarrow> c \<in> C \<and> rk_valid (bestRank p) = cv_valid cc c \<and> (cv_valid cc c \<longrightarrow> (\<forall>d \<in> C. cv_valid cc d))"
    "bestCandidate p = None \<longrightarrow> C = {}"
  shows "ok (foldM (lfu_record cc) cands p) (\<lambda>p'. length (lfu_array p') = n \<and> (bestCandidate p' = None \<longrightarrow> C \<union> set cands = {}) \<and>
    (\<forall>c. bestCandidate p' = Some c \<longrightarrow> c \<in> C \<union> set cands \<and> (cv_valid cc c \<longrightarrow> (\<forall>d \<in> C \<union> set cands. cv_valid cc d))))"
  using assms
proof (induction cands arbitrary: p C)
  case (Cons c cands)
  have "ok (lfu_record cc c p) (\<lambda>p'. length (lfu_array p') = n \<and> bestCandidate p' \<noteq> None \<and>
    (\<forall>b. bestCandidate p' = Some b \<longrightarrow> b \<in> insert c C \<and> rk_valid (bestRank p') = cv_valid cc b \<and>
      (cv_valid cc b \<longrightarrow> (\<forall>d \<in> insert c C. cv_valid cc d))))"
    using lfu_record_ok [of c p C cc] Cons.prems by simp
  then show ?case unfolding foldM.simps
  proof (rule ok_bind)
    fix p' :: LFU assume p': "length (lfu_array p') = n \<and> bestCandidate p' \<noteq> None \<and>
      (\<forall>b. bestCandidate p' = Some b \<longrightarrow> b \<in> insert c C \<and> rk_valid (bestRank p') = cv_valid cc b \<and>
        (cv_valid cc b \<longrightarrow> (\<forall>d \<in> insert c C. cv_valid cc d)))"
    then show "ok (foldM (lfu_record cc) cands p') (\<lambda>q. length (lfu_array q) = n \<and> (bestCandidate q = None \<longrightarrow> C \<union> set (c # cands) = {}) \<and>
      (\<forall>b. bestCandidate q = Some b \<longrightarrow> b \<in> C \<union> set (c # cands) \<and> (cv_valid cc b \<longrightarrow> (\<forall>d \<in> C \<union> set (c # cands). cv_valid cc d))))"
      using Cons.IH [of p' "insert c C"] Cons.prems(2) by (auto simp: ok_def)
  qed
qed auto

lemma lfu_rank_ok:
  assumes "length (lfu_array p) = n" "bestCandidate p = None" "cands \<noteq> []" "set cands \<subseteq> {..<n}"
  shows "ok (foldM (lfu_record cc) cands p \<bind> (\<lambda>p. bestCandidate p \<bind> (\<lambda>c. Some (c, p))))
    (\<lambda>(c, p'). c \<in> set cands \<and> length (lfu_array p') = n \<and> (cv_valid cc c \<longrightarrow> (\<forall>d \<in> set cands. cv_valid cc d)))"
  by (rule ok_bind [OF lfu_records_ok [where C = "{}"]]) (use assms in auto)

subsection \<open>The laws\<close>

lemma rp_update_ok:
  assumes "rp_wf n k rp" "i < n" "IsGet (req_type req)"
  shows "\<exists>rp'. rp_update i req dc rp = Some rp' \<and> rp_wf n k rp' \<and> rp_closed rp' = rp_closed rp \<and> rp_exact rp' = rp_exact rp"
proof (cases rp)
  case (NRURepl p)
  have "v OR 2 < 4" if "v < 4" for v :: nat
  proof -
    have "v = 0 \<or> v = 1 \<or> v = 2 \<or> v = 3" using that by arith
    then show ?thesis by (elim disjE) (simp_all del: One_nat_def)
  qed
  then have "\<forall>v \<in> set ((nru_array p)[i := nru_array p ! i OR 2]). v < 4"
    using assms(1,2) NRURepl set_update_subset_insert [of "nru_array p" i "nru_array p ! i OR 2"]
    by (auto simp: rp_wf_def nru_wf_def)
  then show ?thesis using assms(1,2) NRURepl
    by (auto simp: rp_wf_def nru_wf_def rp_update_def nru_update_def rp_closed_def rp_exact_def Let_def
        intro: le_less_trans [OF div_le_dividend])
next
  case (ProfViolRepl p)
  have r: "\<exists>v. (if c < max (acc_read t) (acc_write t) then do { v \<leftarrow> readViol c t; Some (count_viol rd v p) }
      else Some (p\<lparr>profNoViolAcc := profNoViolAcc p + 1\<rparr>)) = Some v \<and> accTimes v = accTimes p \<and> pv_lru v = pv_lru p" for c t rd
    by (auto simp: readViol_def count_viol_def)
  obtain v where v: "(if cycle req < max (acc_read (accTimes p ! i)) (acc_write (accTimes p ! i))
      then do { v \<leftarrow> readViol (cycle req) (accTimes p ! i); Some (count_viol (req_type req = GETS) v p) }
      else Some (p\<lparr>profNoViolAcc := profNoViolAcc p + 1\<rparr>)) = Some v" "accTimes v = accTimes p" "pv_lru v = pv_lru p"
    using r [of "cycle req" "accTimes p ! i" "req_type req = GETS"] by blast
  have wf: "lru_wf n (pv_lru p)" "length (accTimes p) = n" using assms(1) ProfViolRepl by (simp_all add: rp_wf_def)
  then obtain l l' where l: "lru_update i (pv_lru p) = Some l" "lru_update i l = Some l'" "lru_wf n l'"
    using assms(2) by (auto simp: lru_update_def lru_wf_def)
  have "\<exists>p'. pv_update i req p = Some p' \<and> lru_wf n (pv_lru p') \<and> length (accTimes p') = n"
    using assms(2,3) wf l v by (simp add: pv_update_def Let_def IsGet_def)
  then show ?thesis using ProfViolRepl by (auto simp: rp_wf_def rp_update_def rp_closed_def rp_exact_def)
qed (use assms in \<open>auto simp: rp_wf_def rp_update_def lru_update_def dc_update_def lfu_update_def lru_wf_def rp_closed_def rp_exact_def Let_def\<close>)

lemma rand_wf_candIdx: "rand_wf k (p\<lparr>rand_candIdx := x\<rparr>) = rand_wf k p"
  by (simp add: rand_wf_def)

lemma rp_replaced_ok:
  assumes "rp_wf n k rp" "i < n"
  shows "\<exists>rp'. rp_replaced i rp = Some rp' \<and> rp_wf n k rp' \<and> rp_closed rp' \<and> rp_exact rp' = rp_exact rp"
proof (cases rp)
  case (NRURepl p)
  then show ?thesis using assms set_update_subset_insert [of "nru_array p" i 0]
    by (auto simp: rp_wf_def nru_wf_def rp_replaced_def nru_replaced_def rp_closed_def rp_exact_def)
qed (use assms in \<open>simp_all add: rp_wf_def rp_replaced_def lru_replaced_def dc_replaced_def tree_replaced_def rand_replaced_def
    lfu_replaced_def pv_replaced_def lru_wf_def rp_closed_def rp_exact_def Let_def rand_wf_candIdx\<close>)

lemma dc_rank_total:
  assumes "cands \<noteq> []" "\<forall>c \<in> set cands. c < length (dc_array p)"
  shows "\<exists>c p'. dc_rank cc cands dyn p = Some (c, p') \<and> c \<in> set cands \<and> dc_array p' = dc_array p \<and> dc_sharersAware p' = dc_sharersAware p"
proof -
  have "fst (pick f (filter P cands)) \<in> set cands" if "filter P cands \<noteq> []" for f P
    using pick_min(1) [OF that] by simp
  moreover have "fst (pick f cands) \<in> set cands" for f using pick_min(1) [OF assms(1)] .
  ultimately show ?thesis using assms(2) by (simp add: dc_rank_def Let_def)
qed

lemma rp_rank_ok:
  assumes "rp_wf n k rp" "rp_closed rp" "cands \<noteq> []" "set cands \<subseteq> {..<n}" "length cands \<le> k" "rp_exact rp \<longrightarrow> length cands = k"
  shows "\<exists>c rp'. rp_rank cc cands dyn rp = Some (c, rp') \<and> c \<in> set cands \<and> rp_wf n k rp' \<and> rp_exact rp' = rp_exact rp"
proof (cases rp)
  case (LRUDCRepl p)
  have "\<forall>c \<in> set cands. c < length (dc_array p)" using assms(1,4) LRUDCRepl by (auto simp: rp_wf_def)
  from dc_rank_total [OF assms(3) this, of cc dyn] obtain c p' where "dc_rank cc cands dyn p = Some (c, p')" "c \<in> set cands"
    "dc_array p' = dc_array p" "dc_sharersAware p' = dc_sharersAware p" by blast
  then show ?thesis using LRUDCRepl assms(1) by (simp add: rp_wf_def rp_rank_def rp_exact_def)
next
  case (NRURepl p)
  have "nru_wf n k p" "nru_candIdx p = 0" "nru_candVal p = 2 ^ 20" using assms(1,2) NRURepl by (simp_all add: rp_wf_def rp_closed_def)
  from nru_rank_min [OF this assms(3-5)] show ?thesis
    using NRURepl by (auto simp: rp_wf_def rp_rank_def rp_exact_def ok_def bind_eq_Some_conv)
next
  case (RandReplPolicy p)
  have "rand_wf k p" "rand_candIdx p = 0" "length cands = k" using assms(1,2,6) RandReplPolicy by (simp_all add: rp_wf_def rp_closed_def rp_exact_def)
  from rand_rank_ok [OF this] show ?thesis
    using RandReplPolicy by (auto simp: rp_wf_def rp_rank_def rp_exact_def ok_def bind_eq_Some_conv)
next
  case (LFURepl p)
  have "length (lfu_array p) = n" "bestCandidate p = None" using assms(1,2) LFURepl by (simp_all add: rp_wf_def rp_closed_def)
  from lfu_rank_ok [OF this assms(3,4)] show ?thesis
    using LFURepl by (fastforce simp: rp_wf_def rp_rank_def rp_exact_def ok_def bind_eq_Some_conv)
next
  case (LRURepl p)
  then show ?thesis using lru_rank_ok [of n p cands cc, OF _ assms(3,4)] assms(1) by (auto simp: rp_wf_def rp_rank_def rp_exact_def)
next
  case (TreeLRURepl p)
  then show ?thesis using lru_rank_ok [of n "tree_lru p" cands cc, OF _ assms(3,4)] assms(1) by (auto simp: rp_wf_def rp_rank_def rp_exact_def)
next
  case (ProfViolRepl p)
  then show ?thesis using lru_rank_ok [of n "pv_lru p" cands cc, OF _ assms(3,4)] assms(1) by (auto simp: rp_wf_def rp_rank_def rp_exact_def)
qed

section \<open>Properties\<close>

text \<open>
  LRU orders candidates by sharers first and by the time of the last access second; an invalid line without
  sharers comes before all others.
\<close>

definition lru_age :: "cc_view \<Rightarrow> LRU \<Rightarrow> nat \<Rightarrow> nat" where
  "lru_age cc p i = (if cv_valid cc i then lru_array p ! i else 0)"

definition lru_sharers :: "cc_view \<Rightarrow> LRU \<Rightarrow> nat \<Rightarrow> nat" where
  "lru_sharers cc p i = (if sharersAware p then cv_sharers cc i else 0)"

lemma lex_le:
  fixes a b t :: nat
  assumes "x < t" "y < t" "a * t + x \<le> b * t + y"
  shows "a < b \<or> a = b \<and> x \<le> y"
proof (rule ccontr)
  assume *: "\<not> (a < b \<or> a = b \<and> x \<le> y)"
  then consider "a = b" "y < x" | "b < a" by fastforce
  then show False
  proof cases
    case 2
    then have "Suc b * t \<le> a * t" by (intro mult_le_mono1) simp
    then show False using assms by simp
  qed (use assms in simp)
qed

lemma u32_u64: "x < 2 ^ 32 \<Longrightarrow> u32 (u64 x) = x"
  by (simp add: u32_def u64_def)

text \<open>
  C23. As long as the scores fit into the 32-bit variable that holds them, LRU evicts a candidate with the fewest sharers
  and, among those, the least recently used; so an invalid candidate without sharers goes first.
\<close>

theorem lru_rank_least:
  assumes "length (lru_array p) = n" "cands \<noteq> []" "set cands \<subseteq> {..<n}"
    and old: "\<And>i. i \<in> set cands \<Longrightarrow> lru_array p ! i < timestamp p"
    and fits: "\<And>i. i \<in> set cands \<Longrightarrow> (lru_sharers cc p i + 1) * timestamp p \<le> 2 ^ 32"
  shows "\<exists>v. lru_rank cc cands p = Some v \<and> v \<in> set cands \<and>
    (\<forall>c \<in> set cands. lru_sharers cc p v < lru_sharers cc p c \<or>
       lru_sharers cc p v = lru_sharers cc p c \<and> lru_age cc p v \<le> lru_age cc p c)"
proof -
  define score where "score = lru_score (sharersAware p) cc (timestamp p) (\<lambda>i. lru_array p ! i)"
  have age: "lru_age cc p i < timestamp p" if "i \<in> set cands" for i
    using old [OF that] by (auto simp: lru_age_def)
  have score: "u32 (score i) = lru_sharers cc p i * timestamp p + lru_age cc p i" if "i \<in> set cands" for i
  proof -
    have "lru_sharers cc p i * timestamp p + lru_age cc p i < 2 ^ 32"
      using age [OF that] fits [OF that] by simp
    moreover have "score i = u64 (lru_sharers cc p i * timestamp p + lru_age cc p i)"
      by (simp add: score_def lru_score_def lru_sharers_def lru_age_def)
    ultimately show ?thesis by (simp add: u32_u64)
  qed
  define v where "v = fst (pick score cands)"
  have v: "lru_rank cc cands p = Some v" "v \<in> set cands"
    using assms(1-3) pick_min(1) by (auto simp: lru_rank_def v_def score_def)
  have "u32 (score v) \<le> u32 (score c)" if "c \<in> set cands" for c
    using pick_min(2) [OF assms(2) that] by (simp add: v_def)
  then show ?thesis using v lex_le [OF age age] score by auto
qed

theorem lru_rank_least_witness:
  "lru_rank \<lparr>cv_sharers = (\<lambda>i. if i = 0 then 2 else 0), cv_valid = (\<lambda>i. i \<noteq> 3)\<rparr> [0, 1, 2]
      \<lparr>sharersAware = True, timestamp = 10, lru_array = [1, 7, 4, 0]\<rparr> = Some 2"
proof -
  define cc where "cc = \<lparr>cv_sharers = (\<lambda>i. if i = 0 then 2 else 0 :: nat), cv_valid = (\<lambda>i. i \<noteq> (3 :: nat))\<rparr>"
  define p where "p = \<lparr>sharersAware = True, timestamp = 10, lru_array = [1, 7, 4, 0]\<rparr>"
  have "\<exists>v. lru_rank cc [0, 1, 2] p = Some v \<and> v \<in> set [0, 1, 2] \<and>
    (\<forall>c \<in> set [0, 1, 2]. lru_sharers cc p v < lru_sharers cc p c \<or>
       lru_sharers cc p v = lru_sharers cc p c \<and> lru_age cc p v \<le> lru_age cc p c)"
    by (rule lru_rank_least [of p 4]) (auto simp: p_def cc_def lru_sharers_def)
  then show ?thesis unfolding cc_def [symmetric] p_def [symmetric] by (auto simp: cc_def p_def lru_sharers_def lru_age_def)
qed

text \<open>The score of a line last used at time \<open>2 ^ 32\<close> is truncated to zero: the most recently used line is evicted.\<close>

lemma lru_rank_wraps:
  "lru_rank \<lparr>cv_sharers = (\<lambda>i. 0), cv_valid = (\<lambda>i. True)\<rparr> [0, 1]
     \<lparr>sharersAware = False, timestamp = 2 ^ 32 + 1, lru_array = [5, 2 ^ 32]\<rparr> = Some 1"
  by (simp add: lru_rank_def pick_def lru_score_def u32_def u64_def)

end
