(* ===== verification/Hash.thy ===== *)
theory Hash
  imports Mtrand
begin

text \<open>
  The hash families of the cache arrays (\<open>src/src/hash.h\<close>, \<open>src/src/hash.cpp\<close>): H3 hashing with a random bit
  matrix, and the identity.  The program is built without PolarSSL, so SHA1 hashing panics.

  An access of the matrix out of its bounds is the value \<open>None\<close>, as is a failed assertion.  Indices into the matrix are natural
  numbers; the source computes them in 32 bits, which is the same for families of fewer than \<open>2 ^ 26\<close> functions.
\<close>

record H3HashFamily =
  numFuncs :: nat
  resShift :: nat
  hMatrix :: "64 word list"

section \<open>Construction\<close>

definition h3_resShift :: "nat \<Rightarrow> nat option" where
  "h3_resShift outputBits =
     (if outputBits \<le> 8 then Some 3
      else if outputBits \<le> 16 then Some 2
      else if outputBits \<le> 32 then Some 1
      else if outputBits \<le> 64 then Some 0
      else None)"

text \<open>One word of the matrix takes 64 draws: a bit is set when the draw is even.\<close>

definition h3_word :: "64 word \<times> MTRand \<Rightarrow> 64 word \<times> MTRand" where
  "h3_word = ((\<lambda>(val, g). let (r, g) = randInt g in (push_bit 1 val + (if r mod 2 = 0 then 1 else 0), g)) ^^ 64)"

primrec h3_matrix :: "nat \<Rightarrow> MTRand \<Rightarrow> 64 word list" where
  "h3_matrix 0 g = []"
| "h3_matrix (Suc n) g = (let (val, g) = h3_word (0, g) in val # h3_matrix n g)"

definition H3HashFamily_new :: "nat \<Rightarrow> nat \<Rightarrow> 64 word \<Rightarrow> MTRand \<Rightarrow> H3HashFamily option" where
  "H3HashFamily_new numFunctions outputBits randSeed raw = do {
     s \<leftarrow> h3_resShift outputBits;
     Some \<lparr>numFuncs = numFunctions, resShift = s, hMatrix = h3_matrix (64 div 2 ^ s * numFunctions) (mt_seed randSeed raw)\<rparr> }"

section \<open>Hashing\<close>

definition rot :: "nat \<Rightarrow> 64 word \<Rightarrow> 64 word" where
  "rot k r = push_bit k r OR drop_bit (64 - k) r"

text \<open>One round of the unrolled loop reads eight words of the matrix.\<close>

definition h3_round :: "64 word list \<Rightarrow> nat \<Rightarrow> 64 word \<Rightarrow> 64 word \<Rightarrow> 64 word option" where
  "h3_round h base val res = do {
     assert_that (base + 7 < length h);
     let r = (\<lambda>i. val AND h ! (base + i));
     let res = res XOR (r 0 XOR rot 1 (r 1) XOR rot 2 (r 2) XOR rot 3 (r 3));
     let res = res XOR (rot 4 (r 4) XOR rot 5 (r 5) XOR rot 6 (r 6) XOR rot 7 (r 7));
     Some (rot 8 res) }"

definition h3_fold :: "nat \<Rightarrow> 64 word \<Rightarrow> 64 word" where
  "h3_fold s res =
     (let res = (if 1 \<le> s then drop_bit 32 res XOR res else res);
          res = (if 2 \<le> s then drop_bit 16 res XOR res else res)
      in if 3 \<le> s then drop_bit 8 res XOR res else res)"

definition h3_hash :: "H3HashFamily \<Rightarrow> nat \<Rightarrow> 64 word \<Rightarrow> 64 word option" where
  "h3_hash f i val = do {
     assert_that (i < numFuncs f);
     res \<leftarrow> foldM (\<lambda>x. h3_round (hMatrix f) (i * 2 ^ (6 - resShift f) + 8 * x) val)
       [0..<64 div 2 ^ resShift f div 8] 0;
     Some (h3_fold (resShift f) res) }"

text \<open>What the comment above the function gives as the original code of the 64-bit hash.\<close>

definition h3_reference :: "64 word list \<Rightarrow> nat \<Rightarrow> 64 word \<Rightarrow> 64 word" where
  "h3_reference h i val = fold (\<lambda>x res. rot 1 (res XOR (val AND h ! (i * 64 + x)))) [0..<64] 0"

datatype HashFamily = H3 H3HashFamily | SHA1 | IdHash

definition hash :: "HashFamily \<Rightarrow> nat \<Rightarrow> 64 word \<Rightarrow> 64 word option" where
  "hash hf i val = (case hf of H3 f \<Rightarrow> h3_hash f i val | SHA1 \<Rightarrow> None | IdHash \<Rightarrow> Some val)"

section \<open>The matrix is large enough\<close>

definition h3_ok :: "H3HashFamily \<Rightarrow> bool" where
  "h3_ok f \<longleftrightarrow> resShift f \<le> 3 \<and> length (hMatrix f) = 64 div 2 ^ resShift f * numFuncs f"

lemma h3_matrix_length [simp]: "length (h3_matrix n g) = n"
  by (induction n arbitrary: g) (simp_all add: split_beta Let_def)

lemma H3HashFamily_new_ok: "H3HashFamily_new n bits seed raw = Some f \<Longrightarrow> h3_ok f \<and> numFuncs f = n"
  by (auto simp: H3HashFamily_new_def h3_ok_def h3_resShift_def bind_eq_Some_conv split: if_splits)

lemma h3_rows:
  assumes "h3_ok f" "i < numFuncs f" "x < 64 div 2 ^ resShift f div 8"
  shows "i * 2 ^ (6 - resShift f) + 8 * x + 7 < length (hMatrix f)"
proof -
  have s: "resShift f = 0 \<or> resShift f = 1 \<or> resShift f = 2 \<or> resShift f = 3"
    using assms(1) by (auto simp: h3_ok_def)
  have "Suc i * 2 ^ (6 - resShift f) \<le> numFuncs f * 2 ^ (6 - resShift f)"
    using assms(2) by (intro mult_le_mono1) simp
  then show ?thesis using s assms(1,3) by (auto simp: h3_ok_def)
qed

section \<open>Linearity\<close>

lemma rot_xor: "rot k (a XOR b) = rot k a XOR rot k b"
  if "k < 64"
proof (rule bit_word_eqI)
  fix n assume "n < LENGTH(64)"
  then show "bit (rot k (a XOR b)) n = bit (rot k a XOR rot k b) n"
    using that bit_imp_le_length [of a "64 - k + n"] bit_imp_le_length [of b "64 - k + n"]
    by (auto simp: rot_def bit_simps)
qed

lemma and_xor: "(a XOR b) AND c = (a AND c) XOR (b AND (c :: 64 word))"
  by (rule bit_word_eqI) (auto simp: bit_simps)

lemma drop_xor: "drop_bit n (a XOR b) = drop_bit n a XOR drop_bit n (b :: 64 word)"
  by (rule bit_word_eqI) (auto simp: bit_simps)

lemma h3_round_linear:
  assumes "h3_round h base a r = Some u" "h3_round h base b s = Some v"
  shows "h3_round h base (a XOR b) (r XOR s) = Some (u XOR v)"
  using assms by (auto simp: h3_round_def Let_def rot_xor and_xor ac_simps)

lemma h3_rounds_linear:
  assumes "foldM (\<lambda>x. h3_round h (g x) a) xs r = Some u" "foldM (\<lambda>x. h3_round h (g x) b) xs s = Some v"
  shows "foldM (\<lambda>x. h3_round h (g x) (a XOR b)) xs (r XOR s) = Some (u XOR v)"
  using assms
proof (induction xs arbitrary: r s)
  case (Cons x xs)
  then show ?case by (auto simp: bind_eq_Some_conv h3_round_linear)
qed simp

lemma h3_fold_linear: "h3_fold s (a XOR b) = h3_fold s a XOR h3_fold s b"
  by (simp add: h3_fold_def Let_def drop_xor ac_simps)

lemma h3_hash_total:
  assumes "h3_ok f" "i < numFuncs f"
  shows "\<exists>r. h3_hash f i val = Some r"
proof -
  have "ok (foldM (\<lambda>x. h3_round (hMatrix f) (i * 2 ^ (6 - resShift f) + 8 * x) val)
      [0..<64 div 2 ^ resShift f div 8] 0) (\<lambda>_. True)"
    by (rule ok_foldM) (use h3_rows [OF assms] in \<open>simp_all add: h3_round_def\<close>)
  then show ?thesis using assms(2) by (auto simp: h3_hash_def ok_def)
qed

section \<open>Properties\<close>

text \<open>
  C22. A constructed H3 family hashes every value with each of its functions without reading outside its matrix,
  and hashing is linear: the hash of an exclusive or is the exclusive or of the hashes, which is what makes the
  family H3.  The folding of the result to fewer bits keeps this.
\<close>

theorem h3_hash_linear:
  assumes "H3HashFamily_new n bits seed raw = Some f" "i < n"
  shows "\<exists>u v. h3_hash f i a = Some u \<and> h3_hash f i b = Some v \<and> h3_hash f i (a XOR b) = Some (u XOR v)"
proof -
  have f: "h3_ok f" "i < numFuncs f" using H3HashFamily_new_ok [OF assms(1)] assms(2) by auto
  obtain u v where "h3_hash f i a = Some u" "h3_hash f i b = Some v" using h3_hash_total [OF f] by meson
  then show ?thesis using f(2) h3_rounds_linear
    by (fastforce simp: h3_hash_def bind_eq_Some_conv h3_fold_linear)
qed

theorem h3_hash_linear_witness:
  "\<exists>f u v. H3HashFamily_new 4 10 99 \<lparr>mt_state = replicate mt_N 0, mt_next = 0, mt_left = 0\<rparr> = Some f \<and>
    h3_hash f 3 0xABCD = Some u \<and> h3_hash f 3 0xFF = Some v \<and> h3_hash f 3 (0xABCD XOR 0xFF) = Some (u XOR v)"
proof -
  obtain f where f: "H3HashFamily_new 4 10 99 \<lparr>mt_state = replicate mt_N 0, mt_next = 0, mt_left = 0\<rparr> = Some f"
    by (simp add: H3HashFamily_new_def h3_resShift_def)
  then show ?thesis using h3_hash_linear [OF f, of 3 "0xABCD" "0xFF"] by auto
qed

lemma h3_reference_differs:
  "h3_hash \<lparr>numFuncs = 1, resShift = 0, hMatrix = (replicate 64 0)[1 := 1]\<rparr> 0 1 = Some 2"
  "h3_reference ((replicate 64 0)[1 := 1]) 0 1 = 2 ^ 63"
  by code_simp+

end
