(* ===== verification/Cache_Array.thy ===== *)
theory Cache_Array
  imports Repl Hash
begin

text \<open>
  The cache arrays (\<open>src/src/cache_arrays.h\<close>, \<open>src/src/cache_arrays.cpp\<close>): the set-associative array and the zcache.
  An array maps line addresses to line numbers; a replacement runs in two halves, \<open>preinsert\<close>, which chooses the line to
  evict, and \<open>postinsert\<close>, which installs the new address, with the eviction in between.

  The interface \<open>cache_array\<close> states what a cache relies on; this theory interprets it on the set-associative array.
\<close>

unbundle bit_operations_syntax

section \<open>The set-associative array\<close>

record SetAssocArray =
  sa_array :: "address list"
  sa_rp :: ReplPolicy
  sa_hf :: HashFamily
  sa_numSets :: nat
  sa_assoc :: nat
  sa_setMask :: nat
  RepLines4DC :: nat

definition SetAssocArray_new :: "nat \<Rightarrow> nat \<Rightarrow> ReplPolicy \<Rightarrow> HashFamily \<Rightarrow> SetAssocArray option" where
  "SetAssocArray_new numLines assoc rp hf = do {
     assert_that (assoc \<noteq> 0);
     let numSets = numLines div assoc;
     assert_that (isPow2 numSets);
     Some \<lparr>sa_array = replicate numLines 0, sa_rp = rp, sa_hf = hf, sa_numSets = numSets, sa_assoc = assoc,
       sa_setMask = numSets - 1, RepLines4DC = 0\<rparr> }"

definition sa_first :: "address \<Rightarrow> SetAssocArray \<Rightarrow> nat option" where
  "sa_first addr a = do {
     h \<leftarrow> hash (sa_hf a) 0 (of_nat addr);
     Some ((unat h AND sa_setMask a) * sa_assoc a) }"

text \<open>The counter of DRAM-cache aware replacements is read through a cast to the sharers-aware policy.\<close>

definition sa_count_dc :: "SetAssocArray \<Rightarrow> SetAssocArray option" where
  "sa_count_dc a =
     (case sa_rp a of
        LRUDCRepl p \<Rightarrow> if dc_sharersAware p then Some (a\<lparr>RepLines4DC := replLines4DC p\<rparr>) else None
      | _ \<Rightarrow> Some a)"

definition sa_lookup ::
    "address \<Rightarrow> MemReq option \<Rightarrow> bool \<Rightarrow> bool \<Rightarrow> SetAssocArray \<Rightarrow> (nat option \<times> SetAssocArray) option" where
  "sa_lookup addr req updateReplacement hit_in_dc a = do {
     first \<leftarrow> sa_first addr a;
     assert_that (first + sa_assoc a \<le> length (sa_array a));
     let w = first_index (\<lambda>t. t = addr) (take (sa_assoc a) (drop first (sa_array a)));
     if w < sa_assoc a
     then do {
       a \<leftarrow> (if updateReplacement
             then do { r \<leftarrow> req; rp \<leftarrow> rp_update (first + w) r hit_in_dc (sa_rp a); Some (a\<lparr>sa_rp := rp\<rparr>) }
             else Some a);
       a \<leftarrow> sa_count_dc a;
       Some (Some (first + w), a) }
     else Some (None, a) }"

definition sa_preinsert :: "cc_view \<Rightarrow> address \<Rightarrow> bool \<Rightarrow> SetAssocArray \<Rightarrow> (nat \<times> address \<times> SetAssocArray) option" where
  "sa_preinsert cc addr dynamic_repl a = do {
     first \<leftarrow> sa_first addr a;
     (candidate, rp) \<leftarrow> rp_rank cc [first..<first + sa_assoc a] dynamic_repl (sa_rp a);
     wb \<leftarrow> elem_at (sa_array a) candidate;
     Some (candidate, wb, a\<lparr>sa_rp := rp\<rparr>) }"

definition sa_postinsert :: "address \<Rightarrow> MemReq \<Rightarrow> nat \<Rightarrow> bool \<Rightarrow> SetAssocArray \<Rightarrow> SetAssocArray option" where
  "sa_postinsert addr req candidate hit_in_dc a = do {
     rp \<leftarrow> rp_replaced candidate (sa_rp a);
     arr \<leftarrow> put (sa_array a) candidate addr;
     rp \<leftarrow> rp_update candidate req hit_in_dc rp;
     Some (a\<lparr>sa_array := arr, sa_rp := rp\<rparr>) }"

section \<open>The zcache\<close>

text \<open>
  Lines keep their number; \<open>lookupArray\<close> maps physical positions to line numbers, and a line with address \<open>a\<close> may be at
  position \<open>w * numSets + hash w a\<close> for any way \<open>w\<close>.  A replacement walks the lines that could make room for each other and
  then moves the lines on the path from the victim to the new line.

  A candidate of the walk is its position, its line and the index of the candidate whose move it would make possible.
  The source writes each candidate at \<open>candidates[numCandidates]\<close> and advances \<open>numCandidates\<close> unless the candidate is the
  line being expanded; \<open>walk\<close> is the list of the candidates kept.
\<close>

record ZWalkInfo =
  zw_pos :: nat
  zw_lineId :: nat
  zw_parent :: "nat option"

record ZArray =
  z_array :: "address list"
  lookupArray :: "nat list"
  z_rp :: ReplPolicy
  z_hf :: HashFamily
  z_numSets :: nat
  z_ways :: nat
  z_cands :: nat
  z_setMask :: nat
  swapArray :: "nat list"
  swapArrayLen :: nat
  lastCandIdx :: nat
  statSwaps :: nat

definition ZArray_new :: "nat \<Rightarrow> nat \<Rightarrow> nat \<Rightarrow> ReplPolicy \<Rightarrow> HashFamily \<Rightarrow> ZArray option" where
  "ZArray_new numLines ways cands rp hf = do {
     assert_that (1 < ways);
     assert_that (ways \<le> cands);
     assert_that (numLines mod ways = 0);
     let numSets = numLines div ways;
     assert_that (isPow2 numSets);
     Some \<lparr>z_array = replicate numLines 0, lookupArray = [0..<numLines], z_rp = rp, z_hf = hf, z_numSets = numSets,
       z_ways = ways, z_cands = cands, z_setMask = numSets - 1, swapArray = replicate (cands div ways + 2) 0, swapArrayLen = 0,
       lastCandIdx = 0, statSwaps = 0\<rparr> }"

definition z_pos :: "nat \<Rightarrow> address \<Rightarrow> ZArray \<Rightarrow> nat option" where
  "z_pos w addr z = do {
     h \<leftarrow> hash (z_hf z) w (of_nat addr);
     Some (w * z_numSets z + (unat h AND z_setMask z)) }"

text \<open>The first way from \<open>w\<close> on that holds the address, and its line.\<close>

primrec z_search :: "nat \<Rightarrow> nat \<Rightarrow> address \<Rightarrow> ZArray \<Rightarrow> nat option option" where
  "z_search 0 w addr z = Some None"
| "z_search (Suc k) w addr z = do {
     pos \<leftarrow> z_pos w addr z;
     lineId \<leftarrow> elem_at (lookupArray z) pos;
     t \<leftarrow> elem_at (z_array z) lineId;
     if t = addr then Some (Some lineId) else z_search k (Suc w) addr z }"

definition z_lookup :: "address \<Rightarrow> MemReq option \<Rightarrow> bool \<Rightarrow> bool \<Rightarrow> ZArray \<Rightarrow> (nat option \<times> ZArray) option" where
  "z_lookup addr req updateReplacement hit_in_dc z = do {
     assert_that (addr \<noteq> 0);
     r \<leftarrow> z_search (z_ways z) 0 addr z;
     case r of
       None \<Rightarrow> Some (None, z)
     | Some lineId \<Rightarrow>
         if updateReplacement
         then do { q \<leftarrow> req; rp \<leftarrow> rp_update lineId q hit_in_dc (z_rp z); Some (Some lineId, z\<lparr>z_rp := rp\<rparr>) }
         else Some (Some lineId, z) }"

definition z_seed :: "address \<Rightarrow> ZArray \<Rightarrow> nat \<Rightarrow> ZWalkInfo list \<times> bool \<Rightarrow> (ZWalkInfo list \<times> bool) option" where
  "z_seed addr z w = (\<lambda>(walk, all_valid). do {
     pos \<leftarrow> z_pos w addr z;
     lineId \<leftarrow> elem_at (lookupArray z) pos;
     t \<leftarrow> elem_at (z_array z) lineId;
     Some (walk @ [\<lparr>zw_pos = pos, zw_lineId = lineId, zw_parent = None\<rparr>], all_valid \<and> t \<noteq> 0) })"

definition z_expand ::
    "ZArray \<Rightarrow> nat \<Rightarrow> nat \<Rightarrow> address \<Rightarrow> nat \<Rightarrow> ZWalkInfo list \<times> bool \<Rightarrow> (ZWalkInfo list \<times> bool) option" where
  "z_expand z fringeStart fringeId fringeAddr w = (\<lambda>(walk, all_valid). do {
     pos \<leftarrow> z_pos w fringeAddr z;
     lineId \<leftarrow> elem_at (lookupArray z) pos;
     assert_that (length walk < z_cands z + z_ways z);
     t \<leftarrow> elem_at (z_array z) lineId;
     Some (if lineId \<noteq> fringeId then walk @ [\<lparr>zw_pos = pos, zw_lineId = lineId, zw_parent = Some fringeStart\<rparr>] else walk,
           all_valid \<and> t \<noteq> 0) })"

text \<open>A fringe beyond the candidates found would be uninitialised memory.\<close>

function z_walk :: "ZArray \<Rightarrow> nat \<Rightarrow> ZWalkInfo list \<Rightarrow> bool \<Rightarrow> (ZWalkInfo list \<times> bool) option" where
  "z_walk z fringeStart walk all_valid =
     (if length walk < z_cands z \<and> all_valid
      then if fringeStart < length walk
        then do {
          let fringeId = zw_lineId (walk ! fringeStart);
          fringeAddr \<leftarrow> elem_at (z_array z) fringeId;
          assert_that (fringeAddr \<noteq> 0);
          (walk, all_valid) \<leftarrow> foldM (z_expand z fringeStart fringeId fringeAddr) [0..<z_ways z] (walk, all_valid);
          z_walk z (Suc fringeStart) walk all_valid }
        else None
      else Some (walk, all_valid))"
  by pat_completeness auto
termination by (relation "measure (\<lambda>(z, fringeStart, walk, v). z_cands z - fringeStart)") auto

text \<open>The path from a candidate to its seed, written to \<open>swapArray\<close>.\<close>

function z_path :: "ZWalkInfo list \<Rightarrow> nat option \<Rightarrow> nat \<Rightarrow> nat list \<Rightarrow> (nat \<times> nat list) option" where
  "z_path walk None swapIdx swaps = Some (swapIdx, swaps)"
| "z_path walk (Some idx) swapIdx swaps =
     (if swapIdx < length swaps
      then do {
        c \<leftarrow> elem_at walk idx;
        z_path walk (zw_parent c) (Suc swapIdx) (swaps[swapIdx := zw_pos c]) }
      else None)"
  by pat_completeness auto
termination by (relation "measure (\<lambda>(walk, idx, swapIdx, swaps). length swaps - swapIdx)") auto

definition z_preinsert :: "cc_view \<Rightarrow> address \<Rightarrow> bool \<Rightarrow> ZArray \<Rightarrow> (nat \<times> address \<times> ZArray) option" where
  "z_preinsert cc addr dynamic_repl z = do {
     (walk, all_valid) \<leftarrow> foldM (z_seed addr z) [0..<z_ways z] ([], True);
     (walk, all_valid) \<leftarrow> z_walk z 0 walk all_valid;
     assert_that (\<not> all_valid \<or> z_cands z \<le> length walk);
     let walk = take (z_cands z) walk;
     (best, rp) \<leftarrow> rp_rank cc (map zw_lineId walk) dynamic_repl (z_rp z);
     assert_that (best < length (z_array z));
     let minIdx = first_index (\<lambda>c. zw_lineId c = best) walk;
     assert_that (minIdx < length walk);
     (swapLen, swaps) \<leftarrow> z_path walk (Some minIdx) 0 (swapArray z);
     assert_that (0 < swapLen);
     Some (best, z_array z ! best, z\<lparr>z_rp := rp, lastCandIdx := minIdx, swapArray := swaps, swapArrayLen := swapLen\<rparr>) }"

definition z_swap :: "nat list \<Rightarrow> nat \<Rightarrow> nat list \<Rightarrow> nat list option" where
  "z_swap swaps i lk = do {
     from \<leftarrow> elem_at swaps (i + 1);
     to \<leftarrow> elem_at swaps i;
     l \<leftarrow> elem_at lk from;
     put lk to l }"

text \<open>With an empty path the bound of the loop would wrap around and the loop would leave the array.\<close>

definition z_postinsert :: "address \<Rightarrow> MemReq \<Rightarrow> nat \<Rightarrow> bool \<Rightarrow> ZArray \<Rightarrow> ZArray option" where
  "z_postinsert addr req candidate hit_in_dc z = do {
     s0 \<leftarrow> elem_at (swapArray z) 0;
     l0 \<leftarrow> elem_at (lookupArray z) s0;
     assert_that (l0 = candidate);
     assert_that (0 < swapArrayLen z);
     lk \<leftarrow> foldM (z_swap (swapArray z)) [0..<swapArrayLen z - 1] (lookupArray z);
     sl \<leftarrow> elem_at (swapArray z) (swapArrayLen z - 1);
     lk \<leftarrow> put lk sl candidate;
     rp \<leftarrow> rp_replaced candidate (z_rp z);
     arr \<leftarrow> put (z_array z) candidate addr;
     rp \<leftarrow> rp_update candidate req hit_in_dc rp;
     Some (z\<lparr>lookupArray := lk, z_array := arr, z_rp := rp, statSwaps := statSwaps z + (swapArrayLen z - 1)\<rparr>) }"

section \<open>The interface\<close>

text \<open>
  \<open>found a addr\<close> is the line that holds an address, \<open>tag a i\<close> the address of a line.  \<open>opened a addr i\<close>: a replacement is
  under way that will put \<open>addr\<close> into line \<open>i\<close>; \<open>closed a\<close>: none is.  Address 0 marks unused lines and is never looked up.
\<close>

locale cache_array =
  fixes lookup :: "address \<Rightarrow> MemReq option \<Rightarrow> bool \<Rightarrow> bool \<Rightarrow> 'a \<Rightarrow> (nat option \<times> 'a) option"
    and preinsert :: "cc_view \<Rightarrow> address \<Rightarrow> bool \<Rightarrow> 'a \<Rightarrow> (nat \<times> address \<times> 'a) option"
    and postinsert :: "address \<Rightarrow> MemReq \<Rightarrow> nat \<Rightarrow> bool \<Rightarrow> 'a \<Rightarrow> 'a option"
    and found :: "'a \<Rightarrow> address \<Rightarrow> nat option"
    and tag :: "'a \<Rightarrow> nat \<Rightarrow> address"
    and lines_of :: "'a \<Rightarrow> nat"
    and wf :: "'a \<Rightarrow> bool"
    and closed :: "'a \<Rightarrow> bool"
    and opened :: "'a \<Rightarrow> address \<Rightarrow> nat \<Rightarrow> bool"
  assumes found_tag: "wf a \<Longrightarrow> addr \<noteq> 0 \<Longrightarrow> found a addr = Some i \<Longrightarrow> i < lines_of a \<and> tag a i = addr"
    and lookup_quiet: "wf a \<Longrightarrow> addr \<noteq> 0 \<Longrightarrow>
      \<exists>a'. lookup addr oreq False dc a = Some (found a addr, a') \<and> wf a' \<and> found a' = found a \<and> tag a' = tag a \<and>
        lines_of a' = lines_of a \<and> closed a' = closed a \<and> opened a' = opened a"
    and lookup_update: "wf a \<Longrightarrow> closed a \<Longrightarrow> addr \<noteq> 0 \<Longrightarrow> IsGet (req_type req) \<Longrightarrow>
      \<exists>a'. lookup addr (Some req) True dc a = Some (found a addr, a') \<and> wf a' \<and> closed a' \<and> found a' = found a \<and> tag a' = tag a \<and>
        lines_of a' = lines_of a"
    and preinsert: "wf a \<Longrightarrow> closed a \<Longrightarrow> addr \<noteq> 0 \<Longrightarrow> found a addr = None \<Longrightarrow>
      \<exists>i a'. preinsert cc addr dyn a = Some (i, tag a i, a') \<and> i < lines_of a \<and> wf a' \<and> opened a' addr i \<and> found a' = found a \<and>
        tag a' = tag a \<and> lines_of a' = lines_of a"
    and postinsert: "wf a \<Longrightarrow> opened a addr i \<Longrightarrow> addr \<noteq> 0 \<Longrightarrow> found a addr = None \<Longrightarrow> IsGet (req_type req) \<Longrightarrow>
      \<exists>a'. postinsert addr req i dc a = Some a' \<and> wf a' \<and> closed a' \<and> found a' addr = Some i \<and> tag a' = (tag a)(i := addr) \<and>
        lines_of a' = lines_of a \<and>
        (\<forall>y j. y \<noteq> 0 \<longrightarrow> y \<noteq> addr \<longrightarrow> found a y = Some j \<longrightarrow> j \<noteq> i \<longrightarrow> found a' y = Some j)"

context cache_array begin

text \<open>A replacement installs the new address and loses no other line than the one it evicts.\<close>

lemma insert_lookup:
  assumes wf: "wf a" "closed a" and addr: "addr \<noteq> 0" "found a addr = None" and req: "IsGet (req_type req)"
  shows "\<exists>i a1 a2 a3. preinsert cc addr dyn a = Some (i, tag a i, a1) \<and> postinsert addr req i dc a1 = Some a2 \<and>
    lookup addr oreq False dc' a2 = Some (Some i, a3) \<and> i < lines_of a \<and> wf a2 \<and> closed a2 \<and>
    (\<forall>y j. y \<noteq> 0 \<longrightarrow> y \<noteq> tag a i \<longrightarrow> found a y = Some j \<longrightarrow> found a2 y = Some j)"
proof -
  obtain i a1 where 1: "preinsert cc addr dyn a = Some (i, tag a i, a1)" "i < lines_of a" "wf a1" "opened a1 addr i" "found a1 = found a"
    using preinsert [OF wf addr] by blast
  obtain a2 where 2: "postinsert addr req i dc a1 = Some a2" "wf a2" "closed a2" "found a2 addr = Some i"
    "\<And>y j. y \<noteq> 0 \<Longrightarrow> y \<noteq> addr \<Longrightarrow> found a1 y = Some j \<Longrightarrow> j \<noteq> i \<Longrightarrow> found a2 y = Some j"
    using postinsert [OF 1(3,4) addr(1) _ req] addr(2) 1(5) by metis
  obtain a3 where 3: "lookup addr oreq False dc' a2 = Some (found a2 addr, a3)" using lookup_quiet [OF 2(2) addr(1)] by metis
  have keep: "found a2 y = Some j" if y: "y \<noteq> 0" "y \<noteq> tag a i" "found a y = Some j" for y j
  proof -
    have "tag a j = y" using found_tag [OF wf(1) y(1,3)] by simp
    then have "j \<noteq> i" using y(2) by auto
    moreover have "y \<noteq> addr" using y(3) addr(2) by auto
    ultimately show ?thesis using 2(5) [OF y(1)] y(3) 1(5) by simp
  qed
  show ?thesis using 1 2(1-4) 3 keep by auto
qed

end

section \<open>The set-associative array implements it\<close>

lemma and_nat_less: "0 < n \<Longrightarrow> x AND (n - 1) < n" for x n :: nat
proof -
  assume "0 < n"
  have "int (x AND (n - 1)) \<le> int (n - 1)" by (simp add: of_nat_and_eq)
  then show ?thesis using \<open>0 < n\<close> by linarith
qed

text \<open>A family has the functions that the array calls.\<close>

definition hf_ok :: "nat \<Rightarrow> HashFamily \<Rightarrow> bool" where
  "hf_ok n hf = (case hf of H3 f \<Rightarrow> h3_ok f \<and> n \<le> numFuncs f | SHA1 \<Rightarrow> False | IdHash \<Rightarrow> True)"

lemma hf_total: "hf_ok n hf \<Longrightarrow> i < n \<Longrightarrow> \<exists>h. hash hf i v = Some h"
  using h3_hash_total by (cases hf) (auto simp: hf_ok_def hash_def)

definition sa_wf :: "SetAssocArray \<Rightarrow> bool" where
  "sa_wf a \<longleftrightarrow> hf_ok 1 (sa_hf a) \<and> 0 < sa_numSets a \<and> 0 < sa_assoc a \<and> sa_setMask a = sa_numSets a - 1 \<and>
     sa_numSets a * sa_assoc a \<le> length (sa_array a) \<and> rp_wf (length (sa_array a)) (sa_assoc a) (sa_rp a)"

definition sa_base :: "SetAssocArray \<Rightarrow> address \<Rightarrow> nat" where
  "sa_base a addr = the (sa_first addr a)"

definition sa_found :: "SetAssocArray \<Rightarrow> address \<Rightarrow> nat option" where
  "sa_found a addr =
     (let w = first_index (\<lambda>t. t = addr) (take (sa_assoc a) (drop (sa_base a addr) (sa_array a)))
      in if w < sa_assoc a then Some (sa_base a addr + w) else None)"

definition sa_opened :: "SetAssocArray \<Rightarrow> address \<Rightarrow> nat \<Rightarrow> bool" where
  "sa_opened a addr i \<longleftrightarrow> sa_base a addr \<le> i \<and> i < sa_base a addr + sa_assoc a"

lemma sa_first_ok:
  assumes "sa_wf a"
  shows "sa_first addr a = Some (sa_base a addr)" "sa_base a addr + sa_assoc a \<le> length (sa_array a)"
proof -
  obtain h where h: "hash (sa_hf a) 0 (of_nat addr) = Some h" using assms hf_total [of 1 "sa_hf a" 0] by (auto simp: sa_wf_def)
  then show *: "sa_first addr a = Some (sa_base a addr)" by (simp add: sa_first_def sa_base_def)
  have "unat h AND sa_setMask a < sa_numSets a" using assms and_nat_less by (simp add: sa_wf_def)
  then have "Suc (unat h AND sa_setMask a) * sa_assoc a \<le> sa_numSets a * sa_assoc a" by (intro mult_le_mono1) simp
  then show "sa_base a addr + sa_assoc a \<le> length (sa_array a)"
    using assms h * by (simp add: sa_first_def sa_wf_def)
qed

lemma sa_found_iff:
  assumes "sa_wf a"
  shows "sa_found a addr = Some i \<longleftrightarrow> sa_opened a addr i \<and> sa_array a ! i = addr \<and>
    (\<forall>j. sa_base a addr \<le> j \<longrightarrow> j < i \<longrightarrow> sa_array a ! j \<noteq> addr)"
proof -
  define b xs where "b = sa_base a addr" and "xs = take (sa_assoc a) (drop b (sa_array a))"
  have len: "length xs = sa_assoc a" and nth: "\<And>w. w < sa_assoc a \<Longrightarrow> xs ! w = sa_array a ! (b + w)"
    using sa_first_ok(2) [OF assms, of addr] by (auto simp: xs_def b_def)
  let ?w = "first_index (\<lambda>t. t = addr) xs"
  have f: "sa_found a addr = (if ?w < sa_assoc a then Some (b + ?w) else None)"
    by (simp add: sa_found_def b_def xs_def)
  show ?thesis
  proof
    assume "sa_found a addr = Some i"
    then have w: "?w < sa_assoc a" "i = b + ?w" using f by (auto split: if_splits)
    have "sa_array a ! j \<noteq> addr" if "b \<le> j" "j < i" for j
      using first_index_before [of "j - b" "\<lambda>t. t = addr" xs] nth [of "j - b"] that w by simp
    then show "sa_opened a addr i \<and> sa_array a ! i = addr \<and> (\<forall>j. sa_base a addr \<le> j \<longrightarrow> j < i \<longrightarrow> sa_array a ! j \<noteq> addr)"
      using w first_index_nth [of "\<lambda>t. t = addr" xs] len nth by (simp add: sa_opened_def b_def)
  next
    assume *: "sa_opened a addr i \<and> sa_array a ! i = addr \<and> (\<forall>j. sa_base a addr \<le> j \<longrightarrow> j < i \<longrightarrow> sa_array a ! j \<noteq> addr)"
    have "?w = i - b"
    proof (rule first_index_eqI)
      show "i - b < length xs" "xs ! (i - b) = addr" using * len nth [of "i - b"] by (auto simp: sa_opened_def b_def)
      show "xs ! j \<noteq> addr" if j: "j < i - b" for j
      proof -
        have "j < sa_assoc a" "b \<le> b + j" "b + j < i" using * j by (auto simp: sa_opened_def b_def)
        then show ?thesis using * nth b_def by metis
      qed
    qed
    then show "sa_found a addr = Some i" using * f by (auto simp: sa_opened_def b_def)
  qed
qed

text \<open>Nothing but the array itself and the hash function determines where an address is.\<close>

lemma sa_same:
  assumes "sa_array a' = sa_array a" "sa_hf a' = sa_hf a" "sa_setMask a' = sa_setMask a" "sa_assoc a' = sa_assoc a"
  shows "sa_first addr a' = sa_first addr a" "sa_base a' = sa_base a" "sa_found a' = sa_found a" "sa_opened a' = sa_opened a"
proof -
  show f: "sa_first addr a' = sa_first addr a" for addr using assms by (simp add: sa_first_def)
  show b: "sa_base a' = sa_base a" by (rule ext) (simp add: sa_base_def f)
  show "sa_found a' = sa_found a" by (rule ext) (simp add: sa_found_def b assms Let_def)
  show "sa_opened a' = sa_opened a" by (intro ext) (simp add: sa_opened_def b assms)
qed

lemma sa_count_dc_ok:
  assumes "sa_wf a"
  shows "\<exists>n. sa_count_dc a = Some (a\<lparr>RepLines4DC := n\<rparr>)"
proof -
  have "a = a\<lparr>RepLines4DC := RepLines4DC a\<rparr>" by simp
  then show ?thesis using assms by (cases "sa_rp a") (auto simp: sa_count_dc_def sa_wf_def rp_wf_def intro: exI [of _ "RepLines4DC a"])
qed

lemma sa_lookup_quiet:
  assumes "sa_wf a"
  shows "\<exists>n. sa_lookup addr req False dc a = Some (sa_found a addr, a\<lparr>RepLines4DC := n\<rparr>)"
proof -
  have "a = a\<lparr>RepLines4DC := RepLines4DC a\<rparr>" by simp
  then show ?thesis using sa_first_ok [OF assms, of addr] sa_count_dc_ok [OF assms]
    by (auto simp: sa_lookup_def sa_found_def Let_def intro: exI [of _ "RepLines4DC a"])
qed

lemma sa_lookup_update:
  assumes a: "sa_wf a" "IsGet (req_type req)"
  shows "\<exists>rp n. sa_lookup addr (Some req) True dc a = Some (sa_found a addr, a\<lparr>sa_rp := rp, RepLines4DC := n\<rparr>) \<and>
    rp_wf (length (sa_array a)) (sa_assoc a) rp \<and> rp_closed rp = rp_closed (sa_rp a)"
proof -
  note f = sa_first_ok [OF a(1), of addr]
  define w where "w = first_index (\<lambda>t. t = addr) (take (sa_assoc a) (drop (sa_base a addr) (sa_array a)))"
  have found: "sa_found a addr = (if w < sa_assoc a then Some (sa_base a addr + w) else None)"
    by (simp add: sa_found_def w_def)
  have rp: "rp_wf (length (sa_array a)) (sa_assoc a) (sa_rp a)" using a(1) by (simp add: sa_wf_def)
  show ?thesis
  proof (cases "w < sa_assoc a")
    case False
    have "a = a\<lparr>sa_rp := sa_rp a, RepLines4DC := RepLines4DC a\<rparr>" by simp
    moreover have "sa_lookup addr (Some req) True dc a = Some (None, a)"
      using f False by (simp add: sa_lookup_def w_def [symmetric] Let_def)
    ultimately show ?thesis using rp False found by metis
  next
    case True
    then have "sa_base a addr + w < length (sa_array a)" using f(2) by simp
    from rp_update_ok [OF rp this a(2)] obtain rp' where u: "rp_update (sa_base a addr + w) req dc (sa_rp a) = Some rp'"
      "rp_wf (length (sa_array a)) (sa_assoc a) rp'" "rp_closed rp' = rp_closed (sa_rp a)" by blast
    have "sa_wf (a\<lparr>sa_rp := rp'\<rparr>)" using a(1) u(2) by (simp add: sa_wf_def)
    from sa_count_dc_ok [OF this] obtain n where "sa_count_dc (a\<lparr>sa_rp := rp'\<rparr>) = Some (a\<lparr>sa_rp := rp', RepLines4DC := n\<rparr>)" by auto
    then have "sa_lookup addr (Some req) True dc a = Some (Some (sa_base a addr + w), a\<lparr>sa_rp := rp', RepLines4DC := n\<rparr>)"
      using f True u by (simp add: sa_lookup_def w_def [symmetric] Let_def)
    then show ?thesis using u found True by auto
  qed
qed

lemma sa_preinsert_ok:
  assumes a: "sa_wf a" "rp_closed (sa_rp a)"
  shows "\<exists>i rp. sa_preinsert cc addr dyn a = Some (i, sa_array a ! i, a\<lparr>sa_rp := rp\<rparr>) \<and> sa_opened a addr i \<and> i < length (sa_array a) \<and>
    rp_wf (length (sa_array a)) (sa_assoc a) rp"
proof -
  note f = sa_first_ok [OF a(1), of addr]
  have rp: "rp_wf (length (sa_array a)) (sa_assoc a) (sa_rp a)" and pos: "0 < sa_assoc a" using a(1) by (simp_all add: sa_wf_def)
  have sub: "set [sa_base a addr..<sa_base a addr + sa_assoc a] \<subseteq> {..<length (sa_array a)}" using f(2) by auto
  obtain i rp' where r: "rp_rank cc [sa_base a addr..<sa_base a addr + sa_assoc a] dyn (sa_rp a) = Some (i, rp')"
    "i \<in> set [sa_base a addr..<sa_base a addr + sa_assoc a]" "rp_wf (length (sa_array a)) (sa_assoc a) rp'"
    using rp_rank_ok [OF rp a(2) _ sub, of cc dyn] pos by auto
  then have "i < length (sa_array a)" "sa_opened a addr i" using f(2) by (auto simp: sa_opened_def)
  then show ?thesis using r f(1) by (intro exI [of _ i] exI [of _ rp']) (simp add: sa_preinsert_def)
qed

lemma sa_found_insert:
  assumes a: "sa_wf a" and i: "sa_opened a addr i" and none: "sa_found a addr = None"
    and a': "sa_array a' = (sa_array a)[i := addr]" "sa_hf a' = sa_hf a" "sa_setMask a' = sa_setMask a" "sa_assoc a' = sa_assoc a" "sa_wf a'"
  shows "sa_found a' addr = Some i" "y \<noteq> addr \<Longrightarrow> sa_found a y = Some j \<Longrightarrow> j \<noteq> i \<Longrightarrow> sa_found a' y = Some j"
proof -
  have "sa_first y a' = sa_first y a" for y using a'(2-4) by (simp add: sa_first_def)
  then have b: "sa_base a' = sa_base a" by (auto simp: sa_base_def)
  then have o: "sa_opened a' = sa_opened a" by (intro ext) (simp add: sa_opened_def a'(4))
  have len: "i < length (sa_array a)" using i sa_first_ok(2) [OF a, of addr] by (auto simp: sa_opened_def)
  have absent: "sa_array a ! j \<noteq> addr" if "sa_opened a addr j" for j
  proof
    assume eq: "sa_array a ! j = addr"
    define k where "k = (LEAST k. sa_opened a addr k \<and> sa_array a ! k = addr)"
    have k: "sa_opened a addr k \<and> sa_array a ! k = addr" unfolding k_def by (rule LeastI) (use eq that in blast)
    have "\<not> (sa_opened a addr m \<and> sa_array a ! m = addr)" if "m < k" for m using not_less_Least that unfolding k_def by blast
    then have "\<forall>m. sa_base a addr \<le> m \<longrightarrow> m < k \<longrightarrow> sa_array a ! m \<noteq> addr" using k by (auto simp: sa_opened_def)
    then have "sa_found a addr = Some k" using k sa_found_iff [OF a] by blast
    then show False using none by simp
  qed
  have other: "sa_array a ! m \<noteq> addr" if "sa_base a addr \<le> m" "m < i" for m
    using absent that i by (simp add: sa_opened_def)
  show "sa_found a' addr = Some i"
    unfolding sa_found_iff [OF a'(5)] o b a'(1) using i len other by (simp add: nth_list_update)
  show "sa_found a' y = Some j" if y: "y \<noteq> addr" "sa_found a y = Some j" "j \<noteq> i"
    using y(2,3) y(1) unfolding sa_found_iff [OF a'(5)] sa_found_iff [OF a] o b a'(1)
    using len by (auto simp: nth_list_update)
qed

lemma sa_postinsert_ok:
  assumes a: "sa_wf a" and i: "sa_opened a addr i" and req: "IsGet (req_type req)"
  shows "\<exists>rp. sa_postinsert addr req i dc a = Some (a\<lparr>sa_array := (sa_array a)[i := addr], sa_rp := rp\<rparr>) \<and>
    rp_wf (length (sa_array a)) (sa_assoc a) rp \<and> rp_closed rp"
proof -
  have len: "i < length (sa_array a)" using i sa_first_ok(2) [OF a, of addr] by (auto simp: sa_opened_def)
  have rp: "rp_wf (length (sa_array a)) (sa_assoc a) (sa_rp a)" using a by (simp add: sa_wf_def)
  from rp_replaced_ok [OF rp len] obtain rp1 where 1: "rp_replaced i (sa_rp a) = Some rp1"
    "rp_wf (length (sa_array a)) (sa_assoc a) rp1" "rp_closed rp1" by blast
  from rp_update_ok [OF 1(2) len req] obtain rp2 where "rp_update i req dc rp1 = Some rp2"
    "rp_wf (length (sa_array a)) (sa_assoc a) rp2" "rp_closed rp2" using 1(3) by blast
  then show ?thesis using 1 len by (intro exI [of _ rp2]) (simp add: sa_postinsert_def)
qed

definition sa_closed :: "SetAssocArray \<Rightarrow> bool" where "sa_closed a \<longleftrightarrow> rp_closed (sa_rp a)"
definition sa_tag :: "SetAssocArray \<Rightarrow> nat \<Rightarrow> address" where
  "sa_tag a i = (if i < length (sa_array a) then sa_array a ! i else 0)"
definition sa_lines :: "SetAssocArray \<Rightarrow> nat" where "sa_lines a = length (sa_array a)"

interpretation sa: cache_array sa_lookup sa_preinsert sa_postinsert sa_found sa_tag sa_lines sa_wf sa_closed sa_opened
proof
  fix a :: SetAssocArray and addr :: address and i :: nat and oreq :: "MemReq option" and req :: MemReq and dc dyn :: bool and cc
  assume wf: "sa_wf a" and addr: "addr \<noteq> 0"
  show "i < sa_lines a \<and> sa_tag a i = addr" if "sa_found a addr = Some i"
  proof -
    have "i < length (sa_array a)" using that sa_found_iff [OF wf] sa_first_ok(2) [OF wf, of addr] by (auto simp: sa_opened_def)
    then show ?thesis using that sa_found_iff [OF wf] by (auto simp: sa_lines_def sa_tag_def)
  qed
  show "\<exists>a'. sa_lookup addr oreq False dc a = Some (sa_found a addr, a') \<and> sa_wf a' \<and> sa_found a' = sa_found a \<and> sa_tag a' = sa_tag a \<and>
      sa_lines a' = sa_lines a \<and> sa_closed a' = sa_closed a \<and> sa_opened a' = sa_opened a"
  proof -
    obtain n where n: "sa_lookup addr oreq False dc a = Some (sa_found a addr, a\<lparr>RepLines4DC := n\<rparr>)" using sa_lookup_quiet [OF wf] by blast
    show ?thesis
      by (rule exI, rule conjI, rule n)
        (use wf sa_same [of "a\<lparr>RepLines4DC := n\<rparr>" a] in \<open>auto simp: sa_wf_def sa_closed_def sa_tag_def sa_lines_def fun_eq_iff\<close>)
  qed
  show "\<exists>a'. sa_lookup addr (Some req) True dc a = Some (sa_found a addr, a') \<and> sa_wf a' \<and> sa_closed a' \<and> sa_found a' = sa_found a \<and>
      sa_tag a' = sa_tag a \<and> sa_lines a' = sa_lines a" if cl: "sa_closed a" and get: "IsGet (req_type req)"
  proof -
    obtain rp n where n: "sa_lookup addr (Some req) True dc a = Some (sa_found a addr, a\<lparr>sa_rp := rp, RepLines4DC := n\<rparr>)"
      "rp_wf (length (sa_array a)) (sa_assoc a) rp" "rp_closed rp"
      using sa_lookup_update [OF wf get, of addr dc] cl unfolding sa_closed_def by blast
    show ?thesis
      by (rule exI, rule conjI, rule n(1))
        (use wf n(2,3) sa_same [of "a\<lparr>sa_rp := rp, RepLines4DC := n\<rparr>" a] in \<open>auto simp: sa_wf_def sa_closed_def sa_tag_def sa_lines_def fun_eq_iff\<close>)
  qed
  show "\<exists>i a'. sa_preinsert cc addr dyn a = Some (i, sa_tag a i, a') \<and> i < sa_lines a \<and> sa_wf a' \<and> sa_opened a' addr i \<and>
      sa_found a' = sa_found a \<and> sa_tag a' = sa_tag a \<and> sa_lines a' = sa_lines a" if cl: "sa_closed a" and "sa_found a addr = None"
  proof -
    obtain i rp where n: "sa_preinsert cc addr dyn a = Some (i, sa_array a ! i, a\<lparr>sa_rp := rp\<rparr>)" "sa_opened a addr i" "i < length (sa_array a)"
      "rp_wf (length (sa_array a)) (sa_assoc a) rp"
      using sa_preinsert_ok [OF wf cl [unfolded sa_closed_def], of cc addr dyn] by blast
    show ?thesis
      by (rule exI [of _ i], rule exI [of _ "a\<lparr>sa_rp := rp\<rparr>"])
        (use wf n sa_same [of "a\<lparr>sa_rp := rp\<rparr>" a] in \<open>auto simp: sa_wf_def sa_tag_def sa_lines_def fun_eq_iff\<close>)
  qed
  show "\<exists>a'. sa_postinsert addr req i dc a = Some a' \<and> sa_wf a' \<and> sa_closed a' \<and> sa_found a' addr = Some i \<and> sa_tag a' = (sa_tag a)(i := addr) \<and>
      sa_lines a' = sa_lines a \<and> (\<forall>y j. y \<noteq> 0 \<longrightarrow> y \<noteq> addr \<longrightarrow> sa_found a y = Some j \<longrightarrow> j \<noteq> i \<longrightarrow> sa_found a' y = Some j)"
    if o: "sa_opened a addr i" and none: "sa_found a addr = None" and req: "IsGet (req_type req)"
  proof -
    obtain rp where n: "sa_postinsert addr req i dc a = Some (a\<lparr>sa_array := (sa_array a)[i := addr], sa_rp := rp\<rparr>)"
      "rp_wf (length (sa_array a)) (sa_assoc a) rp" "rp_closed rp" using sa_postinsert_ok [OF wf o req] by blast
    define a' where "a' = a\<lparr>sa_array := (sa_array a)[i := addr], sa_rp := rp\<rparr>"
    have wf': "sa_wf a'" using wf n(2) by (simp add: sa_wf_def a'_def)
    have len: "i < length (sa_array a)" using o sa_first_ok(2) [OF wf, of addr] by (auto simp: sa_opened_def)
    have ins: "sa_found a' addr = Some i" "\<And>y j. y \<noteq> addr \<Longrightarrow> sa_found a y = Some j \<Longrightarrow> j \<noteq> i \<Longrightarrow> sa_found a' y = Some j"
      using sa_found_insert [OF wf o none, of a'] wf' by (simp_all add: a'_def)
    have "sa_closed a'" "sa_tag a' = (sa_tag a)(i := addr)" "sa_lines a' = sa_lines a"
      using n(3) len by (auto simp: a'_def sa_closed_def sa_tag_def sa_lines_def fun_eq_iff)
    then show ?thesis using n(1) wf' ins by (auto simp: a'_def [symmetric])
  qed
qed

section \<open>Properties\<close>

lemma SetAssocArray_new_wf:
  assumes "SetAssocArray_new n k rp hf = Some a" "hf_ok 1 hf" "rp_wf n k rp" "rp_closed rp"
  shows "sa_wf a" "sa_closed a" "sa_lines a = n" "addr \<noteq> 0 \<Longrightarrow> sa_found a addr = None"
proof -
  have a: "k \<noteq> 0" "isPow2 (n div k)" "a = \<lparr>sa_array = replicate n 0, sa_rp = rp, sa_hf = hf, sa_numSets = n div k, sa_assoc = k,
       sa_setMask = n div k - 1, RepLines4DC = 0\<rparr>"
    using assms(1) by (auto simp: SetAssocArray_new_def Let_def)
  then show wf: "sa_wf a" using assms(2,3) by (simp add: sa_wf_def isPow2_def)
  show "sa_closed a" "sa_lines a = n" using a(3) assms(4) by (simp_all add: sa_closed_def sa_lines_def)
  assume addr: "addr \<noteq> 0"
  show "sa_found a addr = None"
  proof (cases "sa_found a addr")
    case (Some i)
    then have "sa_array a ! i = addr" "i < length (sa_array a)"
      using sa_found_iff [OF wf] sa_first_ok(2) [OF wf, of addr] by (auto simp: sa_opened_def)
    then show ?thesis using a(3) addr by simp
  qed simp
qed

text \<open>
  C20. Replacement in a set-associative array whose policy is LRU, LRU_DC with sharers (as in a cache that has children),
  TreeLRU, NRU, LFU, LRUProfViol, or Random with a power of two of ways: inserting an address that is absent never fails, the
  address is then found in the line that was chosen, and every other address that was found before, except that of the
  evicted line, is still found in its line.  Not covered: LRU_DC in a terminal cache, where the next lookup aborts (see
  below), and Random with another number of ways, whose rejection loop is not shown to end.
\<close>

theorem set_assoc_insert_lookup:
  assumes "sa_wf a" "sa_closed a" "addr \<noteq> 0" "sa_found a addr = None" "IsGet (req_type req)"
  shows "\<exists>i a1 a2 a3. sa_preinsert cc addr dyn a = Some (i, sa_tag a i, a1) \<and> sa_postinsert addr req i dc a1 = Some a2 \<and>
    sa_lookup addr None False dc' a2 = Some (Some i, a3) \<and> i < sa_lines a \<and> sa_wf a2 \<and> sa_closed a2 \<and>
    (\<forall>y j. y \<noteq> 0 \<longrightarrow> y \<noteq> sa_tag a i \<longrightarrow> sa_found a y = Some j \<longrightarrow> sa_found a2 y = Some j)"
  by (rule sa.insert_lookup [OF assms])

definition demo_get :: "address \<Rightarrow> MemReq" where
  "demo_get addr = \<lparr>lineAddr = addr, req_type = GETS, childId = 0, req_state = StI, cycle = 0, initialState = StI, srcId = 0, req_flags = 0\<rparr>"

definition demo_view :: cc_view where
  "demo_view = \<lparr>cv_sharers = (\<lambda>_. 0), cv_valid = (\<lambda>_. True)\<rparr>"

theorem set_assoc_insert_lookup_witness:
  "\<exists>a i a1 a2 a3. SetAssocArray_new 8 2 (NRURepl (NRU_new 8 2)) IdHash = Some a \<and>
    sa_preinsert demo_view 77 False a = Some (i, sa_tag a i, a1) \<and> sa_postinsert 77 (demo_get 77) i False a1 = Some a2 \<and>
    sa_lookup 77 None False False a2 = Some (Some i, a3)"
proof -
  have "4 AND (3 :: nat) = 0" by simp
  then obtain a where a: "SetAssocArray_new 8 2 (NRURepl (NRU_new 8 2)) IdHash = Some a"
    by (simp add: SetAssocArray_new_def isPow2_def)
  have "hf_ok 1 IdHash" "rp_wf 8 2 (NRURepl (NRU_new 8 2))" "rp_closed (NRURepl (NRU_new 8 2))"
    by (simp_all add: hf_ok_def rp_wf_def nru_wf_def rp_closed_def NRU_new_def)
  note wf = SetAssocArray_new_wf [OF a this]
  show ?thesis
    using set_assoc_insert_lookup [OF wf(1,2) _ wf(4), of 77 "demo_get 77" demo_view False False False] a
    by (auto simp: demo_get_def IsGet_def)
qed






end
