(* ===== verification/Zcache.thy ===== *)
theory Zcache
  imports Cache_Array
begin

text \<open>
  The zcache implements the interface of cache arrays.  The positions are a permutation of the lines, and every used line is at
  one of the positions its address hashes to.  The walk of \<open>preinsert\<close> finds \<open>ways - 1\<close> new candidates for every candidate it
  expands; so it ends, the parent of a candidate is known from its index, and paths are short enough for \<open>swapArray\<close>.
  A candidate's first occurrence in the walk hangs on a first occurrence, which makes the moves of \<open>postinsert\<close> a rotation.
\<close>

section \<open>Positions\<close>

definition zp :: "ZArray \<Rightarrow> nat \<Rightarrow> address \<Rightarrow> nat" where
  "zp z w addr = the (z_pos w addr z)"

definition z_shape :: "ZArray \<Rightarrow> bool" where
  "z_shape z \<longleftrightarrow> length (z_array z) = z_ways z * z_numSets z \<and> 0 < z_numSets z \<and> 1 < z_ways z \<and> z_ways z \<le> z_cands z \<and>
     z_setMask z = z_numSets z - 1 \<and> hf_ok (z_ways z) (z_hf z) \<and> length (swapArray z) = z_cands z div z_ways z + 2"

definition z_perm :: "ZArray \<Rightarrow> bool" where
  "z_perm z \<longleftrightarrow> length (lookupArray z) = length (z_array z) \<and> distinct (lookupArray z) \<and> set (lookupArray z) \<subseteq> {..<length (z_array z)}"

definition z_placed :: "ZArray \<Rightarrow> bool" where
  "z_placed z \<longleftrightarrow> (\<forall>pos < length (z_array z). z_array z ! (lookupArray z ! pos) \<noteq> 0 \<longrightarrow>
     (\<exists>w < z_ways z. pos = zp z w (z_array z ! (lookupArray z ! pos))))"

definition z_distinct :: "ZArray \<Rightarrow> bool" where
  "z_distinct z \<longleftrightarrow> (\<forall>i < length (z_array z). \<forall>j < length (z_array z).
     i \<noteq> j \<longrightarrow> z_array z ! i = z_array z ! j \<longrightarrow> z_array z ! i = 0)"

definition z_wf :: "ZArray \<Rightarrow> bool" where
  "z_wf z \<longleftrightarrow> z_shape z \<and> z_perm z \<and> z_placed z \<and> z_distinct z \<and>
     rp_wf (length (z_array z)) (z_cands z) (z_rp z) \<and> \<not> rp_exact (z_rp z)"

lemma z_posD:
  assumes "z_shape z" "w < z_ways z"
  shows "z_pos w addr z = Some (zp z w addr)" "w * z_numSets z \<le> zp z w addr" "zp z w addr < Suc w * z_numSets z"
    "zp z w addr < length (z_array z)"
proof -
  obtain h where h: "hash (z_hf z) w (of_nat addr) = Some h" using assms hf_total [of "z_ways z" "z_hf z" w] by (auto simp: z_shape_def)
  then show *: "z_pos w addr z = Some (zp z w addr)" by (simp add: z_pos_def zp_def)
  have "unat h AND z_setMask z < z_numSets z" using assms and_nat_less by (simp add: z_shape_def)
  then show 1: "w * z_numSets z \<le> zp z w addr" "zp z w addr < Suc w * z_numSets z"
    using h by (auto simp: zp_def z_pos_def)
  have "Suc w * z_numSets z \<le> z_ways z * z_numSets z" using assms(2) by (intro mult_le_mono1) simp
  then show "zp z w addr < length (z_array z)" using 1 assms(1) by (simp add: z_shape_def)
qed

lemma zp_ways:
  assumes "z_shape z" "w < z_ways z" "w' < z_ways z" "zp z w a = zp z w' b"
  shows "w = w'"
proof (rule ccontr)
  assume "w \<noteq> w'"
  then consider "Suc w \<le> w'" | "Suc w' \<le> w" by linarith
  then show False
  proof cases
    case 1
    then have "Suc w * z_numSets z \<le> w' * z_numSets z" by (intro mult_le_mono1)
    then show False using z_posD(3) [OF assms(1,2), of a] z_posD(2) [OF assms(1,3), of b] assms(4) by linarith
  next
    case 2
    then have "Suc w' * z_numSets z \<le> w * z_numSets z" by (intro mult_le_mono1)
    then show False using z_posD(2) [OF assms(1,2), of a] z_posD(3) [OF assms(1,3), of b] assms(4) by linarith
  qed
qed

lemma z_perm_less: "z_perm z \<Longrightarrow> pos < length (z_array z) \<Longrightarrow> lookupArray z ! pos < length (z_array z)"
proof -
  assume "z_perm z" "pos < length (z_array z)"
  then have "lookupArray z ! pos \<in> set (lookupArray z)" "set (lookupArray z) \<subseteq> {..<length (z_array z)}"
    by (simp_all add: z_perm_def)
  then show ?thesis by blast
qed

lemma z_perm_inj:
  "z_perm z \<Longrightarrow> p < length (z_array z) \<Longrightarrow> q < length (z_array z) \<Longrightarrow> lookupArray z ! p = lookupArray z ! q \<Longrightarrow> p = q"
  by (simp add: z_perm_def nth_eq_iff_index_eq)

lemma z_perm_surj:
  assumes "z_perm z" "i < length (z_array z)"
  shows "\<exists>p < length (z_array z). lookupArray z ! p = i"
proof -
  have "card (set (lookupArray z)) = length (z_array z)" using assms(1) by (simp add: z_perm_def distinct_card)
  then have "set (lookupArray z) = {..<length (z_array z)}"
    using assms(1) card_subset_eq [of "{..<length (z_array z)}" "set (lookupArray z)"] by (simp add: z_perm_def)
  then have "i \<in> set (lookupArray z)" using assms(2) by simp
  then show ?thesis using assms(1) by (auto simp: in_set_conv_nth z_perm_def)
qed

section \<open>Lookup\<close>

definition z_found :: "ZArray \<Rightarrow> address \<Rightarrow> nat option" where
  "z_found z addr =
     (let i = first_index (\<lambda>t. t = addr) (z_array z) in if addr \<noteq> 0 \<and> i < length (z_array z) then Some i else None)"

lemma z_found_iff:
  assumes "z_distinct z" "addr \<noteq> 0"
  shows "z_found z addr = Some i \<longleftrightarrow> i < length (z_array z) \<and> z_array z ! i = addr"
proof
  show "z_found z addr = Some i" if i: "i < length (z_array z) \<and> z_array z ! i = addr"
  proof -
    have "first_index (\<lambda>t. t = addr) (z_array z) = i"
    proof (rule first_index_eqI)
      fix j assume "j < i"
      then have "j < length (z_array z)" "j \<noteq> i" using i by auto
      then show "z_array z ! j \<noteq> addr" using assms i unfolding z_distinct_def by metis
    qed (use i in auto)
    then show ?thesis using i assms(2) by (simp add: z_found_def)
  qed
qed (auto simp: z_found_def Let_def dest: first_index_nth split: if_splits)

lemma z_search_from:
  assumes z: "z_shape z" "z_perm z" "z_distinct z" "addr \<noteq> 0" and k: "w + k = z_ways z"
  shows "z_search k w addr z =
    Some (if \<exists>v. w \<le> v \<and> v < z_ways z \<and> z_array z ! (lookupArray z ! zp z v addr) = addr then z_found z addr else None)"
  using k
proof (induction k arbitrary: w)
  case (Suc k)
  then have w: "w < z_ways z" by simp
  note p = z_posD(1,4) [OF z(1) w, of addr]
  have l: "lookupArray z ! zp z w addr < length (z_array z)" by (rule z_perm_less [OF z(2) p(2)])
  have len: "zp z w addr < length (lookupArray z)" using p z(2) by (simp add: z_perm_def)
  show ?case
  proof (cases "z_array z ! (lookupArray z ! zp z w addr) = addr")
    case True
    then have "z_found z addr = Some (lookupArray z ! zp z w addr)" using l z_found_iff [OF z(3,4)] by simp
    then show ?thesis using True p len l w by auto
  next
    case False
    have "(\<exists>v. w \<le> v \<and> v < z_ways z \<and> z_array z ! (lookupArray z ! zp z v addr) = addr) \<longleftrightarrow>
        (\<exists>v. Suc w \<le> v \<and> v < z_ways z \<and> z_array z ! (lookupArray z ! zp z v addr) = addr)"
      using False by (metis Suc_leD Suc_leI le_neq_implies_less)
    then show ?thesis using False p len l Suc.IH [of "Suc w"] Suc.prems by simp
  qed
qed auto

lemma z_search_ok:
  assumes "z_wf z" "addr \<noteq> 0"
  shows "z_search (z_ways z) 0 addr z = Some (z_found z addr)"
proof -
  have z: "z_shape z" "z_perm z" "z_distinct z" "z_placed z" using assms(1) by (simp_all add: z_wf_def)
  have "\<exists>v. 0 \<le> v \<and> v < z_ways z \<and> z_array z ! (lookupArray z ! zp z v addr) = addr" if "z_found z addr = Some i" for i
  proof -
    have i: "i < length (z_array z)" "z_array z ! i = addr" using that z_found_iff [OF z(3) assms(2)] by auto
    obtain p where p: "p < length (z_array z)" "lookupArray z ! p = i" using z_perm_surj [OF z(2) i(1)] by blast
    then obtain w where "w < z_ways z" "p = zp z w addr" using z(4) i assms(2) by (auto simp: z_placed_def)
    then show ?thesis using p i by auto
  qed
  then show ?thesis using z_search_from [OF z(1-3) assms(2), of 0 "z_ways z"] by (cases "z_found z addr") auto
qed

section \<open>The walk\<close>

abbreviation z_line :: "ZArray \<Rightarrow> nat \<Rightarrow> address \<Rightarrow> nat" where
  "z_line z w addr \<equiv> lookupArray z ! zp z w addr"

abbreviation z_addr :: "ZArray \<Rightarrow> ZWalkInfo \<Rightarrow> address" where
  "z_addr z c \<equiv> z_array z ! zw_lineId c"

definition z_new :: "ZArray \<Rightarrow> nat option \<Rightarrow> address \<Rightarrow> nat \<Rightarrow> ZWalkInfo" where
  "z_new z par addr w = \<lparr>zw_pos = zp z w addr, zw_lineId = z_line z w addr, zw_parent = par\<rparr>"

lemma z_at:
  assumes "z_shape z" "z_perm z" "w < z_ways z"
  shows "elem_at (lookupArray z) (zp z w addr) = Some (z_line z w addr)" "elem_at (z_array z) (z_line z w addr) = Some (z_array z ! z_line z w addr)"
    "z_line z w addr < length (z_array z)"
proof -
  have p: "zp z w addr < length (z_array z)" by (rule z_posD(4) [OF assms(1,3)])
  then show "z_line z w addr < length (z_array z)" by (rule z_perm_less [OF assms(2)])
  then show "elem_at (z_array z) (z_line z w addr) = Some (z_array z ! z_line z w addr)" by simp
  show "elem_at (lookupArray z) (zp z w addr) = Some (z_line z w addr)" using p assms(2) by (simp add: z_perm_def)
qed

lemma z_seeds:
  assumes "z_shape z" "z_perm z" "m \<le> z_ways z"
  shows "foldM (z_seed addr z) [0..<m] ([], True) =
    Some (map (z_new z None addr) [0..<m], \<forall>w < m. z_array z ! z_line z w addr \<noteq> 0)"
  using assms(3)
proof (induction m)
  case (Suc m)
  then show ?case using z_at [OF assms(1,2), of m addr] z_posD(1) [OF assms(1), of m addr]
    by (auto simp: foldM_append foldM_Nil z_seed_def z_new_def less_Suc_eq)
qed simp

lemma z_expands:
  assumes "z_shape z" "z_perm z" "m \<le> z_ways z" "length walk < z_cands z"
  shows "foldM (z_expand z f fid faddr) [0..<m] (walk, av) =
    Some (walk @ map (z_new z (Some f) faddr) (filter (\<lambda>w. z_line z w faddr \<noteq> fid) [0..<m]),
      av \<and> (\<forall>w < m. z_array z ! z_line z w faddr \<noteq> 0))"
  using assms(3)
proof (induction m)
  case (Suc m)
  have "length (filter (\<lambda>w. z_line z w faddr \<noteq> fid) [0..<m]) \<le> m" by (metis diff_zero length_filter_le length_upt)
  then show ?case using Suc z_at [OF assms(1,2), of m faddr] z_posD(1) [OF assms(1), of m faddr] assms(4)
    by (auto simp: foldM_append foldM_Nil z_expand_def z_new_def less_Suc_eq)
qed simp

text \<open>The state of the walk for the new address \<open>x\<close> after the first \<open>f\<close> candidates have been expanded.\<close>

definition walk_ok :: "ZArray \<Rightarrow> address \<Rightarrow> nat \<Rightarrow> ZWalkInfo list \<Rightarrow> bool" where
  "walk_ok z x f ws \<longleftrightarrow>
     length ws = z_ways z + f * (z_ways z - 1) \<and>
     (\<forall>j < z_ways z. ws ! j = z_new z None x j) \<and>
     (\<forall>j < length ws. z_ways z \<le> j \<longrightarrow> (\<exists>w < z_ways z. z_addr z (ws ! ((j - z_ways z) div (z_ways z - 1))) \<noteq> 0 \<and>
        zw_lineId (ws ! j) \<noteq> zw_lineId (ws ! ((j - z_ways z) div (z_ways z - 1))) \<and> ws ! j = z_new z (Some ((j - z_ways z) div (z_ways z - 1))) (z_addr z (ws ! ((j - z_ways z) div (z_ways z - 1)))) w)) \<and>
     (\<forall>p < f. \<forall>w < z_ways z. z_line z w (z_addr z (ws ! p)) \<noteq> zw_lineId (ws ! p) \<longrightarrow>
        (\<exists>j < length ws. z_ways z \<le> j \<and> (j - z_ways z) div (z_ways z - 1) = p \<and> zw_lineId (ws ! j) = z_line z w (z_addr z (ws ! p))))"

text \<open>A used line is at exactly one of the positions its address hashes to.\<close>

lemma z_home:
  assumes z: "z_shape z" "z_perm z" "z_placed z" and i: "i < length (z_array z)" "z_array z ! i \<noteq> 0"
  shows "\<exists>w0 < z_ways z. \<forall>w < z_ways z. z_line z w (z_array z ! i) = i \<longleftrightarrow> w = w0"
proof -
  obtain p where p: "p < length (z_array z)" "lookupArray z ! p = i" using z_perm_surj [OF z(2) i(1)] by blast
  then obtain w0 where w0: "w0 < z_ways z" "p = zp z w0 (z_array z ! i)" using z(3) i(2) unfolding z_placed_def by metis
  have "w = w0" if w: "w < z_ways z" "z_line z w (z_array z ! i) = i" for w
  proof -
    have "zp z w (z_array z ! i) = p" by (rule z_perm_inj [OF z(2) z_posD(4) [OF z(1) w(1)] p(1)]) (simp add: w p)
    then show ?thesis using zp_ways [OF z(1) w(1) w0(1)] w0(2) by simp
  qed
  then show ?thesis using w0 p by blast
qed

lemma filter_one_less: "w0 < n \<Longrightarrow> length (filter (\<lambda>w. w \<noteq> w0) [0..<n]) = n - 1"
proof -
  assume "w0 < n"
  have "{i. i < n \<and> [0..<n] ! i \<noteq> w0} = {..<n} - {w0}" by auto
  then show ?thesis using \<open>w0 < n\<close> by (simp add: length_filter_conv_card)
qed

lemma walk_okD:
  assumes "walk_ok z x f ws"
  shows "length ws = z_ways z + f * (z_ways z - 1)"
    and "j < z_ways z \<Longrightarrow> ws ! j = z_new z None x j"
    and "j < length ws \<Longrightarrow> z_ways z \<le> j \<Longrightarrow> \<exists>w < z_ways z. z_addr z (ws ! ((j - z_ways z) div (z_ways z - 1))) \<noteq> 0 \<and>
        zw_lineId (ws ! j) \<noteq> zw_lineId (ws ! ((j - z_ways z) div (z_ways z - 1))) \<and> ws ! j = z_new z (Some ((j - z_ways z) div (z_ways z - 1))) (z_addr z (ws ! ((j - z_ways z) div (z_ways z - 1)))) w"
    and "p < f \<Longrightarrow> w < z_ways z \<Longrightarrow> z_line z w (z_addr z (ws ! p)) \<noteq> zw_lineId (ws ! p) \<Longrightarrow>
        \<exists>j < length ws. z_ways z \<le> j \<and> (j - z_ways z) div (z_ways z - 1) = p \<and> zw_lineId (ws ! j) = z_line z w (z_addr z (ws ! p))"
  using assms unfolding walk_ok_def by blast+

lemma walk_bounds:
  assumes "walk_ok z x f ws" "1 < z_ways z"
  shows "f < length ws" "j < length ws \<Longrightarrow> z_ways z \<le> j \<Longrightarrow> (j - z_ways z) div (z_ways z - 1) < f"
proof -
  have "f * 1 \<le> f * (z_ways z - 1)" using assms(2) by (intro mult_le_mono2) simp
  then have "f \<le> f * (z_ways z - 1)" by (simp only: mult_1_right)
  then show "f < length ws" using assms(2) unfolding walk_okD(1) [OF assms(1)] by linarith
  assume "j < length ws" "z_ways z \<le> j"
  then have "j - z_ways z < f * (z_ways z - 1)" using walk_okD(1) [OF assms(1)] by simp
  then show "(j - z_ways z) div (z_ways z - 1) < f" by (simp add: less_mult_imp_div_less)
qed

lemma parent_less:
  assumes "1 < (n::nat)" "n \<le> j"
  shows "(j - n) div (n - 1) < j"
proof -
  have "(j - n) div (n - 1) \<le> j - n" by (rule div_le_dividend)
  also have "j - n < j" using assms by simp
  finally show ?thesis .
qed

lemma walk_entry:
  assumes "walk_ok z x f ws" "z_shape z" "j < length ws"
  shows "zw_pos (ws ! j) < length (z_array z) \<and> zw_lineId (ws ! j) = lookupArray z ! zw_pos (ws ! j)"
proof (cases "j < z_ways z")
  case True
  then show ?thesis using walk_okD(2) [OF assms(1)] z_posD(4) [OF assms(2)] by (simp add: z_new_def)
next
  case False
  then obtain w a p where "w < z_ways z" "ws ! j = z_new z (Some p) a w" using walk_okD(3) [OF assms(1,3)] by force
  then show ?thesis using z_posD(4) [OF assms(2)] by (simp add: z_new_def)
qed

lemma walk_step:
  assumes z: "z_shape z" "z_perm z" "z_placed z" and ok: "walk_ok z x f ws"
    and av: "\<forall>j < length ws. z_addr z (ws ! j) \<noteq> 0"
  defines "new \<equiv> map (z_new z (Some f) (z_addr z (ws ! f)))
    (filter (\<lambda>w. z_line z w (z_addr z (ws ! f)) \<noteq> zw_lineId (ws ! f)) [0..<z_ways z])"
  shows "walk_ok z x (Suc f) (ws @ new)"
proof -
  define A where "A = z_addr z (ws ! f)"
  have ways: "1 < z_ways z" using z(1) by (simp add: z_shape_def)
  note f = walk_bounds [OF ok ways] and len = walk_okD(1) [OF ok]
  have fl: "zw_lineId (ws ! f) < length (z_array z)"
    using walk_entry [OF ok z(1) f(1)] z_perm_less [OF z(2)] by simp
  have A: "A \<noteq> 0" using av f(1) by (simp add: A_def)
  obtain w0 where w0: "w0 < z_ways z" "\<forall>w < z_ways z. z_line z w A = zw_lineId (ws ! f) \<longleftrightarrow> w = w0"
    using z_home [OF z fl] A unfolding A_def by blast
  have filt: "filter (\<lambda>w. z_line z w A \<noteq> zw_lineId (ws ! f)) [0..<z_ways z] = filter (\<lambda>w. w \<noteq> w0) [0..<z_ways z]"
    by (rule filter_cong) (use w0 in auto)
  have new: "length new = z_ways z - 1"
    using filter_one_less [OF w0(1)] filt by (simp add: new_def A_def)
  have new_nth: "\<exists>w < z_ways z. new ! i = z_new z (Some f) A w \<and> z_line z w A \<noteq> zw_lineId (ws ! f)" if "i < length new" for i
    using that nth_mem [of i new] unfolding new_def A_def by auto
  have par: "(j - z_ways z) div (z_ways z - 1) = f" if "length ws \<le> j" "j < length (ws @ new)" for j
  proof -
    define d where "d = j - length ws"
    have "j - z_ways z = f * (z_ways z - 1) + d" "d < z_ways z - 1" using len that new by (auto simp: d_def)
    then show ?thesis using ways by simp
  qed
  have old: "(ws @ new) ! ((j - z_ways z) div (z_ways z - 1)) = ws ! ((j - z_ways z) div (z_ways z - 1))"
    if "j < length ws" for j
    using f that by (meson div_le_dividend diff_le_self le_less_trans nth_append_left)
  show ?thesis unfolding walk_ok_def
  proof (intro conjI allI impI)
    show "length (ws @ new) = z_ways z + Suc f * (z_ways z - 1)" using len new by simp
    show "(ws @ new) ! j = z_new z None x j" if "j < z_ways z" for j
      using that walk_okD(2) [OF ok that] len by (simp add: nth_append)
  next
    fix j assume j: "j < length (ws @ new)" "z_ways z \<le> j"
    show "\<exists>w < z_ways z. z_addr z ((ws @ new) ! ((j - z_ways z) div (z_ways z - 1))) \<noteq> 0 \<and>
      zw_lineId ((ws @ new) ! j) \<noteq> zw_lineId ((ws @ new) ! ((j - z_ways z) div (z_ways z - 1))) \<and> (ws @ new) ! j =
      z_new z (Some ((j - z_ways z) div (z_ways z - 1))) (z_addr z ((ws @ new) ! ((j - z_ways z) div (z_ways z - 1)))) w"
    proof (cases "j < length ws")
      case True
      then show ?thesis using walk_okD(3) [OF ok True j(2)] old by (simp add: nth_append)
    next
      case False
      then have "j - length ws < length new" "(ws @ new) ! j = new ! (j - length ws)" using j by (auto simp: nth_append)
      then show ?thesis using new_nth [of "j - length ws"] par [OF _ j(1)] False f(1) A
        by (auto simp: nth_append A_def z_new_def)
    qed
  next
    fix p w assume p: "p < Suc f" "w < z_ways z" "z_line z w (z_addr z ((ws @ new) ! p)) \<noteq> zw_lineId ((ws @ new) ! p)"
    have pl: "(ws @ new) ! p = ws ! p" using p(1) f(1) by (simp add: nth_append)
    show "\<exists>j < length (ws @ new). z_ways z \<le> j \<and> (j - z_ways z) div (z_ways z - 1) = p \<and>
        zw_lineId ((ws @ new) ! j) = z_line z w (z_addr z ((ws @ new) ! p))"
    proof (cases "p < f")
      case True
      then obtain j where "j < length ws" "z_ways z \<le> j" "(j - z_ways z) div (z_ways z - 1) = p"
          "zw_lineId (ws ! j) = z_line z w (z_addr z (ws ! p))"
        using walk_okD(4) [OF ok True p(2)] p(3) pl by auto
      then show ?thesis using pl by (intro exI [of _ j]) (simp add: nth_append)
    next
      case False
      then have "p = f" using p(1) by simp
      then have "z_new z (Some f) A w \<in> set new" using p(2,3) pl by (auto simp: new_def A_def)
      then obtain i where i: "i < length new" "new ! i = z_new z (Some f) A w" by (auto simp: in_set_conv_nth)
      show ?thesis
        by (rule exI [of _ "length ws + i"])
          (use i \<open>p = f\<close> pl par [of "length ws + i"] len in \<open>auto simp: nth_append A_def z_new_def\<close>)
    qed
  qed
qed

lemma walk_seeded: "walk_ok z x 0 (map (z_new z None x) [0..<z_ways z])"
  by (simp add: walk_ok_def)

text \<open>The walk ends, with enough candidates unless it has met an unused line.\<close>

lemma z_walk_ok:
  assumes z: "z_shape z" "z_perm z" "z_placed z"
    and w: "walk_ok z x f ws" "av \<longrightarrow> (\<forall>j < length ws. z_addr z (ws ! j) \<noteq> 0)"
  shows "\<exists>f' ws' av'. z_walk z f ws av = Some (ws', av') \<and> walk_ok z x f' ws' \<and> (av' \<longrightarrow> z_cands z \<le> length ws')"
  using w
proof (induction "z_cands z - f" arbitrary: f ws av rule: less_induct)
  case less
  show ?case
  proof (cases "length ws < z_cands z \<and> av")
    case True
    have ways: "1 < z_ways z" using z(1) by (simp add: z_shape_def)
    have f: "f < length ws" using walk_bounds(1) [OF less.prems(1) ways] .
    define fid A where "fid = zw_lineId (ws ! f)" and "A = z_array z ! fid"
    define new where "new = map (z_new z (Some f) A) (filter (\<lambda>w. z_line z w A \<noteq> fid) [0..<z_ways z])"
    define av' where "av' \<longleftrightarrow> (\<forall>w < z_ways z. z_array z ! z_line z w A \<noteq> 0)"
    have av: "\<forall>j < length ws. z_addr z (ws ! j) \<noteq> 0" using less.prems(2) True by blast
    have fid: "fid < length (z_array z)"
      using walk_entry [OF less.prems(1) z(1) f] z_perm_less [OF z(2)] by (simp add: fid_def)
    have "foldM (z_expand z f fid A) [0..<z_ways z] (ws, av) = Some (ws @ new, av')"
      using z_expands [OF z(1,2) order_refl] True by (simp add: new_def av'_def)
    moreover have "A \<noteq> 0" using av f by (simp add: A_def fid_def)
    ultimately have step: "z_walk z f ws av = z_walk z (Suc f) (ws @ new) av'"
      using True f fid by (subst z_walk.simps) (simp add: fid_def [symmetric] A_def [symmetric] Let_def)
    have ok: "walk_ok z x (Suc f) (ws @ new)"
      using walk_step [OF z less.prems(1) av] by (simp add: new_def A_def fid_def)
    have "av' \<longrightarrow> (\<forall>j < length (ws @ new). z_addr z ((ws @ new) ! j) \<noteq> 0)"
    proof (intro impI allI)
      fix j assume a: "av'" "j < length (ws @ new)"
      show "z_addr z ((ws @ new) ! j) \<noteq> 0"
      proof (cases "j < length ws")
        case False
        then have "(ws @ new) ! j \<in> set new" using a(2) by (simp add: nth_append)
        then obtain v where "v < z_ways z" "(ws @ new) ! j = z_new z (Some f) A v" by (auto simp: new_def)
        then show ?thesis using a(1) by (simp add: av'_def z_new_def)
      qed (use av in \<open>simp add: nth_append\<close>)
    qed
    then show ?thesis unfolding step using less.hyps [OF _ ok] True f by fastforce
  next
    case False
    then show ?thesis using less.prems(1) by (subst z_walk.simps) auto
  qed
qed

section \<open>Paths\<close>

text \<open>The indices on the path from a candidate to its seed.\<close>

function path_of :: "nat \<Rightarrow> nat \<Rightarrow> nat list" where
  "path_of n j = (if 1 < n \<and> n \<le> j then j # path_of n ((j - n) div (n - 1)) else [j])"
  by pat_completeness auto
termination by (relation "measure snd") (use parent_less in auto)

declare path_of.simps [simp del]

lemma path_of_step: "1 < n \<Longrightarrow> n \<le> j \<Longrightarrow> path_of n j = j # path_of n ((j - n) div (n - 1))"
  by (subst path_of.simps) simp

lemma path_of_seed: "\<not> (1 < n \<and> n \<le> j) \<Longrightarrow> path_of n j = [j]"
  by (subst path_of.simps) auto

lemma path_induct:
  assumes "\<And>j. j < n \<Longrightarrow> P j" "\<And>j. n \<le> j \<Longrightarrow> P ((j - n) div (n - 1)) \<Longrightarrow> P j" "1 < (n::nat)"
  shows "P j"
proof (induction j rule: less_induct)
  case (less j)
  then show ?case using assms parent_less [of n j] by (cases "j < n") auto
qed

lemma path_of_length:
  assumes "1 < n"
  shows "length (path_of n j) \<le> j div n + 1"
proof (induction j rule: path_induct [OF _ _ assms])
  case (2 j)
  have "(j - n) div (n - 1) div n \<le> (j - n) div n" by (intro div_le_mono div_le_dividend)
  then have "(j - n) div (n - 1) div n + 1 \<le> j div n" using 2(1) assms by (simp add: le_div_geq)
  then show ?case using 2 assms by (simp add: path_of_step)
qed (simp add: path_of_seed)

lemma path_of_le:
  assumes "1 < n"
  shows "i \<in> set (path_of n j) \<Longrightarrow> i \<le> j"
proof (induction j rule: path_induct [OF _ _ assms])
  case (2 j)
  then show ?case using parent_less [OF assms 2(1)] assms by (auto simp: path_of_step)
qed (simp add: path_of_seed)

lemma path_of_distinct:
  assumes "1 < n"
  shows "distinct (path_of n j)"
proof (induction j rule: path_induct [OF _ _ assms])
  case (2 j)
  then show ?case using parent_less [OF assms 2(1)] path_of_le [OF assms, of j "(j - n) div (n - 1)"] assms
    by (auto simp: path_of_step)
qed (simp add: path_of_seed)

lemma path_of_0: "path_of n j ! 0 = j" "path_of n j \<noteq> []"
  by (subst path_of.simps, simp)+

lemma path_of_last:
  assumes "1 < n"
  shows "last (path_of n j) < n"
proof (induction j rule: path_induct [OF _ _ assms])
  case (2 j)
  then show ?case using path_of_0(2) assms by (simp add: path_of_step)
qed (simp add: path_of_seed)

lemma path_of_next:
  assumes "1 < n"
  shows "Suc m < length (path_of n j) \<Longrightarrow> n \<le> path_of n j ! m \<and> path_of n j ! Suc m = (path_of n j ! m - n) div (n - 1)"
proof (induction j arbitrary: m rule: path_induct [OF _ _ assms])
  case (2 j)
  then show ?case using path_of_0 [of n "(j - n) div (n - 1)"] assms by (cases m) (simp_all add: path_of_step)
qed (simp add: path_of_seed)

text \<open>The first occurrence of a line in the walk was found from a first occurrence.\<close>

definition first_occ :: "ZWalkInfo list \<Rightarrow> nat \<Rightarrow> bool" where
  "first_occ ws j \<longleftrightarrow> j < length ws \<and> (\<forall>i < j. zw_lineId (ws ! i) \<noteq> zw_lineId (ws ! j))"

lemma first_occ_parent:
  assumes ok: "walk_ok z x f ws" and ways: "1 < z_ways z" and j: "first_occ ws j" "z_ways z \<le> j"
  shows "first_occ ws ((j - z_ways z) div (z_ways z - 1))"
proof -
  define p where "p = (j - z_ways z) div (z_ways z - 1)"
  have jl: "j < length ws" using j(1) by (simp add: first_occ_def)
  have p: "p < j" "p < f" using parent_less [OF ways j(2)] walk_bounds(2) [OF ok ways jl j(2)] by (simp_all add: p_def)
  obtain w where w: "w < z_ways z" "ws ! j = z_new z (Some p) (z_addr z (ws ! p)) w" "zw_lineId (ws ! j) \<noteq> zw_lineId (ws ! p)"
    using walk_okD(3) [OF ok jl j(2)] by (auto simp: p_def)
  have line: "zw_lineId (ws ! j) = z_line z w (z_addr z (ws ! p))" "zw_parent (ws ! j) = Some p" using w(2) by (simp_all add: z_new_def)
  have "zw_lineId (ws ! i) \<noteq> zw_lineId (ws ! p)" if i: "i < p" for i
  proof
    assume same: "zw_lineId (ws ! i) = zw_lineId (ws ! p)"
    have "z_line z w (z_addr z (ws ! i)) \<noteq> zw_lineId (ws ! i)"
      using w(3) line same by simp
    then obtain j' where j': "j' < length ws" "z_ways z \<le> j'" "(j' - z_ways z) div (z_ways z - 1) = i"
        "zw_lineId (ws ! j') = z_line z w (z_addr z (ws ! i))"
      using walk_okD(4) [OF ok _ w(1), of i] i p(2) by auto
    have "j' < j"
    proof (rule ccontr)
      assume "\<not> j' < j"
      then have "p \<le> i" unfolding p_def j'(3) [symmetric] by (intro div_le_mono) simp
      then show False using i by simp
    qed
    then show False using j(1) j'(4) line(1) same by (simp add: first_occ_def)
  qed
  then show ?thesis using p(1) jl by (simp add: first_occ_def p_def)
qed

definition parents_ok :: "nat \<Rightarrow> ZWalkInfo list \<Rightarrow> bool" where
  "parents_ok n ws \<longleftrightarrow> (\<forall>j < length ws. zw_parent (ws ! j) = (if j < n then None else Some ((j - n) div (n - 1))))"

lemma walk_parents: "walk_ok z x f ws \<Longrightarrow> parents_ok (z_ways z) (take k ws)"
  unfolding parents_ok_def
proof (intro allI impI)
  fix j assume ok: "walk_ok z x f ws" and "j < length (take k ws)"
  then have j: "j < length ws" "j < k" by auto
  show "zw_parent (take k ws ! j) = (if j < z_ways z then None else Some ((j - z_ways z) div (z_ways z - 1)))"
  proof (cases "j < z_ways z")
    case True
    then show ?thesis using walk_okD(2) [OF ok True] j by (simp add: z_new_def)
  next
    case False
    then obtain w a where "ws ! j = z_new z (Some ((j - z_ways z) div (z_ways z - 1))) a w" using walk_okD(3) [OF ok j(1)] by auto
    then show ?thesis using False j by (simp add: z_new_def)
  qed
qed

lemma z_path_ok:
  assumes "parents_ok n ws" "1 < n"
  shows "j < length ws \<Longrightarrow> k + length (path_of n j) \<le> length swaps \<Longrightarrow>
    z_path ws (Some j) k swaps = Some (k + length (path_of n j),
      take k swaps @ map (\<lambda>i. zw_pos (ws ! i)) (path_of n j) @ drop (k + length (path_of n j)) swaps)"
proof (induction j arbitrary: k swaps rule: path_induct [OF _ _ assms(2)])
  case (1 j)
  then have "zw_parent (ws ! j) = None" "k < length swaps" using assms(1) by (simp_all add: parents_ok_def path_of_seed)
  then show ?case using 1 by (simp add: path_of_seed upd_conv_take_nth_drop)
next
  case (2 j)
  define p where "p = (j - n) div (n - 1)"
  have p: "p < length ws" using parent_less [OF assms(2) 2(1)] 2(3) by (simp add: p_def)
  have path: "path_of n j = j # path_of n p" using 2(1) assms(2) by (simp add: path_of_step p_def)
  have k: "k < length swaps" using 2(4) path by simp
  have "z_path ws (Some j) k swaps = z_path ws (Some p) (Suc k) (swaps[k := zw_pos (ws ! j)])"
    using 2(1,3) k assms(1) by (simp add: parents_ok_def p_def)
  also have "\<dots> = Some (Suc k + length (path_of n p), take (Suc k) (swaps[k := zw_pos (ws ! j)]) @
      map (\<lambda>i. zw_pos (ws ! i)) (path_of n p) @ drop (Suc k + length (path_of n p)) (swaps[k := zw_pos (ws ! j)]))"
    using 2(4) path p by (intro 2(2) [folded p_def]) simp_all
  finally show ?case using k by (simp add: path take_Suc_conv_app_nth)
qed

declare z_walk.simps [simp del] z_path.simps [simp del]

section \<open>Choosing the line to evict\<close>

text \<open>The moves that make room: each line on the path moves to a position that its address hashes to.\<close>

definition moves_ok :: "ZArray \<Rightarrow> address \<Rightarrow> nat \<Rightarrow> nat list \<Rightarrow> bool" where
  "moves_ok z addr i P \<longleftrightarrow> P \<noteq> [] \<and> distinct P \<and> set P \<subseteq> {..<length (z_array z)} \<and> lookupArray z ! (P ! 0) = i \<and>
     (\<forall>m. Suc m < length P \<longrightarrow> (\<exists>w < z_ways z. P ! m = zp z w (z_array z ! (lookupArray z ! (P ! Suc m))))) \<and>
     (\<exists>w < z_ways z. last P = zp z w addr)"

definition z_opened :: "ZArray \<Rightarrow> address \<Rightarrow> nat \<Rightarrow> bool" where
  "z_opened z addr i \<longleftrightarrow> 0 < swapArrayLen z \<and> swapArrayLen z \<le> length (swapArray z) \<and>
     moves_ok z addr i (take (swapArrayLen z) (swapArray z))"

lemma first_occ_path:
  assumes ok: "walk_ok z x f ws" and ways: "1 < z_ways z"
  shows "first_occ ws j \<Longrightarrow> \<forall>i \<in> set (path_of (z_ways z) j). first_occ ws i"
proof (induction j rule: path_induct [OF _ _ ways])
  case (2 j)
  then show ?case using first_occ_parent [OF ok ways 2(3,1)] ways by (simp add: path_of_step)
qed (simp add: path_of_seed)

lemma walk_moves:
  assumes z: "z_shape z" and ok: "walk_ok z x f ws" and j: "first_occ ws j"
  shows "moves_ok z x (zw_lineId (ws ! j)) (map (\<lambda>i. zw_pos (ws ! i)) (path_of (z_ways z) j))"
proof -
  define I where "I = path_of (z_ways z) j"
  have ways: "1 < z_ways z" using z by (simp add: z_shape_def)
  have occ: "first_occ ws i" if "i \<in> set I" for i using first_occ_path [OF ok ways j] that by (simp add: I_def)
  then have entry: "zw_pos (ws ! i) < length (z_array z) \<and> zw_lineId (ws ! i) = lookupArray z ! zw_pos (ws ! i)" if "i \<in> set I" for i
    using walk_entry [OF ok z] that by (auto simp: first_occ_def)
  have "zw_pos (ws ! a) \<noteq> zw_pos (ws ! b)" if "a \<in> set I" "b \<in> set I" "a \<noteq> b" for a b
    using entry [OF that(1)] entry [OF that(2)] occ [OF that(1)] occ [OF that(2)] that(3)
    by (metis first_occ_def nat_neq_iff)
  then have "inj_on (\<lambda>i. zw_pos (ws ! i)) (set I)" by (auto simp: inj_on_def)
  then have dist: "distinct (map (\<lambda>i. zw_pos (ws ! i)) I)" using path_of_distinct [OF ways] by (simp add: distinct_map I_def)
  have ne: "I \<noteq> []" "I ! 0 = j" using path_of_0 by (simp_all add: I_def)
  have step: "\<exists>w < z_ways z. zw_pos (ws ! (I ! m)) = zp z w (z_array z ! (lookupArray z ! zw_pos (ws ! (I ! Suc m))))"
    if m: "Suc m < length I" for m
  proof -
    have mem: "I ! m \<in> set I" "I ! Suc m \<in> set I" using m by simp_all
    have nxt: "z_ways z \<le> I ! m" "I ! Suc m = (I ! m - z_ways z) div (z_ways z - 1)"
      using path_of_next [OF ways, of m j] m by (simp_all add: I_def)
    obtain w where "w < z_ways z" "ws ! (I ! m) = z_new z (Some (I ! Suc m)) (z_addr z (ws ! (I ! Suc m))) w"
      using walk_okD(3) [OF ok _ nxt(1)] occ [OF mem(1)] nxt(2) by (auto simp: first_occ_def)
    then show ?thesis using entry [OF mem(2)] by (auto simp: z_new_def)
  qed
  have "last I < z_ways z" using path_of_last [OF ways] by (simp add: I_def)
  then have "zw_pos (ws ! last I) = zp z (last I) x" using walk_okD(2) [OF ok] by (simp add: z_new_def)
  then show ?thesis unfolding moves_ok_def I_def [symmetric]
    using dist ne entry step \<open>last I < z_ways z\<close> by (auto simp: last_map)
qed

lemma zp_update [simp]:
  "zp (z\<lparr>z_rp := r\<rparr>) = zp z" "zp (z\<lparr>swapArray := a\<rparr>) = zp z" "zp (z\<lparr>swapArrayLen := n\<rparr>) = zp z" "zp (z\<lparr>lastCandIdx := n\<rparr>) = zp z"
  "zp (z\<lparr>lookupArray := a\<rparr>) = zp z" "zp (z\<lparr>z_array := a\<rparr>) = zp z" "zp (z\<lparr>statSwaps := n\<rparr>) = zp z"
  by (simp_all add: fun_eq_iff zp_def z_pos_def)

lemma z_preinsert_ok:
  assumes wf: "z_wf z" and closed: "rp_closed (z_rp z)"
  shows "\<exists>i rp k swaps len. z_preinsert cc addr dyn z =
      Some (i, z_array z ! i, z\<lparr>z_rp := rp, lastCandIdx := k, swapArray := swaps, swapArrayLen := len\<rparr>) \<and>
    i < length (z_array z) \<and> length swaps = length (swapArray z) \<and> 0 < len \<and> len \<le> length swaps \<and>
    moves_ok z addr i (take len swaps) \<and> rp_wf (length (z_array z)) (z_cands z) rp \<and> \<not> rp_exact rp"
proof -
  have z: "z_shape z" "z_perm z" "z_placed z" and rp: "rp_wf (length (z_array z)) (z_cands z) (z_rp z)" "\<not> rp_exact (z_rp z)"
    using wf by (simp_all add: z_wf_def)
  have ways: "1 < z_ways z" "z_ways z \<le> z_cands z" and cap: "length (swapArray z) = z_cands z div z_ways z + 2"
    using z(1) by (simp_all add: z_shape_def)
  define seeds av where "seeds = map (z_new z None addr) [0..<z_ways z]" and "av \<longleftrightarrow> (\<forall>w < z_ways z. z_array z ! z_line z w addr \<noteq> 0)"
  have s: "foldM (z_seed addr z) [0..<z_ways z] ([], True) = Some (seeds, av)"
    using z_seeds [OF z(1,2) order_refl] by (simp add: seeds_def av_def)
  have "av \<longrightarrow> (\<forall>j < length seeds. z_addr z (seeds ! j) \<noteq> 0)" by (simp add: seeds_def av_def z_new_def)
  from z_walk_ok [OF z walk_seeded [of z addr, folded seeds_def] this] obtain f ws av'
    where w: "z_walk z 0 seeds av = Some (ws, av')" "walk_ok z addr f ws" "av' \<longrightarrow> z_cands z \<le> length ws" by blast
  define walk where "walk = take (z_cands z) ws"
  have ne: "walk \<noteq> []" using ways walk_bounds(1) [OF w(2) ways(1)] by (auto simp: walk_def)
  have entry: "zw_lineId c < length (z_array z)" if "c \<in> set walk" for c
    using that walk_entry [OF w(2) z(1)] z_perm_less [OF z(2)] in_set_takeD [of c] unfolding walk_def
    by (metis in_set_conv_nth)
  then have sub: "set (map zw_lineId walk) \<subseteq> {..<length (z_array z)}" by auto
  have len: "length (map zw_lineId walk) \<le> z_cands z" by (simp add: walk_def)
  from rp_rank_ok [OF rp(1) closed _ sub len] rp(2) ne obtain i rp' where r: "rp_rank cc (map zw_lineId walk) dyn (z_rp z) = Some (i, rp')"
    "i \<in> set (map zw_lineId walk)" "rp_wf (length (z_array z)) (z_cands z) rp'" "\<not> rp_exact rp'" by fastforce
  define k where "k = first_index (\<lambda>c. zw_lineId c = i) walk"
  have k: "k < length walk" using r(2) by (auto simp: k_def first_index_less_iff)
  then have ki: "zw_lineId (ws ! k) = i" using first_index_nth [of "\<lambda>c. zw_lineId c = i" walk] by (simp add: k_def walk_def)
  have occ: "first_occ ws k"
    using k first_index_before [of _ "\<lambda>c. zw_lineId c = i" walk] ki by (auto simp: first_occ_def k_def walk_def)
  have k2: "k < length ws" "k < z_cands z" using k by (simp_all add: walk_def)
  define P where "P = map (\<lambda>i. zw_pos (ws ! i)) (path_of (z_ways z) k)"
  have room: "length P \<le> length (swapArray z)"
    using path_of_length [OF ways(1), of k] div_le_mono [of k "z_cands z" "z_ways z"] k cap by (simp add: P_def walk_def)
  have "map (\<lambda>i. zw_pos (walk ! i)) (path_of (z_ways z) k) = P"
    using path_of_le [OF ways(1)] k by (fastforce simp: P_def walk_def)
  then have p: "z_path walk (Some k) 0 (swapArray z) = Some (length P, P @ drop (length P) (swapArray z))"
    using z_path_ok [OF walk_parents [OF w(2)] ways(1) k [unfolded walk_def], of 0 "swapArray z"] room by (simp add: walk_def P_def)
  have i: "i < length (z_array z)" using r(2) sub by blast
  have "z_preinsert cc addr dyn z = Some (i, z_array z ! i, z\<lparr>z_rp := rp', lastCandIdx := k,
      swapArray := P @ drop (length P) (swapArray z), swapArrayLen := length P\<rparr>)"
    using s w r(1) p i k k2 path_of_0(2) [of "z_ways z" k]
    by (auto simp: z_preinsert_def walk_def [symmetric] k_def [symmetric] Let_def P_def)
  moreover have "moves_ok z addr i P" using walk_moves [OF z(1) w(2) occ] ki by (simp add: P_def)
  moreover have "0 < length P" using path_of_0(2) [of "z_ways z" k] by (simp add: P_def)
  ultimately show ?thesis using i room r(3,4)
    by (intro exI [of _ i] exI [of _ rp'] exI [of _ k] exI [of _ "P @ drop (length P) (swapArray z)"] exI [of _ "length P"]) simp
qed

section \<open>Moving the lines\<close>

lemma z_swaps:
  assumes "distinct P" "set P \<subseteq> {..<length lk}" "m < length P" "\<forall>i < length P. swaps ! i = P ! i" "length P \<le> length swaps"
  shows "\<exists>lk'. foldM (z_swap swaps) [0..<m] lk = Some lk' \<and> length lk' = length lk \<and>
    (\<forall>i < m. lk' ! (P ! i) = lk ! (P ! Suc i)) \<and> (\<forall>q < length lk. q \<notin> set (take m P) \<longrightarrow> lk' ! q = lk ! q)"
  using assms(3)
proof (induction m)
  case (Suc m)
  then obtain lk' where lk': "foldM (z_swap swaps) [0..<m] lk = Some lk'" "length lk' = length lk"
    "\<forall>i < m. lk' ! (P ! i) = lk ! (P ! Suc i)" "\<forall>q < length lk. q \<notin> set (take m P) \<longrightarrow> lk' ! q = lk ! q" by auto
  have lt: "P ! i < length lk" if "i < length P" for i using assms(2) that nth_mem [OF that] by blast
  have far: "P ! Suc m \<notin> set (take m P)"
    using assms(1) Suc.prems by (auto simp: in_set_conv_nth nth_eq_iff_index_eq)
  have sw: "z_swap swaps m lk' = Some (lk'[P ! m := lk ! (P ! Suc m)])"
    using Suc.prems assms(4,5) lk' lt [of m] lt [of "Suc m"] far by (simp add: z_swap_def)
  have "foldM (z_swap swaps) [0..<Suc m] lk = Some (lk'[P ! m := lk ! (P ! Suc m)])"
    using lk'(1) sw by (simp add: foldM_append foldM_Nil)
  moreover have "\<forall>i < Suc m. lk'[P ! m := lk ! (P ! Suc m)] ! (P ! i) = lk ! (P ! Suc i)"
    using lk'(2,3) lt Suc.prems assms(1) by (auto simp: less_Suc_eq nth_list_update nth_eq_iff_index_eq)
  moreover have "\<forall>q < length lk. q \<notin> set (take (Suc m) P) \<longrightarrow> lk'[P ! m := lk ! (P ! Suc m)] ! q = lk ! q"
    using lk'(2,4) Suc.prems by (auto simp: take_Suc_conv_app_nth nth_list_update)
  ultimately show ?case using lk'(2) by auto
qed simp

text \<open>The new positions are the old ones, rotated along the path.\<close>

definition turn :: "nat list \<Rightarrow> nat \<Rightarrow> nat" where
  "turn P q = (let i = first_index (\<lambda>p. p = q) P in if i = length P then q else P ! (Suc i mod length P))"

lemma turn_nth:
  assumes "distinct P" "i < length P"
  shows "turn P (P ! i) = P ! (Suc i mod length P)"
proof -
  have "first_index (\<lambda>p. p = P ! i) P = i"
    by (rule first_index_eqI) (use assms in \<open>auto simp: nth_eq_iff_index_eq\<close>)
  then show ?thesis using assms by (simp add: turn_def)
qed

lemma turn_other: "q \<notin> set P \<Longrightarrow> turn P q = q"
  using first_index_eq_length_iff [of "\<lambda>p. p = q" P] by (auto simp: turn_def)

lemma turn_in: "distinct P \<Longrightarrow> q \<in> set P \<Longrightarrow> turn P q \<in> set P"
proof -
  assume d: "distinct P" and "q \<in> set P"
  then obtain i where i: "i < length P" "P ! i = q" by (auto simp: in_set_conv_nth)
  then have "Suc i mod length P < length P" by (intro mod_less_divisor) auto
  then show ?thesis using turn_nth [OF d i(1)] i(2) by simp
qed

lemma turn_inj:
  assumes "distinct P" "turn P p = turn P q"
  shows "p = q"
proof (cases "p \<in> set P")
  case True
  then have "q \<in> set P" using assms turn_in turn_other by metis
  with True obtain i j where ij: "i < length P" "P ! i = p" "j < length P" "P ! j = q" by (auto simp: in_set_conv_nth)
  then have "P ! (Suc i mod length P) = P ! (Suc j mod length P)" using assms turn_nth [OF assms(1)] by metis
  then have "Suc i mod length P = Suc j mod length P"
    using assms(1) ij by (subst (asm) nth_eq_iff_index_eq) (auto intro: mod_less_divisor)
  then have "i = j" using ij by (auto simp: mod_Suc split: if_splits)
  then show ?thesis using ij by simp
next
  case False
  then have "q \<notin> set P" using assms turn_in turn_other by metis
  then show ?thesis using False assms turn_other by metis
qed

lemma last_index: "Suc m = length P \<Longrightarrow> P ! m = last P"
  by (metis diff_Suc_1 last_conv_nth list.size(3) nat.distinct(1))

lemma z_moved:
  assumes "distinct P" "P \<noteq> []" "set P \<subseteq> {..<length lk}" "take (length P) swaps = P" "length P \<le> length swaps"
  shows "\<exists>lk'. foldM (z_swap swaps) [0..<length P - 1] lk = Some lk' \<and> length lk' = length lk \<and>
    (\<forall>q < length lk. lk'[last P := lk ! (P ! 0)] ! q = lk ! turn P q)"
proof -
  have sw: "\<forall>i < length P. swaps ! i = P ! i" using assms(4) by (metis nth_take)
  have "length P - 1 < length P" using assms(2) by (cases P) auto
  from z_swaps [OF assms(1,3) this sw assms(5)] obtain lk' where lk': "foldM (z_swap swaps) [0..<length P - 1] lk = Some lk'"
    "length lk' = length lk" "\<forall>i < length P - 1. lk' ! (P ! i) = lk ! (P ! Suc i)"
    "\<forall>q < length lk. q \<notin> set (take (length P - 1) P) \<longrightarrow> lk' ! q = lk ! q" by blast
  have last: "last P = P ! (length P - 1)" using assms(2) by (simp add: last_conv_nth)
  have "lk'[last P := lk ! (P ! 0)] ! q = lk ! turn P q" if q: "q < length lk" for q
  proof (cases "q \<in> set P")
    case False
    then have "q \<notin> set (take (length P - 1) P)" "q \<noteq> last P" using assms(2) in_set_takeD by fastforce+
    then show ?thesis using lk'(2,4) q False by (simp add: turn_other)
  next
    case True
    then obtain m where m: "m < length P" "q = P ! m" by (auto simp: in_set_conv_nth)
    show ?thesis
    proof (cases "Suc m < length P")
      case True
      then have "P ! m \<noteq> last P" using assms(1) m last by (simp add: nth_eq_iff_index_eq)
      then show ?thesis using lk'(3) m True turn_nth [OF assms(1) m(1)] by simp
    next
      case False
      then have "Suc m = length P" using m by simp
      then have "q = last P" "Suc m mod length P = 0" using m last_index by auto
      then show ?thesis using lk'(2) q turn_nth [OF assms(1) m(1)] m by simp
    qed
  qed
  then show ?thesis using lk' by blast
qed

lemma z_turn:
  assumes "distinct P" "set P \<subseteq> {..<n}" "q < n"
  shows "turn P q < n"
  using assms turn_in turn_other by (cases "q \<in> set P") (auto dest: subsetD)

lemma moves_ok_line:
  assumes "z_perm z" "moves_ok z addr i P"
  shows "i < length (z_array z)"
proof -
  have P: "P \<noteq> []" "set P \<subseteq> {..<length (z_array z)}" "lookupArray z ! (P ! 0) = i" using assms(2) by (simp_all add: moves_ok_def)
  have "P ! 0 \<in> set P" using P(1) by simp
  with P(2) have "P ! 0 < length (z_array z)" by blast
  then show ?thesis using P(3) z_perm_less [OF assms(1), of "P ! 0"] by simp
qed

text \<open>The array after the moves and the insertion is well formed again.\<close>

lemma z_insert_wf:
  assumes z: "z_shape z" "z_perm z" "z_placed z" "z_distinct z" and mv: "moves_ok z addr i P" and none: "z_found z addr = None" "addr \<noteq> 0"
    and lk: "length lk = length (z_array z)" "\<forall>q < length (z_array z). lk ! q = lookupArray z ! turn P q"
    and z': "z' = z\<lparr>lookupArray := lk, z_array := (z_array z)[i := addr], z_rp := rp, statSwaps := n\<rparr>"
  shows "z_shape z'" "z_perm z'" "z_placed z'" "z_distinct z'"
proof -
  have P: "distinct P" "P \<noteq> []" "set P \<subseteq> {..<length (z_array z)}" "lookupArray z ! (P ! 0) = i" using mv by (simp_all add: moves_ok_def)
  have P0: "P ! 0 < length (z_array z)" using P(2,3) by (metis length_greater_0_conv lessThan_iff nth_mem subsetD)
  have i: "i < length (z_array z)" using z_perm_less [OF z(2) P0] P(4) by simp
  show "z_shape z'" using z(1) by (simp add: z' z_shape_def)
  have inj: "p = q" if "p < length (z_array z)" "q < length (z_array z)" "lk ! p = lk ! q" for p q
    using that lk(2) z_perm_inj [OF z(2) z_turn [OF P(1,3)] z_turn [OF P(1,3)]] turn_inj [OF P(1)] by metis
  have less: "lk ! q < length (z_array z)" if "q < length (z_array z)" for q
    using lk(2) that z_perm_less [OF z(2) z_turn [OF P(1,3)]] by simp
  show "z_perm z'" using lk(1) inj less by (auto simp: z' z_perm_def distinct_conv_nth in_set_conv_nth)
  have absent: "z_array z ! j \<noteq> addr" if "j < length (z_array z)" for j
    using none z_found_iff [OF z(4) none(2), of j] that by simp
  show "z_distinct z'" using z(4) absent i by (auto simp: z' z_distinct_def nth_list_update)
  show "z_placed z'" unfolding z_placed_def
  proof (intro allI impI)
    fix q assume q0: "q < length (z_array z')" and nz: "z_array z' ! (lookupArray z' ! q) \<noteq> 0"
    have q: "q < length (z_array z)" using q0 by (simp add: z')
    have line: "lookupArray z' ! q = lookupArray z ! turn P q" using lk(2) q by (simp add: z')
    have keep: "z_array z' ! (lookupArray z' ! q) = z_array z ! (lookupArray z ! turn P q)" if "turn P q \<noteq> P ! 0"
    proof -
      have "lookupArray z ! turn P q \<noteq> i" using z_perm_inj [OF z(2) z_turn [OF P(1,3) q] P0] that P(4) by auto
      then show ?thesis using line by (simp add: z')
    qed
    have zp: "zp z' = zp z" "z_ways z' = z_ways z" by (simp_all add: z')
    show "\<exists>w < z_ways z'. q = zp z' w (z_array z' ! (lookupArray z' ! q))"
    proof (cases "q \<in> set P")
      case False
      then have "turn P q = q" "q \<noteq> P ! 0" using turn_other P(2) by fastforce+
      then show ?thesis using keep z(3) q nz unfolding zp z_placed_def by auto
    next
      case True
      then obtain m where m: "m < length P" "q = P ! m" by (auto simp: in_set_conv_nth)
      show ?thesis
      proof (cases "Suc m < length P")
        case True
        then have t: "turn P q = P ! Suc m" using turn_nth [OF P(1) m(1)] m(2) by simp
        moreover have "P ! Suc m \<noteq> P ! 0" using True P(1,2) by (subst nth_eq_iff_index_eq) auto
        ultimately show ?thesis using keep mv True m(2) unfolding zp moves_ok_def by auto
      next
        case False
        then have "Suc m = length P" using m by simp
        then have "q = last P" "turn P q = P ! 0" using m turn_nth [OF P(1) m(1)] last_index by auto
        then show ?thesis using mv line P(4) i unfolding zp moves_ok_def by (auto simp: z')
      qed
    qed
  qed
qed

lemma z_postinsert_ok:
  assumes wf: "z_wf z" and op: "z_opened z addr i" and none: "z_found z addr = None" "addr \<noteq> 0" and req: "IsGet (req_type req)"
  shows "\<exists>z'. z_postinsert addr req i dc z = Some z' \<and> z_wf z' \<and> rp_closed (z_rp z') \<and> z_array z' = (z_array z)[i := addr]"
proof -
  define P where "P = take (swapArrayLen z) (swapArray z)"
  have z: "z_shape z" "z_perm z" "z_placed z" "z_distinct z" and rp: "rp_wf (length (z_array z)) (z_cands z) (z_rp z)" "\<not> rp_exact (z_rp z)"
    using wf by (simp_all add: z_wf_def)
  have mv: "moves_ok z addr i P" and len: "0 < swapArrayLen z" "swapArrayLen z \<le> length (swapArray z)" "length P = swapArrayLen z"
    using op by (auto simp: z_opened_def P_def)
  have P: "distinct P" "P \<noteq> []" "set P \<subseteq> {..<length (lookupArray z)}" "lookupArray z ! (P ! 0) = i"
    using mv z(2) by (simp_all add: moves_ok_def z_perm_def)
  have Pl: "P ! 0 < length (lookupArray z)" "last P < length (lookupArray z)"
    using P(2,3) by (metis length_greater_0_conv lessThan_iff nth_mem subsetD, metis last_in_set lessThan_iff subsetD)
  note i = moves_ok_line [OF z(2) mv]
  obtain lk where lk: "foldM (z_swap (swapArray z)) [0..<length P - 1] (lookupArray z) = Some lk" "length lk = length (lookupArray z)"
    "\<forall>q < length (lookupArray z). lk[last P := lookupArray z ! (P ! 0)] ! q = lookupArray z ! turn P q"
    using z_moved [OF P(1-3), of "swapArray z"] len by (auto simp: P_def)
  have ends: "swapArray z ! 0 = P ! 0" "swapArray z ! (swapArrayLen z - 1) = last P"
    using len P(2) by (auto simp: P_def last_conv_nth)
  from rp_replaced_ok [OF rp(1) i] obtain rp1 where 1: "rp_replaced i (z_rp z) = Some rp1"
    "rp_wf (length (z_array z)) (z_cands z) rp1" "rp_closed rp1" "\<not> rp_exact rp1" using rp(2) by auto
  from rp_update_ok [OF 1(2) i req] obtain rp2 where 2: "rp_update i req dc rp1 = Some rp2"
    "rp_wf (length (z_array z)) (z_cands z) rp2" "rp_closed rp2" "\<not> rp_exact rp2" using 1(3,4) by auto
  define z' where "z' = z\<lparr>lookupArray := lk[last P := i], z_array := (z_array z)[i := addr], z_rp := rp2,
    statSwaps := statSwaps z + (swapArrayLen z - 1)\<rparr>"
  have "z_postinsert addr req i dc z = Some z'"
    using len ends lk(1,2) Pl P(4) i 1(1) 2(1) less_le_trans [OF len(1,2)] by (simp add: z_postinsert_def z'_def)
  moreover have "z_wf z'"
    using z_insert_wf [OF z mv none _ _ z'_def] lk(2,3) P(4) z(2) 2(2,4)
    by (simp add: z_wf_def z'_def z_perm_def)
  ultimately show ?thesis using 2(3) by (simp add: z'_def)
qed

section \<open>The interface\<close>

definition z_closed :: "ZArray \<Rightarrow> bool" where "z_closed z \<longleftrightarrow> rp_closed (z_rp z)"
definition z_tag :: "ZArray \<Rightarrow> nat \<Rightarrow> address" where
  "z_tag z i = (if i < length (z_array z) then z_array z ! i else 0)"
definition z_lines :: "ZArray \<Rightarrow> nat" where "z_lines z = length (z_array z)"

lemma z_lookup_quiet: "z_wf z \<Longrightarrow> addr \<noteq> 0 \<Longrightarrow> z_lookup addr req False dc z = Some (z_found z addr, z)"
  using z_search_ok [of z addr] by (cases "z_found z addr") (auto simp: z_lookup_def)

lemma z_wf_update:
  assumes "z_wf z" "rp_wf (length (z_array z)) (z_cands z) rp" "\<not> rp_exact rp" "length swaps = length (swapArray z)"
  shows "z_wf (z\<lparr>z_rp := rp, lastCandIdx := k, swapArray := swaps, swapArrayLen := len\<rparr>)"
proof -
  let ?z = "z\<lparr>z_rp := rp, lastCandIdx := k, swapArray := swaps, swapArrayLen := len\<rparr>"
  have "z_shape ?z = z_shape z" "z_perm ?z = z_perm z" "z_placed ?z = z_placed z" "z_distinct ?z = z_distinct z"
    using assms(4) by (simp_all only: z_shape_def z_perm_def z_placed_def z_distinct_def) simp_all
  then show ?thesis using assms(1-3) by (simp add: z_wf_def)
qed

lemma z_wf_rp:
  assumes "z_wf z" "rp_wf (length (z_array z)) (z_cands z) rp" "\<not> rp_exact rp"
  shows "z_wf (z\<lparr>z_rp := rp\<rparr>)"
  using z_wf_update [OF assms refl, where k = "lastCandIdx z" and len = "swapArrayLen z"] by simp

lemma moves_ok_update:
  "moves_ok (z\<lparr>z_rp := rp, lastCandIdx := k, swapArray := swaps, swapArrayLen := len\<rparr>) = moves_ok z"
  by (intro ext) (simp add: moves_ok_def)

lemma z_lookup_update:
  assumes wf: "z_wf z" "addr \<noteq> 0" and req: "IsGet (req_type req)"
  shows "\<exists>rp. z_lookup addr (Some req) True dc z = Some (z_found z addr, z\<lparr>z_rp := rp\<rparr>) \<and> z_wf (z\<lparr>z_rp := rp\<rparr>) \<and>
    rp_closed rp = rp_closed (z_rp z)"
proof (cases "z_found z addr")
  case None
  then show ?thesis using z_search_ok [OF wf] wf by (intro exI [of _ "z_rp z"]) (simp add: z_lookup_def)
next
  case (Some i)
  have d: "z_distinct z" and rp: "rp_wf (length (z_array z)) (z_cands z) (z_rp z)" "\<not> rp_exact (z_rp z)" using wf(1) by (simp_all add: z_wf_def)
  have "i < length (z_array z)" using Some z_found_iff [OF d wf(2)] by simp
  from rp_update_ok [OF rp(1) this req, of dc] obtain rp' where "rp_update i req dc (z_rp z) = Some rp'"
    "rp_wf (length (z_array z)) (z_cands z) rp'" "rp_closed rp' = rp_closed (z_rp z)" "\<not> rp_exact rp'" using rp(2) by auto
  then show ?thesis using z_search_ok [OF wf] Some wf z_wf_rp [OF wf(1)] by (intro exI [of _ rp']) (simp add: z_lookup_def)
qed

interpretation zc: cache_array z_lookup z_preinsert z_postinsert z_found z_tag z_lines z_wf z_closed z_opened
proof
  fix z :: ZArray and addr :: address and i :: nat and oreq :: "MemReq option" and req :: MemReq and dc dyn :: bool and cc
  assume wf: "z_wf z" and addr: "addr \<noteq> 0"
  have d: "z_distinct z" using wf by (simp add: z_wf_def)
  show "i < z_lines z \<and> z_tag z i = addr" if "z_found z addr = Some i"
    using that z_found_iff [OF d addr] by (simp add: z_lines_def z_tag_def)
  show "\<exists>a'. z_lookup addr oreq False dc z = Some (z_found z addr, a') \<and> z_wf a' \<and> z_found a' = z_found z \<and> z_tag a' = z_tag z \<and>
      z_lines a' = z_lines z \<and> z_closed a' = z_closed z \<and> z_opened a' = z_opened z"
    using z_lookup_quiet [OF wf addr] wf by simp
  show "\<exists>a'. z_lookup addr (Some req) True dc z = Some (z_found z addr, a') \<and> z_wf a' \<and> z_closed a' \<and> z_found a' = z_found z \<and>
      z_tag a' = z_tag z \<and> z_lines a' = z_lines z" if "z_closed z" "IsGet (req_type req)"
    using z_lookup_update [OF wf addr that(2), of dc] that(1)
    by (auto simp: z_closed_def z_found_def z_tag_def z_lines_def fun_eq_iff)
  show "\<exists>i a'. z_preinsert cc addr dyn z = Some (i, z_tag z i, a') \<and> i < z_lines z \<and> z_wf a' \<and> z_opened a' addr i \<and>
      z_found a' = z_found z \<and> z_tag a' = z_tag z \<and> z_lines a' = z_lines z" if cl: "z_closed z" and "z_found z addr = None"
  proof -
    obtain i rp k swaps len where p: "z_preinsert cc addr dyn z =
        Some (i, z_array z ! i, z\<lparr>z_rp := rp, lastCandIdx := k, swapArray := swaps, swapArrayLen := len\<rparr>)"
      "i < length (z_array z)" "length swaps = length (swapArray z)" "0 < len" "len \<le> length swaps" "moves_ok z addr i (take len swaps)"
      "rp_wf (length (z_array z)) (z_cands z) rp" "\<not> rp_exact rp"
      using z_preinsert_ok [OF wf cl [unfolded z_closed_def], of cc addr dyn] by blast
    then show ?thesis using z_wf_update [OF wf p(7,8,3)]
      by (intro exI [of _ i] exI [of _ "z\<lparr>z_rp := rp, lastCandIdx := k, swapArray := swaps, swapArrayLen := len\<rparr>"])
        (simp add: z_tag_def z_lines_def z_found_def fun_eq_iff z_opened_def moves_ok_update)
  qed
  show "\<exists>a'. z_postinsert addr req i dc z = Some a' \<and> z_wf a' \<and> z_closed a' \<and> z_found a' addr = Some i \<and> z_tag a' = (z_tag z)(i := addr) \<and>
      z_lines a' = z_lines z \<and> (\<forall>y j. y \<noteq> 0 \<longrightarrow> y \<noteq> addr \<longrightarrow> z_found z y = Some j \<longrightarrow> j \<noteq> i \<longrightarrow> z_found a' y = Some j)"
    if op: "z_opened z addr i" and none: "z_found z addr = None" and req: "IsGet (req_type req)"
  proof -
    obtain z' where z': "z_postinsert addr req i dc z = Some z'" "z_wf z'" "rp_closed (z_rp z')" "z_array z' = (z_array z)[i := addr]"
      using z_postinsert_ok [OF wf op none addr req] by blast
    have d': "z_distinct z'" using z'(2) by (simp add: z_wf_def)
    have i: "i < length (z_array z)" using moves_ok_line op wf by (auto simp: z_wf_def z_opened_def)
    then have "z_found z' addr = Some i" using z_found_iff [OF d' addr] z'(4) by simp
    moreover have "z_found z' y = Some j" if "y \<noteq> 0" "z_found z y = Some j" "j \<noteq> i" for y j
      using that z_found_iff [OF d' that(1)] z_found_iff [OF d that(1)] z'(4) by simp
    ultimately show ?thesis using z' i by (auto simp: z_closed_def z_tag_def z_lines_def fun_eq_iff nth_list_update)
  qed
qed

section \<open>Properties\<close>

lemma ZArray_new_parts:
  assumes "ZArray_new n ways cands rp hf = Some z"
  shows "1 < ways" "ways \<le> cands" "n = ways * (n div ways)" "0 < n div ways"
    "z = \<lparr>z_array = replicate n 0, lookupArray = [0..<n], z_rp = rp, z_hf = hf, z_numSets = n div ways, z_ways = ways, z_cands = cands,
      z_setMask = n div ways - 1, swapArray = replicate (cands div ways + 2) 0, swapArrayLen = 0, lastCandIdx = 0, statSwaps = 0\<rparr>"
  using assms by (auto simp: ZArray_new_def isPow2_def Let_def)

lemma ZArray_new_shape:
  assumes "ZArray_new n ways cands rp hf = Some z" "hf_ok ways hf"
  shows "z_shape z" "z_perm z" "z_placed z" "z_distinct z"
proof -
  note p = ZArray_new_parts [OF assms(1)]
  show "z_shape z" "z_perm z" "z_placed z" "z_distinct z"
    using assms(2) p(1,2,4) p(3) [symmetric] unfolding p(5) z_shape_def z_perm_def z_placed_def z_distinct_def by auto
qed

lemma ZArray_new_wf:
  assumes "ZArray_new n ways cands rp hf = Some z" "hf_ok ways hf" "rp_wf n cands rp" "rp_closed rp" "\<not> rp_exact rp"
  shows "z_wf z" "z_closed z" "z_lines z = n" "addr \<noteq> 0 \<Longrightarrow> z_found z addr = None"
proof -
  note p = ZArray_new_parts [OF assms(1)] and s = ZArray_new_shape [OF assms(1,2)]
  show "z_wf z" using s assms(3,5) p(5) by (simp add: z_wf_def)
  show "z_closed z" "z_lines z = n" using assms(4) p(5) by (simp_all add: z_closed_def z_lines_def)
  have "z_array z = replicate n 0" using p(5) by simp
  then have "\<not> (i < length (z_array z) \<and> z_array z ! i = addr)" if "addr \<noteq> 0" for i using that by auto
  then show "z_found z addr = None" if "addr \<noteq> 0"
    using z_found_iff [OF s(4) that] that by (cases "z_found z addr") blast+
qed

text \<open>
  C19. Replacement in a zcache: the walk over the candidates ends and stays inside its arrays, the path of moves fits into
  \<open>swapArray\<close>, and after the moves the new address is found in the line that was chosen, while every address that was
  found before, except that of the evicted line, is still found in its line.
\<close>

theorem zcache_insert_lookup:
  assumes "z_wf z" "z_closed z" "addr \<noteq> 0" "z_found z addr = None" "IsGet (req_type req)"
  shows "\<exists>i z1 z2 z3. z_preinsert cc addr dyn z = Some (i, z_tag z i, z1) \<and> z_postinsert addr req i dc z1 = Some z2 \<and>
    z_lookup addr None False dc' z2 = Some (Some i, z3) \<and> i < z_lines z \<and> z_wf z2 \<and> z_closed z2 \<and>
    (\<forall>y j. y \<noteq> 0 \<longrightarrow> y \<noteq> z_tag z i \<longrightarrow> z_found z y = Some j \<longrightarrow> z_found z2 y = Some j)"
  by (rule zc.insert_lookup [OF assms])

definition demo_h3 :: HashFamily where
  "demo_h3 = H3 \<lparr>numFuncs = 4, resShift = 3, hMatrix = replicate 32 0x123456789ABCDEF\<rparr>"

theorem zcache_insert_lookup_witness:
  "\<exists>z i z1 z2 z3. ZArray_new 16 4 16 (LRURepl (LRU_new True 16)) demo_h3 = Some z \<and>
    z_preinsert demo_view 77 False z = Some (i, z_tag z i, z1) \<and> z_postinsert 77 (demo_get 77) i False z1 = Some z2 \<and>
    z_lookup 77 None False False z2 = Some (Some i, z3)"
proof -
  have "4 AND (3 :: nat) = 0" by simp
  then obtain z where z: "ZArray_new 16 4 16 (LRURepl (LRU_new True 16)) demo_h3 = Some z"
    by (simp add: ZArray_new_def isPow2_def)
  have "hf_ok 4 demo_h3" "rp_wf 16 16 (LRURepl (LRU_new True 16))" "rp_closed (LRURepl (LRU_new True 16))" "\<not> rp_exact (LRURepl (LRU_new True 16))"
    by (simp_all add: hf_ok_def demo_h3_def h3_ok_def rp_wf_def lru_wf_def rp_closed_def rp_exact_def LRU_new_def)
  note wf = ZArray_new_wf [OF z this]
  show ?thesis
    using zcache_insert_lookup [OF wf(1,2) _ wf(4), of 77 "demo_get 77" demo_view False False False] z
    by (auto simp: demo_get_def IsGet_def)
qed

lemma rand_records_count:
  "foldM rand_record cands p = Some p' \<Longrightarrow>
   rand_candIdx p' = rand_candIdx p + length cands \<and> length (rand_candArray p') = length (rand_candArray p)"
proof (induction cands arbitrary: p)
  case (Cons c cands)
  then obtain q where q: "rand_record c p = Some q" "foldM rand_record cands q = Some p'" by (auto simp: bind_eq_Some_conv)
  have "rand_candIdx q = Suc (rand_candIdx p)" "length (rand_candArray q) = length (rand_candArray p)"
    using q(1) by (auto simp: rand_record_def bind_eq_Some_conv)
  then show ?case using Cons.IH [OF q(2)] by simp
qed simp

text \<open>
  C24. Random replacement cannot be used with a zcache that has more candidates than ways: in a new zcache the walk stops at
  the first unused line, and the policy, which insists on the full number of candidates, fails its assertion on the first
  insertion.
\<close>

theorem zcache_random_aborts:
  assumes "ZArray_new n ways cands (RandReplPolicy p) hf = Some z" "hf_ok ways hf"
    and "length (rand_candArray p) = cands" "rand_candIdx p = 0" "ways < cands"
  shows "z_preinsert cc addr dyn z = None"
proof -
  note z = ZArray_new_parts [OF assms(1)] and s = ZArray_new_shape [OF assms(1,2)]
  have f: "z_array z = replicate n 0" "z_ways z = ways" "z_cands z = cands" "z_rp z = RandReplPolicy p" using z(5) by simp_all
  define seeds where "seeds = map (z_new z None addr) [0..<ways]"
  have "z_array z ! z_line z 0 addr = 0" using z_at(3) [OF s(1,2), of 0 addr] z(1) f by simp
  then have "\<not> (\<forall>w < z_ways z. z_array z ! z_line z w addr \<noteq> 0)" using z(1) f(2) by force
  then have "foldM (z_seed addr z) [0..<z_ways z] ([], True) = Some (seeds, False)"
    using z_seeds [OF s(1,2) order_refl, of addr] f(2) by (simp only: seeds_def simp_thms)
  moreover have "z_walk z 0 seeds False = Some (seeds, False)" by (simp add: z_walk.simps)
  moreover have "rp_rank cc (map zw_lineId seeds) dyn (RandReplPolicy p) = None"
    using rand_records_count [of "map zw_lineId seeds" p] assms(3-5)
    by (cases "foldM rand_record (map zw_lineId seeds) p") (auto simp: rp_rank_def rand_best_def seeds_def assert_that_def)
  moreover have "take (z_cands z) seeds = seeds" using assms(5) f by (simp add: seeds_def)
  ultimately show ?thesis using f(4) by (simp add: z_preinsert_def)
qed

theorem zcache_random_aborts_witness:
  "\<exists>z. ZArray_new 16 4 16 (RandReplPolicy (RandRepl_new 16 0 \<lparr>mt_state = replicate mt_N 0, mt_next = 0, mt_left = 0\<rparr>)) demo_h3 = Some z \<and>
    z_preinsert demo_view 77 False z = None"
proof -
  have "4 AND (3 :: nat) = 0" by simp
  then obtain z where z: "ZArray_new 16 4 16 (RandReplPolicy (RandRepl_new 16 0 \<lparr>mt_state = replicate mt_N 0, mt_next = 0, mt_left = 0\<rparr>)) demo_h3 = Some z"
    by (simp add: ZArray_new_def isPow2_def)
  have "hf_ok 4 demo_h3" by (simp add: hf_ok_def demo_h3_def h3_ok_def)
  then have "z_preinsert demo_view 77 False z = None"
    by (rule zcache_random_aborts [OF z]) (simp_all add: RandRepl_new_def)
  then show ?thesis using z by blast
qed

end
