(* ===== verification/Coherence.thy ===== *)
theory Coherence
  imports Dram Zcache
begin

text \<open>
  Caches and their MESI controllers (\<open>src/src/coherence_ctrls.h\<close>, \<open>src/src/coherence_ctrls.cpp\<close>, \<open>src/src/cache.h\<close>,
  \<open>src/src/cache.cpp\<close>).

  The caches are objects in a store, numbered; a parent is another cache or a memory.  A controller has a bottom part, the
  states of the lines towards the upper levels, and a top part, a directory of the copies in the lower levels, which a terminal
  controller lacks.  A request carries a pointer to the state of the requester's line: a cell of another cache, or a local
  variable of a core.  Locks are left out: an access runs as a whole.

  \<open>access\<close> and \<open>invalidate\<close> are virtual and call each other through the hierarchy.  The operations of the controllers take
  the two calls as arguments, and the knot is tied at the end with a bound on the depth of the calls.
\<close>

section \<open>Arrays\<close>

text \<open>The subclasses of \<open>CacheArray\<close>.\<close>

datatype CacheArray = SetAssoc SetAssocArray | ZCache ZArray

fun ca_lookup :: "address \<Rightarrow> MemReq option \<Rightarrow> bool \<Rightarrow> bool \<Rightarrow> CacheArray \<Rightarrow> (nat option \<times> CacheArray) option" where
  "ca_lookup addr req upd dc (SetAssoc a) = do { (i, a) \<leftarrow> sa_lookup addr req upd dc a; Some (i, SetAssoc a) }"
| "ca_lookup addr req upd dc (ZCache z) = do { (i, z) \<leftarrow> z_lookup addr req upd dc z; Some (i, ZCache z) }"

fun ca_preinsert :: "cc_view \<Rightarrow> address \<Rightarrow> bool \<Rightarrow> CacheArray \<Rightarrow> (nat \<times> address \<times> CacheArray) option" where
  "ca_preinsert cc addr dyn (SetAssoc a) = do { (i, wb, a) \<leftarrow> sa_preinsert cc addr dyn a; Some (i, wb, SetAssoc a) }"
| "ca_preinsert cc addr dyn (ZCache z) = do { (i, wb, z) \<leftarrow> z_preinsert cc addr dyn z; Some (i, wb, ZCache z) }"

fun ca_postinsert :: "address \<Rightarrow> MemReq \<Rightarrow> nat \<Rightarrow> bool \<Rightarrow> CacheArray \<Rightarrow> CacheArray option" where
  "ca_postinsert addr req i dc (SetAssoc a) = do { a \<leftarrow> sa_postinsert addr req i dc a; Some (SetAssoc a) }"
| "ca_postinsert addr req i dc (ZCache z) = do { z \<leftarrow> z_postinsert addr req i dc z; Some (ZCache z) }"

section \<open>The store\<close>

datatype MemObj = CacheObj nat | MainMem nat

record Uplink =
  parents :: "MemObj list"
  parentRTTs :: "nat list"
  selfId :: nat
  b_nonInclusiveHack :: bool

record BccProf =
  profGETSHit :: nat
  profGETSMiss :: nat
  profGETXHit :: nat
  profGETXMissIM :: nat
  profGETXMissSM :: nat
  profPUTS :: nat
  profPUTX :: nat
  profINV :: nat
  profINVX :: nat
  profFWD :: nat
  profGETNextLevelLat :: nat
  profGETNetLat :: nat

record MESIBottomCC =
  b_link :: Uplink
  b_array :: "MESIState list"
  b_prof :: BccProf

record Entry =
  numSharers :: nat
  sharers :: "nat set"
  exclusive :: bool

record Downlink =
  children :: "nat list"
  childrenRTTs :: "nat list"
  t_nonInclusiveHack :: bool

record MESITopCC =
  t_link :: Downlink
  t_array :: "Entry list"

text \<open>\<open>MESICC\<close> has a top controller, \<open>MESITerminalCC\<close> has none.\<close>

record Cache =
  tcc :: "MESITopCC option"
  bcc :: MESIBottomCC
  arr :: CacheArray
  accLat :: nat
  invLat :: nat

record 'm world =
  caches :: "nat \<Rightarrow> Cache"
  numCaches :: nat
  mem :: 'm
  bnd :: bound

record InvReq =
  inv_addr :: address
  inv_type :: InvType
  inv_cycle :: cyc
  inv_srcId :: nat

datatype state_ptr = Local MESIState | Cell nat nat

type_synonym 'm acc_call = "MemObj \<Rightarrow> state_ptr \<Rightarrow> MemReq \<Rightarrow> 'm world \<Rightarrow> (cyc \<times> 'm world) option"
type_synonym 'm inv_call = "nat \<Rightarrow> InvReq \<Rightarrow> bool \<Rightarrow> 'm world \<Rightarrow> (cyc \<times> bool \<times> 'm world) option"

definition upd_cache :: "nat \<Rightarrow> (Cache \<Rightarrow> Cache) \<Rightarrow> 'm world \<Rightarrow> 'm world" where
  "upd_cache c f w = w\<lparr>caches := (caches w)(c := f (caches w c))\<rparr>"

definition line_state :: "nat \<Rightarrow> nat \<Rightarrow> 'm world \<Rightarrow> MESIState option" where
  "line_state c i w = elem_at (b_array (bcc (caches w c))) i"

definition set_line :: "nat \<Rightarrow> nat \<Rightarrow> MESIState \<Rightarrow> 'm world \<Rightarrow> 'm world" where
  "set_line c i s = upd_cache c (\<lambda>ch. ch\<lparr>bcc := (bcc ch)\<lparr>b_array := (b_array (bcc ch))[i := s]\<rparr>\<rparr>)"

definition prof :: "nat \<Rightarrow> (BccProf \<Rightarrow> BccProf) \<Rightarrow> 'm world \<Rightarrow> 'm world" where
  "prof c f = upd_cache c (\<lambda>ch. ch\<lparr>bcc := (bcc ch)\<lparr>b_prof := f (b_prof (bcc ch))\<rparr>\<rparr>)"

definition entry_at :: "nat \<Rightarrow> nat \<Rightarrow> 'm world \<Rightarrow> Entry option" where
  "entry_at c i w = do { t \<leftarrow> tcc (caches w c); elem_at (t_array t) i }"

definition set_entry :: "nat \<Rightarrow> nat \<Rightarrow> Entry \<Rightarrow> 'm world \<Rightarrow> 'm world" where
  "set_entry c i e = upd_cache c (\<lambda>ch. ch\<lparr>tcc := map_option (\<lambda>t. t\<lparr>t_array := (t_array t)[i := e]\<rparr>) (tcc ch)\<rparr>)"

text \<open>The pointer \<open>req.state\<close>; what is written to a local variable of a core is not read again.\<close>

fun read_ptr :: "state_ptr \<Rightarrow> 'm world \<Rightarrow> MESIState option" where
  "read_ptr (Local s) w = Some s"
| "read_ptr (Cell c i) w = line_state c i w"

fun write_ptr :: "state_ptr \<Rightarrow> MESIState \<Rightarrow> 'm world \<Rightarrow> 'm world" where
  "write_ptr (Local _) s w = w"
| "write_ptr (Cell c i) s w = set_line c i s w"

section \<open>The directory entries\<close>

definition Entry_clear :: Entry where
  "Entry_clear = \<lparr>numSharers = 0, sharers = {}, exclusive = False\<rparr>"

definition isEmpty :: "Entry \<Rightarrow> bool" where
  "isEmpty e \<longleftrightarrow> numSharers e = 0"

definition e_isExclusive :: "Entry \<Rightarrow> bool" where
  "e_isExclusive e \<longleftrightarrow> numSharers e = 1 \<and> exclusive e"

definition add_sharer :: "nat \<Rightarrow> Entry \<Rightarrow> Entry" where
  "add_sharer k e = e\<lparr>sharers := insert k (sharers e), numSharers := numSharers e + 1\<rparr>"

definition drop_sharer :: "nat \<Rightarrow> Entry \<Rightarrow> Entry" where
  "drop_sharer k e = e\<lparr>sharers := sharers e - {k}, numSharers := numSharers e - 1\<rparr>"

section \<open>Initialisation\<close>

definition MESIBottomCC_new :: "nat \<Rightarrow> nat \<Rightarrow> bool \<Rightarrow> MESIBottomCC" where
  "MESIBottomCC_new numLines self hack =
     \<lparr>b_link = \<lparr>parents = [], parentRTTs = [], selfId = self, b_nonInclusiveHack = hack\<rparr>, b_array = replicate numLines StI,
      b_prof = \<lparr>profGETSHit = 0, profGETSMiss = 0, profGETXHit = 0, profGETXMissIM = 0, profGETXMissSM = 0, profPUTS = 0, profPUTX = 0,
        profINV = 0, profINVX = 0, profFWD = 0, profGETNextLevelLat = 0, profGETNetLat = 0\<rparr>\<rparr>"

text \<open>The round-trip times come from the network, if there is one.\<close>

definition bcc_init :: "MemObj list \<Rightarrow> (MemObj \<Rightarrow> nat) option \<Rightarrow> MESIBottomCC \<Rightarrow> MESIBottomCC" where
  "bcc_init ps network b =
     b\<lparr>b_link := (b_link b)\<lparr>parents := ps, parentRTTs := map (\<lambda>p. case network of None \<Rightarrow> 0 | Some rtt \<Rightarrow> rtt p) ps\<rparr>\<rparr>"

definition MESITopCC_new :: "nat \<Rightarrow> bool \<Rightarrow> MESITopCC" where
  "MESITopCC_new numLines hack =
     \<lparr>t_link = \<lparr>children = [], childrenRTTs = [], t_nonInclusiveHack = hack\<rparr>, t_array = replicate numLines Entry_clear\<rparr>"

definition MAX_CACHE_CHILDREN :: nat where "MAX_CACHE_CHILDREN = 256"

definition tcc_init :: "nat list \<Rightarrow> (MemObj \<Rightarrow> nat) option \<Rightarrow> MESITopCC \<Rightarrow> MESITopCC option" where
  "tcc_init cs network t = do {
     assert_that (length cs \<le> MAX_CACHE_CHILDREN);
     Some (t\<lparr>t_link := (t_link t)\<lparr>children := cs,
       childrenRTTs := map (\<lambda>c. case network of None \<Rightarrow> 0 | Some rtt \<Rightarrow> rtt (CacheObj c)) cs\<rparr>\<rparr>) }"

definition setParents :: "nat \<Rightarrow> nat \<Rightarrow> bool \<Rightarrow> MemObj list \<Rightarrow> (MemObj \<Rightarrow> nat) option \<Rightarrow> Cache \<Rightarrow> Cache" where
  "setParents numLines self hack ps network ch = ch\<lparr>bcc := bcc_init ps network (MESIBottomCC_new numLines self hack)\<rparr>"

definition setChildren :: "nat \<Rightarrow> bool \<Rightarrow> nat list \<Rightarrow> (MemObj \<Rightarrow> nat) option \<Rightarrow> Cache \<Rightarrow> Cache option" where
  "setChildren numLines hack cs network ch = do {
     t \<leftarrow> tcc_init cs network (MESITopCC_new numLines hack);
     Some (ch\<lparr>tcc := Some t\<rparr>) }"

section \<open>The bottom controller\<close>

unbundle bit_operations_syntax

text \<open>The bank of a line: an exclusive or of the four 16-bit parts of the address.\<close>

fun fold_address :: "nat \<Rightarrow> 64 word \<Rightarrow> 64 word \<Rightarrow> 64 word" where
  "fold_address 0 res tmp = res"
| "fold_address (Suc n) res tmp = fold_address n (res XOR (0xffff AND tmp)) (drop_bit 16 tmp)"

definition getParentId :: "address \<Rightarrow> nat \<Rightarrow> nat option" where
  "getParentId addr n = do {
     assert_that (n \<noteq> 0);
     Some (unat (fold_address 4 0 (of_nat addr)) mod n) }"

text \<open>
  A request from line \<open>i\<close> of cache \<open>c\<close> to the parent of the address.
\<close>

definition ask_parent ::
    "'m acc_call \<Rightarrow> nat \<Rightarrow> nat \<Rightarrow> address \<Rightarrow> AccessType \<Rightarrow> state_ptr \<Rightarrow> cyc \<Rightarrow> nat \<Rightarrow> flags \<Rightarrow> 'm world \<Rightarrow> (cyc \<times> nat \<times> 'm world) option" where
  "ask_parent acc c self addr ty ptr cyc src flags w = do {
     let link = b_link (bcc (caches w c));
     parentId \<leftarrow> getParentId addr (length (parents link));
     parent \<leftarrow> elem_at (parents link) parentId;
     s \<leftarrow> read_ptr ptr w;
     (resp, w) \<leftarrow> acc parent ptr
       \<lparr>lineAddr = addr, req_type = ty, childId = self, req_state = s, cycle = cyc, initialState = s, srcId = src, req_flags = flags\<rparr> w;
     Some (resp, parentId, w) }"

definition bcc_processEviction ::
    "'m acc_call \<Rightarrow> nat \<Rightarrow> address \<Rightarrow> nat \<Rightarrow> bool \<Rightarrow> cyc \<Rightarrow> nat \<Rightarrow> 'm world \<Rightarrow> (cyc \<times> 'm world) option" where
  "bcc_processEviction acc c wbLineAddr i lowerLevelWriteback cyc src w = do {
     let self = selfId (b_link (bcc (caches w c)));
     s \<leftarrow> line_state c i w;
     w \<leftarrow> (if lowerLevelWriteback
           then do { assert_that (s = StM \<or> s = StE); Some (set_line c i StM w) }
           else Some w);
     s \<leftarrow> line_state c i w;
     (respCycle, w) \<leftarrow>
       (if s = StI then Some (cyc, w)
        else do {
          (resp, _, w) \<leftarrow> ask_parent acc c self wbLineAddr (if s = StM then PUTX else PUTS) (Cell c i) cyc src 0 w;
          Some (resp, w) });
     s \<leftarrow> line_state c i w;
     assert_that (s = StI);
     Some (respCycle, w) }"

text \<open>
  The latency of the next level is a 32-bit difference, and so is its sum with the latency of the network.
\<close>

definition sub32 :: "cyc \<Rightarrow> cyc \<Rightarrow> nat" where
  "sub32 a b = nat ((int a - int b) mod 2 ^ 32)"

definition fetch ::
    "'m acc_call \<Rightarrow> nat \<Rightarrow> address \<Rightarrow> nat \<Rightarrow> AccessType \<Rightarrow> cyc \<Rightarrow> nat \<Rightarrow> flags \<Rightarrow> 'm world \<Rightarrow> (cyc \<times> 'm world) option" where
  "fetch acc c addr i ty cyc src flags w = do {
     (resp, parentId, w) \<leftarrow> ask_parent acc c (selfId (b_link (bcc (caches w c)))) addr ty (Cell c i) cyc src flags w;
     let nextLevelLat = sub32 resp cyc;
     netLat \<leftarrow> elem_at (parentRTTs (b_link (bcc (caches w c)))) parentId;
     Some (cyc + u32 (nextLevelLat + netLat),
       prof c (profGETNextLevelLat_update ((+) nextLevelLat) \<circ> profGETNetLat_update ((+) netLat)) w) }"

definition bcc_processAccess ::
    "'m acc_call \<Rightarrow> nat \<Rightarrow> address \<Rightarrow> nat \<Rightarrow> AccessType \<Rightarrow> cyc \<Rightarrow> nat \<Rightarrow> flags \<Rightarrow> 'm world \<Rightarrow> (cyc \<times> 'm world) option" where
  "bcc_processAccess acc c addr i ty cyc src flags w = do {
     s \<leftarrow> line_state c i w;
     (respCycle, w) \<leftarrow>
       (case ty of
          PUTS \<Rightarrow> do { assert_that (s \<noteq> StI); Some (cyc, prof c (profPUTS_update Suc) w) }
        | PUTX \<Rightarrow> do {
            assert_that (s = StM \<or> s = StE);
            Some (cyc, prof c (profPUTX_update Suc) (if s = StE then set_line c i StM w else w)) }
        | GETS \<Rightarrow>
            if s = StI
            then do {
              (resp, w) \<leftarrow> fetch acc c addr i GETS cyc src flags w;
              s \<leftarrow> line_state c i w;
              assert_that (s = StS \<or> s = StE);
              Some (resp, prof c (profGETSMiss_update Suc) w) }
            else Some (cyc, prof c (profGETSHit_update Suc) w)
        | GETX \<Rightarrow> do {
            (resp, w) \<leftarrow>
              (if s = StI \<or> s = StS
               then fetch acc c addr i GETX cyc src flags
                      (prof c (if s = StI then profGETXMissIM_update Suc else profGETXMissSM_update Suc) w)
               else Some (cyc, prof c (profGETXHit_update Suc) (if s = StE then set_line c i StM w else w)));
            s \<leftarrow> line_state c i w;
            assert_that (s = StM);
            Some (resp, w) });
     assert_that (cyc \<le> respCycle);
     Some (respCycle, w) }"

definition processWritebackOnAccess :: "nat \<Rightarrow> nat \<Rightarrow> 'm world \<Rightarrow> 'm world option" where
  "processWritebackOnAccess c i w = do {
     s \<leftarrow> line_state c i w;
     assert_that (s = StM \<or> s = StE);
     Some (if s = StE then set_line c i StM w else w) }"

definition bcc_processInval :: "nat \<Rightarrow> nat \<Rightarrow> InvType \<Rightarrow> bool \<Rightarrow> 'm world \<Rightarrow> (bool \<times> 'm world) option" where
  "bcc_processInval c i ty wb w = do {
     s \<leftarrow> line_state c i w;
     assert_that (s \<noteq> StI);
     case ty of
       INVX \<Rightarrow> do {
         assert_that (s = StE \<or> s = StM);
         Some (wb \<or> s = StM, prof c (profINVX_update Suc) (set_line c i StS w)) }
     | INV \<Rightarrow> Some (wb \<or> s = StM, prof c (profINV_update Suc) (set_line c i StI w))
     | FWD \<Rightarrow> do { assert_that (s = StS); Some (wb, prof c (profFWD_update Suc) w) } }"

definition processNonInclusiveWriteback ::
    "'m acc_call \<Rightarrow> nat \<Rightarrow> address \<Rightarrow> AccessType \<Rightarrow> cyc \<Rightarrow> state_ptr \<Rightarrow> nat \<Rightarrow> flags \<Rightarrow> 'm world \<Rightarrow> (cyc \<times> 'm world) option" where
  "processNonInclusiveWriteback acc c addr ty cyc ptr src flags w = do {
     let link = b_link (bcc (caches w c));
     assert_that (b_nonInclusiveHack link);
     (resp, _, w) \<leftarrow> ask_parent acc c (selfId link) addr ty ptr cyc src (flags OR NONINCLWB) w;
     Some (resp, w) }"

section \<open>The top controller\<close>

text \<open>
  The invalidations are sent in parallel: the result is the latest answer.  \<open>wb\<close> is the content of \<open>*reqWriteback\<close>.
\<close>

definition send_one ::
    "'m inv_call \<Rightarrow> nat \<Rightarrow> address \<Rightarrow> nat \<Rightarrow> InvType \<Rightarrow> cyc \<Rightarrow> nat \<Rightarrow> nat \<Rightarrow>
     cyc \<times> nat \<times> bool \<times> 'm world \<Rightarrow> (cyc \<times> nat \<times> bool \<times> 'm world) option" where
  "send_one inval p addr i ty cyc src k = (\<lambda>(maxCycle, sentInvs, wb, w). do {
     e \<leftarrow> entry_at p i w;
     if k \<in> sharers e
     then do {
       t \<leftarrow> tcc (caches w p);
       child \<leftarrow> elem_at (children (t_link t)) k;
       rtt \<leftarrow> elem_at (childrenRTTs (t_link t)) k;
       (resp, wb, w) \<leftarrow> inval child \<lparr>inv_addr = addr, inv_type = ty, inv_cycle = cyc, inv_srcId = src\<rparr> wb w;
       e \<leftarrow> entry_at p i w;
       Some (max (resp + rtt) maxCycle, sentInvs + 1, wb, (if ty = INV then set_entry p i (e\<lparr>sharers := sharers e - {k}\<rparr>) w else w)) }
     else Some (maxCycle, sentInvs, wb, w) })"

definition sendInvalidates ::
    "'m inv_call \<Rightarrow> nat \<Rightarrow> address \<Rightarrow> nat \<Rightarrow> InvType \<Rightarrow> bool \<Rightarrow> cyc \<Rightarrow> nat \<Rightarrow> 'm world \<Rightarrow> (cyc \<times> bool \<times> 'm world) option" where
  "sendInvalidates inval p addr i ty wb cyc src w = do {
     e \<leftarrow> entry_at p i w;
     if ty = INVX \<and> \<not> e_isExclusive e then Some (cyc, wb, w)
     else if isEmpty e then Some (cyc, wb, w)
     else do {
       t \<leftarrow> tcc (caches w p);
       (maxCycle, sentInvs, wb, w) \<leftarrow>
         foldM (send_one inval p addr i ty cyc src) [0..<length (children (t_link t))] (cyc, 0, wb, w);
       e \<leftarrow> entry_at p i w;
       assert_that (sentInvs = numSharers e);
       w \<leftarrow> (if ty = INV then Some (set_entry p i (e\<lparr>numSharers := 0\<rparr>) w)
             else do {
               assert_that (exclusive e);
               assert_that (numSharers e = 1);
               Some (set_entry p i (e\<lparr>exclusive := False\<rparr>) w) });
       Some (maxCycle, wb, w) } }"

definition tcc_processEviction ::
    "'m inv_call \<Rightarrow> nat \<Rightarrow> address \<Rightarrow> nat \<Rightarrow> bool \<Rightarrow> cyc \<Rightarrow> nat \<Rightarrow> 'm world \<Rightarrow> (cyc \<times> bool \<times> 'm world) option" where
  "tcc_processEviction inval p wbLineAddr i wb cyc src w = do {
     t \<leftarrow> tcc (caches w p);
     if t_nonInclusiveHack (t_link t)
     then do { e \<leftarrow> entry_at p i w; Some (cyc, wb, set_entry p i Entry_clear w) }
     else sendInvalidates inval p wbLineAddr i INV wb cyc src w }"

definition remove_child :: "nat \<Rightarrow> nat \<Rightarrow> nat \<Rightarrow> state_ptr \<Rightarrow> 'm world \<Rightarrow> 'm world option" where
  "remove_child p i k ptr w = do {
     e \<leftarrow> entry_at p i w;
     assert_that (k \<in> sharers e);
     Some (write_ptr ptr StI (set_entry p i (drop_sharer k e) w)) }"

definition tcc_put ::
    "nat \<Rightarrow> nat \<Rightarrow> AccessType \<Rightarrow> nat \<Rightarrow> state_ptr \<Rightarrow> flags \<Rightarrow> 'm world \<Rightarrow> 'm world option" where
  "tcc_put p i ty k ptr flags w = do {
     e \<leftarrow> entry_at p i w;
     assert_that (ty = PUTX \<longrightarrow> e_isExclusive e);
     if ty = PUTX \<and> flags AND PUTX_KEEPEXCL \<noteq> 0
     then do {
       assert_that (k \<in> sharers e);
       s \<leftarrow> read_ptr ptr w;
       assert_that (s = StM);
       Some (write_ptr ptr StE w) }
     else remove_child p i k ptr w }"

definition tcc_gets ::
    "'m inv_call \<Rightarrow> nat \<Rightarrow> address \<Rightarrow> nat \<Rightarrow> nat \<Rightarrow> bool \<Rightarrow> state_ptr \<Rightarrow> bool \<Rightarrow> cyc \<Rightarrow> nat \<Rightarrow> flags \<Rightarrow> 'm world \<Rightarrow>
     (cyc \<times> bool \<times> 'm world) option" where
  "tcc_gets inval p addr i k haveExclusive ptr wb cyc src flags w = do {
     e \<leftarrow> entry_at p i w;
     if isEmpty e \<and> haveExclusive \<and> flags AND NOEXCL = 0
     then Some (cyc, wb, write_ptr ptr StE
            (set_entry p i (e\<lparr>exclusive := True, sharers := insert k (sharers e), numSharers := 1\<rparr>) w))
     else do {
       assert_that (k \<notin> sharers e);
       (resp, wb, w) \<leftarrow> (if e_isExclusive e then sendInvalidates inval p addr i INVX wb cyc src w else Some (cyc, wb, w));
       e \<leftarrow> entry_at p i w;
       assert_that (\<not> e_isExclusive e);
       Some (resp, wb, write_ptr ptr StS (set_entry p i ((add_sharer k e)\<lparr>exclusive := False\<rparr>) w)) } }"

definition tcc_getx ::
    "'m inv_call \<Rightarrow> nat \<Rightarrow> address \<Rightarrow> nat \<Rightarrow> nat \<Rightarrow> bool \<Rightarrow> state_ptr \<Rightarrow> bool \<Rightarrow> cyc \<Rightarrow> nat \<Rightarrow> 'm world \<Rightarrow> (cyc \<times> bool \<times> 'm world) option" where
  "tcc_getx inval p addr i k haveExclusive ptr wb cyc src w = do {
     assert_that haveExclusive;
     e \<leftarrow> entry_at p i w;
     w \<leftarrow> (if k \<in> sharers e
           then do { assert_that (\<not> e_isExclusive e); Some (set_entry p i (drop_sharer k e) w) }
           else Some w);
     (resp, wb, w) \<leftarrow> sendInvalidates inval p addr i INV wb cyc src w;
     e \<leftarrow> entry_at p i w;
     let e = (add_sharer k e)\<lparr>exclusive := True\<rparr>;
     assert_that (numSharers e = 1);
     Some (resp, wb, write_ptr ptr StM (set_entry p i e w)) }"

definition tcc_processAccess ::
    "'m inv_call \<Rightarrow> nat \<Rightarrow> address \<Rightarrow> nat \<Rightarrow> AccessType \<Rightarrow> nat \<Rightarrow> bool \<Rightarrow> state_ptr \<Rightarrow> bool \<Rightarrow> cyc \<Rightarrow> nat \<Rightarrow> flags \<Rightarrow> 'm world \<Rightarrow>
     (cyc \<times> bool \<times> 'm world) option" where
  "tcc_processAccess inval p addr i ty k haveExclusive ptr wb cyc src flags w =
     (case ty of
        GETS \<Rightarrow> tcc_gets inval p addr i k haveExclusive ptr wb cyc src flags w
      | GETX \<Rightarrow> tcc_getx inval p addr i k haveExclusive ptr wb cyc src w
      | _ \<Rightarrow> do { w \<leftarrow> tcc_put p i ty k ptr flags w; Some (cyc, wb, w) })"

definition tcc_processInval ::
    "'m inv_call \<Rightarrow> nat \<Rightarrow> address \<Rightarrow> nat \<Rightarrow> InvType \<Rightarrow> bool \<Rightarrow> cyc \<Rightarrow> nat \<Rightarrow> 'm world \<Rightarrow> (cyc \<times> bool \<times> 'm world) option" where
  "tcc_processInval inval p addr i ty wb cyc src w = do {
     t \<leftarrow> tcc (caches w p);
     if ty = FWD then do { assert_that (\<not> t_nonInclusiveHack (t_link t)); Some (cyc, wb, w) }
     else sendInvalidates inval p addr i ty wb cyc src w }"

section \<open>The controllers\<close>

text \<open>The race check: whether to skip the access, and the access type, which may change.\<close>

definition CheckForMESIRace :: "AccessType \<Rightarrow> MESIState \<Rightarrow> MESIState \<Rightarrow> (bool \<times> AccessType) option" where
  "CheckForMESIRace ty state initial =
     (if state = initial then Some (False, ty)
      else if IsPut ty
      then if state = StI then Some (True, ty)
           else do { assert_that (state = StS); Some (False, if ty = PUTX then PUTS else ty) }
      else if ty = GETX then do { assert_that (initial = StS); assert_that (state = StI); Some (False, ty) }
      else None)"

definition startAccess :: "nat \<Rightarrow> state_ptr \<Rightarrow> MemReq \<Rightarrow> 'm world \<Rightarrow> (bool \<times> AccessType) option" where
  "startAccess c ptr req w = do {
     assert_that (tcc (caches w c) = None \<longrightarrow> IsGet (req_type req));
     s \<leftarrow> read_ptr ptr w;
     CheckForMESIRace (req_type req) s (initialState req) }"

definition shouldAllocate :: "nat \<Rightarrow> AccessType \<Rightarrow> 'm world \<Rightarrow> bool option" where
  "shouldAllocate c ty w =
     (case tcc (caches w c) of
        None \<Rightarrow> Some True
      | Some t \<Rightarrow> if IsGet ty then Some True
                  else do { assert_that (t_nonInclusiveHack (t_link t)); Some False })"

definition cc_processEviction ::
    "'m acc_call \<Rightarrow> 'm inv_call \<Rightarrow> nat \<Rightarrow> nat \<Rightarrow> address \<Rightarrow> nat \<Rightarrow> cyc \<Rightarrow> 'm world \<Rightarrow> (cyc \<times> 'm world) option" where
  "cc_processEviction acc inval c src wbLineAddr i startCycle w =
     (case tcc (caches w c) of
        None \<Rightarrow> bcc_processEviction acc c wbLineAddr i False startCycle src w
      | Some _ \<Rightarrow> do {
          (evCycle, wb, w) \<leftarrow> tcc_processEviction inval c wbLineAddr i False startCycle src w;
          bcc_processEviction acc c wbLineAddr i wb evCycle src w })"

definition cc_processAccess ::
    "'m acc_call \<Rightarrow> 'm inv_call \<Rightarrow> nat \<Rightarrow> state_ptr \<Rightarrow> MemReq \<Rightarrow> nat option \<Rightarrow> cyc \<Rightarrow> 'm world \<Rightarrow> (cyc \<times> 'm world) option" where
  "cc_processAccess acc inval c ptr req lineId startCycle w =
     (case tcc (caches w c) of
        None \<Rightarrow> do {
          i \<leftarrow> lineId;
          bcc_processAccess acc c (lineAddr req) i (req_type req) startCycle (srcId req) (req_flags req) w }
      | Some t \<Rightarrow> do {
          bypass \<leftarrow> (case lineId of
                       None \<Rightarrow> Some True
                     | Some i \<Rightarrow> if IsPut (req_type req) then do { s \<leftarrow> line_state c i w; Some (s = StI) } else Some False);
          if bypass
          then do {
            assert_that (t_nonInclusiveHack (t_link t));
            assert_that (IsPut (req_type req));
            processNonInclusiveWriteback acc c (lineAddr req) (req_type req) startCycle ptr (srcId req) (req_flags req) w }
          else do {
            i \<leftarrow> lineId;
            let isPrefetch = req_is req PREFETCH;
            assert_that (isPrefetch \<longrightarrow> req_type req = GETS);
            let flags = req_flags req AND NOT PREFETCH;
            (respCycle, w) \<leftarrow> bcc_processAccess acc c (lineAddr req) i (req_type req) startCycle (srcId req) flags w;
            if isPrefetch then Some (respCycle, w)
            else do {
              s \<leftarrow> line_state c i w;
              (respCycle, wb, w) \<leftarrow> tcc_processAccess inval c (lineAddr req) i (req_type req) (childId req) (s = StE \<or> s = StM) ptr
                 False respCycle (srcId req) flags w;
              w \<leftarrow> (if wb then processWritebackOnAccess c i w else Some w);
              Some (respCycle, w) } } })"

definition cc_processInv :: "'m inv_call \<Rightarrow> nat \<Rightarrow> InvReq \<Rightarrow> nat \<Rightarrow> cyc \<Rightarrow> bool \<Rightarrow> 'm world \<Rightarrow> (cyc \<times> bool \<times> 'm world) option" where
  "cc_processInv inval c req i startCycle wb w = do {
     (respCycle, wb, w) \<leftarrow>
       (case tcc (caches w c) of
          None \<Rightarrow> Some (startCycle, wb, w)
        | Some _ \<Rightarrow> tcc_processInval inval c (inv_addr req) i (inv_type req) wb startCycle (inv_srcId req) w);
     (wb, w) \<leftarrow> bcc_processInval c i (inv_type req) wb w;
     Some (respCycle, wb, w) }"

text \<open>What the replacement policy sees of the controller.\<close>

definition the_view :: "Cache \<Rightarrow> cc_view" where
  "the_view ch =
     \<lparr>cv_sharers = (\<lambda>i. case tcc ch of None \<Rightarrow> 0 | Some t \<Rightarrow> if i < length (t_array t) then numSharers (t_array t ! i) else 0),
      cv_valid = (\<lambda>i. i < length (b_array (bcc ch)) \<and> b_array (bcc ch) ! i \<noteq> StI)\<rparr>"

section \<open>The cache\<close>

definition cache_lookup ::
    "nat \<Rightarrow> address \<Rightarrow> MemReq option \<Rightarrow> bool \<Rightarrow> 'm world \<Rightarrow> (nat option \<times> 'm world) option" where
  "cache_lookup c addr req upd w = do {
     (i, a) \<leftarrow> ca_lookup addr req upd False (arr (caches w c));
     Some (i, upd_cache c (arr_update (\<lambda>_. a)) w) }"

text \<open>Making space for a new line: the victim is evicted between the two halves of the insertion.\<close>

definition cache_allocate ::
    "'m acc_call \<Rightarrow> 'm inv_call \<Rightarrow> nat \<Rightarrow> MemReq \<Rightarrow> cyc \<Rightarrow> 'm world \<Rightarrow> (nat \<times> 'm world) option" where
  "cache_allocate acc inval c req respCycle w = do {
     (i, wbLineAddr, a) \<leftarrow> ca_preinsert (the_view (caches w c)) (lineAddr req) False (arr (caches w c));
     (_, w) \<leftarrow> cc_processEviction acc inval c (srcId req) wbLineAddr i respCycle (upd_cache c (arr_update (\<lambda>_. a)) w);
     a \<leftarrow> ca_postinsert (lineAddr req) req i False (arr (caches w c));
     Some (i, upd_cache c (arr_update (\<lambda>_. a)) w) }"

text \<open>The record that the write-back of the victim left is taken out, and later joined with that of the access itself.\<close>

definition take_wb :: "nat \<Rightarrow> bound \<Rightarrow> TimingRecord option \<times> bound" where
  "take_wb s b =
     (case eventRecorders b s of
        None \<Rightarrow> (None, b)
      | Some er \<Rightarrow>
          if hasRecord er
          then (Some (fst (popRecord er)), b\<lparr>eventRecorders := (eventRecorders b)(s := Some (snd (popRecord er)))\<rparr>)
          else (None, b))"

definition DelayEvent_new :: "nat \<Rightarrow> TimingEvent" where
  "DelayEvent_new delay = TimingEvent_new delay 0 (- 1) None"

definition join_records ::
    "cyc \<Rightarrow> TimingRecord \<Rightarrow> TimingRecord \<Rightarrow> TimingEvent list \<Rightarrow> (TimingRecord \<times> TimingEvent list) option" where
  "join_records reqCycle wbAcc acc evs = do {
     assert_that (reqCycle \<le> tr_reqCycle wbAcc);
     assert_that (reqCycle \<le> tr_reqCycle acc);
     let (startEv, evs) = alloc_event (DelayEvent_new 0) evs;
     let (dWbEv, evs) = alloc_event (DelayEvent_new (sub32 (tr_reqCycle wbAcc) reqCycle)) evs;
     let (dAccEv, evs) = alloc_event (DelayEvent_new (sub32 (tr_reqCycle acc) reqCycle)) evs;
     let evs = setMinStartCycle (setMinStartCycle (setMinStartCycle evs startEv reqCycle) dWbEv reqCycle) dAccEv reqCycle;
     evs \<leftarrow> addChild evs startEv dWbEv;
     wbStart \<leftarrow> tr_startEvent wbAcc;
     evs \<leftarrow> addChild evs dWbEv wbStart;
     evs \<leftarrow> addChild evs startEv dAccEv;
     accStart \<leftarrow> tr_startEvent acc;
     evs \<leftarrow> addChild evs dAccEv accStart;
     Some (acc\<lparr>tr_reqCycle := reqCycle, tr_startEvent := Some startEv\<rparr>, evs) }"

definition stitch :: "cyc \<Rightarrow> nat \<Rightarrow> TimingRecord option \<Rightarrow> bound \<Rightarrow> bound option" where
  "stitch reqCycle s wbAcc b =
     (case wbAcc of
        None \<Rightarrow> Some b
      | Some wbAcc \<Rightarrow> do {
          er \<leftarrow> eventRecorders b s;
          if \<not> hasRecord er
          then do {
            er \<leftarrow> pushRecord er (wbAcc\<lparr>tr_endEvent := None\<rparr>);
            Some (b\<lparr>eventRecorders := (eventRecorders b)(s := Some er)\<rparr>) }
          else do {
            let (acc, er) = popRecord er;
            (acc, evs) \<leftarrow> join_records reqCycle wbAcc acc (events b);
            er \<leftarrow> pushRecord er acc;
            Some (b\<lparr>events := evs, eventRecorders := (eventRecorders b)(s := Some er)\<rparr>) } })"

text \<open>The line of a request, after a miss the one that was made free for it.\<close>

definition cache_find ::
    "'m acc_call \<Rightarrow> 'm inv_call \<Rightarrow> nat \<Rightarrow> MemReq \<Rightarrow> 'm world \<Rightarrow> (nat option \<times> 'm world) option" where
  "cache_find acc inval c req w = do {
     (lineId, w) \<leftarrow> cache_lookup c (lineAddr req) (Some req) (IsGet (req_type req)) w;
     alloc \<leftarrow> (if lineId = None then shouldAllocate c (req_type req) w else Some False);
     if alloc
     then do { (i, w) \<leftarrow> cache_allocate acc inval c req (cycle req + accLat (caches w c)) w; Some (Some i, w) }
     else Some (lineId, w) }"

definition Cache_access ::
    "'m acc_call \<Rightarrow> 'm inv_call \<Rightarrow> nat \<Rightarrow> state_ptr \<Rightarrow> MemReq \<Rightarrow> 'm world \<Rightarrow> (cyc \<times> 'm world) option" where
  "Cache_access acc inval c ptr req w = do {
     (skipAccess, ty) \<leftarrow> startAccess c ptr req w;
     let req = req\<lparr>req_type := ty\<rparr>;
     (respCycle, w) \<leftarrow>
       (if skipAccess then Some (cycle req, w)
        else do {
          (lineId, w) \<leftarrow> cache_find acc inval c req w;
          let (wbAcc, b) = take_wb (srcId req) (bnd w);
          (respCycle, w) \<leftarrow> cc_processAccess acc inval c ptr req lineId (cycle req + accLat (caches w c)) (w\<lparr>bnd := b\<rparr>);
          b \<leftarrow> stitch (cycle req) (srcId req) wbAcc (bnd w);
          Some (respCycle, w\<lparr>bnd := b\<rparr>) });
     assert_that (cycle req \<le> respCycle);
     Some (respCycle, w) }"

definition Cache_invalidate ::
    "'m inv_call \<Rightarrow> nat \<Rightarrow> InvReq \<Rightarrow> bool \<Rightarrow> 'm world \<Rightarrow> (cyc \<times> bool \<times> 'm world) option" where
  "Cache_invalidate inval c req wb w = do {
     (lineId, w) \<leftarrow> cache_lookup c (inv_addr req) None False w;
     i \<leftarrow> lineId;
     cc_processInv inval c req i (inv_cycle req + invLat (caches w c)) wb w }"

section \<open>The hierarchy\<close>

text \<open>
  Invalidations go down and accesses go up.  The first argument bounds the depth of the calls.
  \<open>mem_acc\<close> is the \<open>access\<close> of the memories at the top.
\<close>

type_synonym 'm mem_call = "nat \<Rightarrow> MemReq \<Rightarrow> 'm \<Rightarrow> bound \<Rightarrow> (cyc \<times> MESIState \<times> 'm \<times> bound) option"

primrec invalidate :: "nat \<Rightarrow> 'm inv_call" where
  "invalidate 0 = (\<lambda>c req wb w. None)"
| "invalidate (Suc n) = Cache_invalidate (invalidate n)"

definition mem_object_access :: "'m mem_call \<Rightarrow> nat \<Rightarrow> state_ptr \<Rightarrow> MemReq \<Rightarrow> 'm world \<Rightarrow> (cyc \<times> 'm world) option" where
  "mem_object_access mem_acc m ptr req w = do {
     s \<leftarrow> read_ptr ptr w;
     (resp, s, m', b) \<leftarrow> mem_acc m (req\<lparr>req_state := s\<rparr>) (mem w) (bnd w);
     Some (resp, write_ptr ptr s (w\<lparr>mem := m', bnd := b\<rparr>)) }"

primrec access :: "'m mem_call \<Rightarrow> nat \<Rightarrow> nat \<Rightarrow> 'm acc_call" where
  "access mem_acc depth 0 = (\<lambda>obj ptr req w. case obj of MainMem m \<Rightarrow> mem_object_access mem_acc m ptr req w | CacheObj _ \<Rightarrow> None)"
| "access mem_acc depth (Suc n) = (\<lambda>obj ptr req w.
     case obj of
       MainMem m \<Rightarrow> mem_object_access mem_acc m ptr req w
     | CacheObj c \<Rightarrow> Cache_access (access mem_acc depth n) (invalidate depth) c ptr req w)"

text \<open>The access of a core to its first-level cache, with a local variable for the state.\<close>

definition core_access :: "'m mem_call \<Rightarrow> nat \<Rightarrow> address \<Rightarrow> AccessType \<Rightarrow> cyc \<Rightarrow> nat \<Rightarrow> flags \<Rightarrow> 'm world \<Rightarrow> (cyc \<times> 'm world) option" where
  "core_access mem_acc c addr ty cyc src flags w =
     access mem_acc (numCaches w) (numCaches w) (CacheObj c) (Local StI)
       \<lparr>lineAddr = addr, req_type = ty, childId = 0, req_state = StI, cycle = cyc, initialState = StI, srcId = src, req_flags = flags\<rparr> w"

end
