(* ===== verification/Coh_Inv.thy ===== *)
theory Coh_Inv
  imports Coherence
begin

text \<open>
  The coherence invariant of the hierarchy.  The state of an address in a cache, its directory entry, and the tree that the
  home relation of an address forms; the invariant says that every directory entry lists exactly the copies below it.
\<close>

section \<open>The arrays behind one interface\<close>

fun ca_found :: "CacheArray \<Rightarrow> address \<Rightarrow> nat option" where
  "ca_found (SetAssoc a) = sa_found a" | "ca_found (ZCache z) = z_found z"

fun ca_tag :: "CacheArray \<Rightarrow> nat \<Rightarrow> address" where
  "ca_tag (SetAssoc a) = sa_tag a" | "ca_tag (ZCache z) = z_tag z"

fun ca_lines :: "CacheArray \<Rightarrow> nat" where
  "ca_lines (SetAssoc a) = sa_lines a" | "ca_lines (ZCache z) = z_lines z"

fun ca_wf :: "CacheArray \<Rightarrow> bool" where
  "ca_wf (SetAssoc a) = sa_wf a" | "ca_wf (ZCache z) = z_wf z"

fun ca_closed :: "CacheArray \<Rightarrow> bool" where
  "ca_closed (SetAssoc a) = sa_closed a" | "ca_closed (ZCache z) = z_closed z"

fun ca_opened :: "CacheArray \<Rightarrow> address \<Rightarrow> nat \<Rightarrow> bool" where
  "ca_opened (SetAssoc a) = sa_opened a" | "ca_opened (ZCache z) = z_opened z"

interpretation ca: cache_array ca_lookup ca_preinsert ca_postinsert ca_found ca_tag ca_lines ca_wf ca_closed ca_opened
proof
  fix a :: CacheArray and addr :: address and i :: nat and oreq :: "MemReq option" and req :: MemReq and dc dyn :: bool and cc
  assume wf: "ca_wf a" and addr: "addr \<noteq> 0"
  show "i < ca_lines a \<and> ca_tag a i = addr" if "ca_found a addr = Some i"
    using that wf addr sa.found_tag zc.found_tag by (cases a) simp_all
  show "\<exists>a'. ca_lookup addr oreq False dc a = Some (ca_found a addr, a') \<and> ca_wf a' \<and> ca_found a' = ca_found a \<and> ca_tag a' = ca_tag a \<and>
      ca_lines a' = ca_lines a \<and> ca_closed a' = ca_closed a \<and> ca_opened a' = ca_opened a"
  proof (cases a)
    case (SetAssoc s)
    then obtain s' where "sa_lookup addr oreq False dc s = Some (sa_found s addr, s')" "sa_wf s'" "sa_found s' = sa_found s" "sa_tag s' = sa_tag s"
      "sa_lines s' = sa_lines s" "sa_closed s' = sa_closed s" "sa_opened s' = sa_opened s"
      using sa.lookup_quiet [of s addr oreq dc] wf addr by auto
    then show ?thesis using SetAssoc by (intro exI [of _ "SetAssoc s'"]) simp
  next
    case (ZCache z)
    then obtain z' where "z_lookup addr oreq False dc z = Some (z_found z addr, z')" "z_wf z'" "z_found z' = z_found z" "z_tag z' = z_tag z"
      "z_lines z' = z_lines z" "z_closed z' = z_closed z" "z_opened z' = z_opened z"
      using zc.lookup_quiet [of z addr oreq dc] wf addr by auto
    then show ?thesis using ZCache by (intro exI [of _ "ZCache z'"]) simp
  qed
  show "\<exists>a'. ca_lookup addr (Some req) True dc a = Some (ca_found a addr, a') \<and> ca_wf a' \<and> ca_closed a' \<and> ca_found a' = ca_found a \<and>
      ca_tag a' = ca_tag a \<and> ca_lines a' = ca_lines a" if cl: "ca_closed a" and get: "IsGet (req_type req)"
  proof (cases a)
    case (SetAssoc s)
    then obtain s' where "sa_lookup addr (Some req) True dc s = Some (sa_found s addr, s')" "sa_wf s'" "sa_closed s'" "sa_found s' = sa_found s"
      "sa_tag s' = sa_tag s" "sa_lines s' = sa_lines s"
      using sa.lookup_update [of s addr req dc] wf addr cl get by auto
    then show ?thesis using SetAssoc by (intro exI [of _ "SetAssoc s'"]) simp
  next
    case (ZCache z)
    then obtain z' where "z_lookup addr (Some req) True dc z = Some (z_found z addr, z')" "z_wf z'" "z_closed z'" "z_found z' = z_found z"
      "z_tag z' = z_tag z" "z_lines z' = z_lines z"
      using zc.lookup_update [of z addr req dc] wf addr cl get by auto
    then show ?thesis using ZCache by (intro exI [of _ "ZCache z'"]) simp
  qed
  show "\<exists>i a'. ca_preinsert cc addr dyn a = Some (i, ca_tag a i, a') \<and> i < ca_lines a \<and> ca_wf a' \<and> ca_opened a' addr i \<and> ca_found a' = ca_found a \<and>
      ca_tag a' = ca_tag a \<and> ca_lines a' = ca_lines a" if cl: "ca_closed a" and new: "ca_found a addr = None"
  proof (cases a)
    case (SetAssoc s)
    then obtain i s' where "sa_preinsert cc addr dyn s = Some (i, sa_tag s i, s')" "i < sa_lines s" "sa_wf s'" "sa_opened s' addr i"
      "sa_found s' = sa_found s" "sa_tag s' = sa_tag s" "sa_lines s' = sa_lines s"
      using sa.preinsert [of s addr cc dyn] wf addr cl new by auto
    then show ?thesis using SetAssoc by (intro exI [of _ i] exI [of _ "SetAssoc s'"]) simp
  next
    case (ZCache z)
    then obtain i z' where "z_preinsert cc addr dyn z = Some (i, z_tag z i, z')" "i < z_lines z" "z_wf z'" "z_opened z' addr i"
      "z_found z' = z_found z" "z_tag z' = z_tag z" "z_lines z' = z_lines z"
      using zc.preinsert [of z addr cc dyn] wf addr cl new by auto
    then show ?thesis using ZCache by (intro exI [of _ i] exI [of _ "ZCache z'"]) simp
  qed
  show "\<exists>a'. ca_postinsert addr req i dc a = Some a' \<and> ca_wf a' \<and> ca_closed a' \<and> ca_found a' addr = Some i \<and> ca_tag a' = (ca_tag a)(i := addr) \<and>
      ca_lines a' = ca_lines a \<and> (\<forall>y j. y \<noteq> 0 \<longrightarrow> y \<noteq> addr \<longrightarrow> ca_found a y = Some j \<longrightarrow> j \<noteq> i \<longrightarrow> ca_found a' y = Some j)"
    if op: "ca_opened a addr i" and new: "ca_found a addr = None" and get: "IsGet (req_type req)"
  proof (cases a)
    case (SetAssoc s)
    then obtain s' where "sa_postinsert addr req i dc s = Some s'" "sa_wf s'" "sa_closed s'" "sa_found s' addr = Some i" "sa_tag s' = (sa_tag s)(i := addr)"
      "sa_lines s' = sa_lines s" "\<forall>y j. y \<noteq> 0 \<longrightarrow> y \<noteq> addr \<longrightarrow> sa_found s y = Some j \<longrightarrow> j \<noteq> i \<longrightarrow> sa_found s' y = Some j"
      using sa.postinsert [of s addr i req dc] wf addr op new get by auto
    then show ?thesis using SetAssoc by (intro exI [of _ "SetAssoc s'"]) simp
  next
    case (ZCache z)
    then obtain z' where "z_postinsert addr req i dc z = Some z'" "z_wf z'" "z_closed z'" "z_found z' addr = Some i" "z_tag z' = (z_tag z)(i := addr)"
      "z_lines z' = z_lines z" "\<forall>y j. y \<noteq> 0 \<longrightarrow> y \<noteq> addr \<longrightarrow> z_found z y = Some j \<longrightarrow> j \<noteq> i \<longrightarrow> z_found z' y = Some j"
      using zc.postinsert [of z addr i req dc] wf addr op new get by auto
    then show ?thesis using ZCache by (intro exI [of _ "ZCache z'"]) simp
  qed
qed

section \<open>The tree of an address\<close>

type_synonym net = "nat \<Rightarrow> Uplink \<times> Downlink option"

definition links :: "'m world \<Rightarrow> net" where
  "links w c = (b_link (bcc (caches w c)), map_option t_link (tcc (caches w c)))"

definition home :: "net \<Rightarrow> address \<Rightarrow> nat \<Rightarrow> MemObj option" where
  "home N a c = do {
     i \<leftarrow> getParentId a (length (parents (fst (N c))));
     elem_at (parents (fst (N c))) i }"

definition kids :: "net \<Rightarrow> nat \<Rightarrow> nat list" where
  "kids N p = (case snd (N p) of None \<Rightarrow> [] | Some d \<Rightarrow> children d)"

text \<open>
  A hierarchy of inclusive caches: parents come before their children, and the number of a child at its parents is its
  \<open>selfId\<close>.
\<close>

definition net_ok :: "nat \<Rightarrow> net \<Rightarrow> bool" where
  "net_ok n N \<longleftrightarrow> (\<forall>c < n.
     parents (fst (N c)) \<noteq> [] \<and> length (parentRTTs (fst (N c))) = length (parents (fst (N c))) \<and> \<not> b_nonInclusiveHack (fst (N c)) \<and>
     (\<forall>p. CacheObj p \<in> set (parents (fst (N c))) \<longrightarrow>
        p < c \<and> selfId (fst (N c)) < length (kids N p) \<and> kids N p ! selfId (fst (N c)) = c) \<and>
     (\<forall>d. snd (N c) = Some d \<longrightarrow> length (childrenRTTs d) = length (children d) \<and> \<not> t_nonInclusiveHack d) \<and>
     (\<forall>k < length (kids N c). c < kids N c ! k \<and> kids N c ! k < n \<and> selfId (fst (N (kids N c ! k))) = k))"

definition up :: "net \<Rightarrow> address \<Rightarrow> (nat \<times> nat) set" where
  "up N a = {(d, e). home N a d = Some (CacheObj e)}"

abbreviation inside :: "net \<Rightarrow> address \<Rightarrow> nat \<Rightarrow> nat \<Rightarrow> bool" where
  "inside N a c d \<equiv> (d, c) \<in> (up N a)\<^sup>*"

lemma home_total: "net_ok n N \<Longrightarrow> c < n \<Longrightarrow> \<exists>i p. getParentId a (length (parents (fst (N c)))) = Some i \<and> i < length (parents (fst (N c))) \<and>
    home N a c = Some (parents (fst (N c)) ! i)"
  by (auto simp: net_ok_def home_def getParentId_def)

lemma home_in_parents: "home N a c = Some p \<Longrightarrow> p \<in> set (parents (fst (N c)))"
  by (auto simp: home_def bind_eq_Some_conv)

lemma home_kid:
  assumes "net_ok n N" "c < n" "home N a c = Some (CacheObj p)"
  shows "p < c" "selfId (fst (N c)) < length (kids N p)" "kids N p ! selfId (fst (N c)) = c"
  using assms home_in_parents [OF assms(3)] by (auto simp: net_ok_def)

lemma kid_less:
  assumes "net_ok n N" "p < n" "k < length (kids N p)"
  shows "p < kids N p ! k" "kids N p ! k < n" "selfId (fst (N (kids N p ! k))) = k"
  using assms by (auto simp: net_ok_def)

lemma under_le:
  assumes "net_ok n N" "d < n" "inside N a c d"
  shows "c \<le> d"
  using assms(3,2)
proof (induction rule: converse_rtrancl_induct)
  case (step d e)
  then have "e < d" using home_kid(1) [OF assms(1) step.prems] by (auto simp: up_def)
  then show ?case using step by simp
qed simp

lemma under_step: "inside N a c d \<longleftrightarrow> d = c \<or> (\<exists>e. home N a d = Some (CacheObj e) \<and> inside N a c e)"
  by (auto simp: up_def elim: converse_rtranclE intro: converse_rtrancl_into_rtrancl)

lemma not_under_home:
  assumes "net_ok n N" "c < n" "home N a c = Some (CacheObj p)"
  shows "\<not> inside N a c p"
  using under_le [OF assms(1), of p c a] home_kid(1) [OF assms] assms(2) by auto

lemma under_via_kid:
  assumes "net_ok n N" "d < n" "inside N a p d" "d \<noteq> p"
  shows "\<exists>k < length (kids N p). home N a (kids N p ! k) = Some (CacheObj p) \<and> inside N a (kids N p ! k) d"
proof -
  obtain e where e: "inside N a e d" "home N a e = Some (CacheObj p)"
    using assms(3,4) by (auto simp: up_def elim: rtranclE)
  have "e < n" using under_le [OF assms(1,2) e(1)] assms(2) by simp
  then show ?thesis using home_kid(2,3) [OF assms(1) _ e(2)] e by (metis)
qed

lemma kid_under: "home N a c = Some (CacheObj p) \<Longrightarrow> inside N a c d \<Longrightarrow> inside N a p d"
  by (auto simp: up_def intro: rtrancl_into_rtrancl)

lemma kids_apart:
  assumes "net_ok n N" "x < n" "y < n" "home N a x = Some (CacheObj p)" "home N a y = Some (CacheObj p)" "inside N a x d" "inside N a y d"
  shows "x = y"
proof -
  have sv: "single_valued (up N a)" by (auto simp: single_valued_def up_def)
  have no: "u = v" if "inside N a u v" "home N a v = Some (CacheObj p)" "home N a u = Some (CacheObj p)" "u < n" for u v
    using that not_under_home [OF assms(1) that(4,3)] under_step [of v u N a] by auto
  show ?thesis using single_valued_confluent [OF sv assms(6,7)] no [of x y] no [of y x] assms(2-5) by blast
qed

section \<open>States and directory entries by address\<close>

definition st :: "'m world \<Rightarrow> nat \<Rightarrow> address \<Rightarrow> MESIState" where
  "st w c a = (case ca_found (arr (caches w c)) a of None \<Rightarrow> StI | Some i \<Rightarrow> b_array (bcc (caches w c)) ! i)"

definition dir :: "'m world \<Rightarrow> nat \<Rightarrow> address \<Rightarrow> Entry" where
  "dir w p a =
     (case tcc (caches w p) of
        None \<Rightarrow> Entry_clear
      | Some t \<Rightarrow> (case ca_found (arr (caches w p)) a of None \<Rightarrow> Entry_clear | Some i \<Rightarrow> t_array t ! i))"

definition excl :: "MESIState \<Rightarrow> bool" where
  "excl s \<longleftrightarrow> s = StE \<or> s = StM"

definition vacant :: "Entry \<Rightarrow> bool" where
  "vacant e \<longleftrightarrow> sharers e = {} \<and> numSharers e = 0"

lemma vacant_clear [simp]: "vacant Entry_clear"
  by (simp add: vacant_def Entry_clear_def)

definition cache_ok :: "Cache \<Rightarrow> bool" where
  "cache_ok ch \<longleftrightarrow>
     ca_wf (arr ch) \<and> length (b_array (bcc ch)) = ca_lines (arr ch) \<and>
     (\<forall>i < ca_lines (arr ch). b_array (bcc ch) ! i \<noteq> StI \<longrightarrow> ca_tag (arr ch) i \<noteq> 0 \<and> ca_found (arr ch) (ca_tag (arr ch) i) = Some i) \<and>
     (\<forall>t. tcc ch = Some t \<longrightarrow> length (t_array t) = ca_lines (arr ch) \<and>
        (\<forall>i < ca_lines (arr ch). b_array (bcc ch) ! i = StI \<longrightarrow> vacant (t_array t ! i)))"

text \<open>
  The entry \<open>e\<close> of cache \<open>p\<close> for address \<open>a\<close> agrees with the states \<open>S\<close> of the address: it lists the children that are homed
  at \<open>p\<close> and have a copy, \<open>p\<close> has one then, and a child has exclusive permission exactly if the entry says so, and only if \<open>p\<close> has.
\<close>

definition holders :: "net \<Rightarrow> (nat \<Rightarrow> MESIState) \<Rightarrow> address \<Rightarrow> nat \<Rightarrow> nat set" where
  "holders N S a p = {k. k < length (kids N p) \<and> home N a (kids N p ! k) = Some (CacheObj p) \<and> S (kids N p ! k) \<noteq> StI}"

lemma holders_iff [simp]:
  "k \<in> holders N S a p \<longleftrightarrow> k < length (kids N p) \<and> home N a (kids N p ! k) = Some (CacheObj p) \<and> S (kids N p ! k) \<noteq> StI"
  by (simp add: holders_def)

lemma finite_holders [simp]: "finite (holders N S a p)"
  by (simp add: holders_def)

lemma holders_cong:
  "(\<And>k. k < length (kids N p) \<Longrightarrow> home N a (kids N p ! k) = Some (CacheObj p) \<Longrightarrow> S (kids N p ! k) = StI \<longleftrightarrow> S' (kids N p ! k) = StI) \<Longrightarrow>
    holders N S a p = holders N S' a p"
  by (auto simp: holders_def)

definition ent_ok :: "net \<Rightarrow> (nat \<Rightarrow> MESIState) \<Rightarrow> Entry \<Rightarrow> address \<Rightarrow> nat \<Rightarrow> bool" where
  "ent_ok N S e a p \<longleftrightarrow>
     sharers e = holders N S a p \<and> numSharers e = card (sharers e) \<and> (exclusive e \<longrightarrow> numSharers e \<le> 1) \<and>
     (\<forall>k \<in> sharers e. S p \<noteq> StI \<and> (exclusive e \<longleftrightarrow> excl (S (kids N p ! k))) \<and> (excl (S (kids N p ! k)) \<longrightarrow> excl (S p)))"

lemma ent_okD:
  assumes "ent_ok N S e a p"
  shows "sharers e = holders N S a p" "numSharers e = card (holders N S a p)" "exclusive e \<Longrightarrow> card (holders N S a p) \<le> 1"
    "k \<in> sharers e \<Longrightarrow> S p \<noteq> StI" "k \<in> sharers e \<Longrightarrow> exclusive e \<longleftrightarrow> excl (S (kids N p ! k))"
    "k \<in> sharers e \<Longrightarrow> excl (S (kids N p ! k)) \<Longrightarrow> excl (S p)"
proof -
  show sh: "sharers e = holders N S a p" using assms by (simp add: ent_ok_def)
  show "numSharers e = card (holders N S a p)" "exclusive e \<Longrightarrow> card (holders N S a p) \<le> 1"
    using assms unfolding ent_ok_def sh by simp_all
  show "k \<in> sharers e \<Longrightarrow> S p \<noteq> StI" "k \<in> sharers e \<Longrightarrow> exclusive e \<longleftrightarrow> excl (S (kids N p ! k))"
    "k \<in> sharers e \<Longrightarrow> excl (S (kids N p ! k)) \<Longrightarrow> excl (S p)"
    using assms unfolding ent_ok_def by blast+
qed

lemma ent_okI:
  assumes "sharers e = holders N S a p" "numSharers e = card (holders N S a p)" "exclusive e \<Longrightarrow> card (holders N S a p) \<le> 1"
    "\<And>k. k \<in> holders N S a p \<Longrightarrow> S p \<noteq> StI \<and> (exclusive e \<longleftrightarrow> excl (S (kids N p ! k))) \<and> (excl (S (kids N p ! k)) \<longrightarrow> excl (S p))"
  shows "ent_ok N S e a p"
  unfolding ent_ok_def assms(1,2) using assms(3,4) by blast

abbreviation agrees :: "'m world \<Rightarrow> address \<Rightarrow> nat \<Rightarrow> bool" where
  "agrees w a p \<equiv> ent_ok (links w) (\<lambda>c. st w c a) (dir w p a) a p"

definition caches_ok :: "'m world \<Rightarrow> bool" where
  "caches_ok w \<longleftrightarrow> net_ok (numCaches w) (links w) \<and> (\<forall>c < numCaches w. cache_ok (caches w c))"

definition coherent :: "'m world \<Rightarrow> bool" where
  "coherent w \<longleftrightarrow> caches_ok w \<and> (\<forall>p < numCaches w. \<forall>a. a \<noteq> 0 \<longrightarrow> agrees w a p)"

lemma coherentD:
  assumes "coherent w"
  shows "caches_ok w" "net_ok (numCaches w) (links w)" "c < numCaches w \<Longrightarrow> cache_ok (caches w c)"
    "p < numCaches w \<Longrightarrow> a \<noteq> 0 \<Longrightarrow> agrees w a p"
  using assms by (auto simp: coherent_def caches_ok_def)

lemma ent_ok_cong:
  assumes "S p = S' p" "\<And>k. k < length (kids N p) \<Longrightarrow> home N a (kids N p ! k) = Some (CacheObj p) \<Longrightarrow> S (kids N p ! k) = S' (kids N p ! k)"
  shows "ent_ok N S e a p = ent_ok N S' e a p"
proof -
  have "holders N S a p = holders N S' a p" using assms(2) by (auto intro: holders_cong)
  then show ?thesis using assms by (auto simp: ent_ok_def)
qed

lemma ent_ok_finite: "ent_ok N S e a p \<Longrightarrow> finite (sharers e)"
  by (simp add: ent_ok_def)

text \<open>Nothing is exclusive below a cache that is not, and nothing is valid below an invalid one.\<close>

lemma below:
  assumes N: "net_ok n N" and ok: "\<And>q. q < n \<Longrightarrow> inside N a c q \<Longrightarrow> ent_ok N S (D q) a q" and d: "inside N a c d" "d < n"
  shows "S c = StI \<Longrightarrow> S d = StI" "\<not> excl (S c) \<Longrightarrow> \<not> excl (S d)"
proof -
  have "(S c = StI \<longrightarrow> S d = StI) \<and> (\<not> excl (S c) \<longrightarrow> \<not> excl (S d))"
    using d
  proof (induction rule: converse_rtrancl_induct)
    case (step d e)
    have h: "home N a d = Some (CacheObj e)" using step.hyps(1) by (simp add: up_def)
    note k = home_kid [OF N step.prems h]
    have e: "ent_ok N S (D e) a e" using ok [of e] k(1) step by simp
    have "S d \<noteq> StI \<longrightarrow> selfId (fst (N d)) \<in> sharers (D e)" using e k h by (auto simp: ent_ok_def)
    moreover have "excl (S d) \<longrightarrow> S d \<noteq> StI" by (auto simp: excl_def)
    ultimately have "(S d \<noteq> StI \<longrightarrow> S e \<noteq> StI) \<and> (excl (S d) \<longrightarrow> excl (S e))"
      using e k(3) unfolding ent_ok_def by metis
    then show ?case using step k(1) by auto
  qed simp
  then show "S c = StI \<Longrightarrow> S d = StI" "\<not> excl (S c) \<Longrightarrow> \<not> excl (S d)" by auto
qed

end
