(* ===== verification/Coh_Inval.thy ===== *)
theory Coh_Inval
  imports Coh_Inv
begin

text \<open>
  Invalidations.  An invalidation of an address in a cache reaches exactly the copies in the subtree of the cache, reports
  whether one of them was modified, and leaves the subtree consistent.
\<close>

section \<open>The primitive updates\<close>

definition same_arr :: "CacheArray \<Rightarrow> CacheArray \<Rightarrow> bool" where
  "same_arr a a' \<longleftrightarrow> (ca_wf a \<longrightarrow> ca_wf a') \<and> ca_found a' = ca_found a \<and> ca_tag a' = ca_tag a \<and> ca_lines a' = ca_lines a \<and>
     ca_closed a' = ca_closed a \<and> ca_opened a' = ca_opened a"

text \<open>\<open>quiet\<close>: only states, directory entries and counters change.\<close>

definition quiet :: "'m world \<Rightarrow> 'm world \<Rightarrow> bool" where
  "quiet w w' \<longleftrightarrow> links w' = links w \<and> numCaches w' = numCaches w \<and> mem w' = mem w \<and> bnd w' = bnd w \<and>
     (\<forall>c. same_arr (arr (caches w c)) (arr (caches w' c)))"

lemma same_arr_refl [simp]: "same_arr a a"
  by (simp add: same_arr_def)

lemma quiet_refl [simp]: "quiet w w"
  by (simp add: quiet_def)

lemma quiet_trans: "quiet w w1 \<Longrightarrow> quiet w1 w2 \<Longrightarrow> quiet w w2"
  by (auto simp: quiet_def same_arr_def)

lemma upd_cache_simps [simp]:
  "caches (upd_cache c f w) = (caches w)(c := f (caches w c))" "numCaches (upd_cache c f w) = numCaches w"
  "mem (upd_cache c f w) = mem w" "bnd (upd_cache c f w) = bnd w"
  by (simp_all add: upd_cache_def)

lemma quiet_updates [simp]: "quiet w (set_line c i s w)" "quiet w (set_entry c i e w)" "quiet w (prof c f w)"
  by (auto simp: quiet_def set_line_def set_entry_def prof_def links_def fun_eq_iff option.map_comp comp_def)

lemma updates_arr [simp]:
  "arr (caches (set_line c i s w) d) = arr (caches w d)" "arr (caches (set_entry c i e w) d) = arr (caches w d)"
  "arr (caches (prof c f w) d) = arr (caches w d)"
  by (simp_all add: set_line_def set_entry_def prof_def)

lemma updates_tcc [simp]:
  "tcc (caches (set_line c i s w) d) = tcc (caches w d)" "tcc (caches (prof c f w) d) = tcc (caches w d)"
  "bcc (caches (set_entry c i e w) d) = bcc (caches w d)" "b_array (bcc (caches (prof c f w) d)) = b_array (bcc (caches w d))"
  by (simp_all add: set_line_def set_entry_def prof_def)

lemma st_prof [simp]: "st (prof c f w) = st w" "dir (prof c f w) = dir w" "dir (set_line c i s w) = dir w" "st (set_entry c i e w) = st w"
  by (simp_all add: st_def dir_def fun_eq_iff split: option.split)

lemma cache_ok_prof: "caches_ok (prof c f w) = caches_ok w"
proof -
  have "links (prof c f w) = links w" "numCaches (prof c f w) = numCaches w" using quiet_updates(3) [of w c f] by (simp_all add: quiet_def)
  then show ?thesis by (simp add: caches_ok_def cache_ok_def)
qed

text \<open>Address \<open>a\<close> is in line \<open>i\<close> of cache \<open>c\<close>.\<close>

definition at_line :: "'m world \<Rightarrow> nat \<Rightarrow> address \<Rightarrow> nat \<Rightarrow> bool" where
  "at_line w c a i \<longleftrightarrow> c < numCaches w \<and> a \<noteq> 0 \<and> ca_found (arr (caches w c)) a = Some i"

lemma at_line_quiet: "quiet w w' \<Longrightarrow> at_line w' c a i = at_line w c a i"
  by (auto simp: quiet_def same_arr_def at_line_def)

lemma at_lineD:
  assumes "caches_ok w" "at_line w c a i"
  shows "i < length (b_array (bcc (caches w c)))" "ca_tag (arr (caches w c)) i = a" "line_state c i w = Some (st w c a)"
    "x \<noteq> 0 \<Longrightarrow> ca_found (arr (caches w c)) x = Some i \<longleftrightarrow> x = a"
    "tcc (caches w c) = Some t \<Longrightarrow> i < length (t_array t) \<and> dir w c a = t_array t ! i \<and> entry_at c i w = Some (dir w c a)"
proof -
  have c: "cache_ok (caches w c)" "a \<noteq> 0" "ca_found (arr (caches w c)) a = Some i" using assms by (auto simp: caches_ok_def at_line_def)
  have i: "i < ca_lines (arr (caches w c))" "ca_tag (arr (caches w c)) i = a"
    using ca.found_tag [OF _ c(2,3)] c(1) by (simp_all add: cache_ok_def)
  then show "i < length (b_array (bcc (caches w c)))" "ca_tag (arr (caches w c)) i = a" "line_state c i w = Some (st w c a)"
    using c by (simp_all add: cache_ok_def line_state_def st_def)
  show "ca_found (arr (caches w c)) x = Some i \<longleftrightarrow> x = a" if "x \<noteq> 0"
    using ca.found_tag [OF _ that, of "arr (caches w c)" i] i(2) c by (auto simp: cache_ok_def)
  show "i < length (t_array t) \<and> dir w c a = t_array t ! i \<and> entry_at c i w = Some (dir w c a)" if "tcc (caches w c) = Some t"
    using that c i by (simp add: cache_ok_def dir_def entry_at_def)
qed

lemma st_set_line:
  assumes "caches_ok w" "at_line w c a i" "x \<noteq> 0"
  shows "st (set_line c i s w) d x = (if d = c \<and> x = a then s else st w d x)"
proof (cases "d = c")
  case True
  note i = at_lineD(1,4) [OF assms(1,2)]
  have f: "ca_found (arr (caches w c)) a = Some i" using assms(2) by (simp add: at_line_def)
  show ?thesis
  proof (cases "ca_found (arr (caches w c)) x")
    case (Some j)
    then have "j = i \<longleftrightarrow> x = a" using i(2) [OF assms(3)] by auto
    then show ?thesis using True Some i(1) by (cases "x = a") (simp_all add: st_def set_line_def)
  qed (use True f in \<open>auto simp: st_def set_line_def\<close>)
qed (simp add: st_def set_line_def split: option.split)

lemma dir_set_entry:
  assumes "caches_ok w" "at_line w c a i" "tcc (caches w c) = Some t" "x \<noteq> 0"
  shows "dir (set_entry c i e w) d x = (if d = c \<and> x = a then e else dir w d x)"
proof (cases "d = c")
  case True
  note i = at_lineD(5) [OF assms(1,2,3)] at_lineD(4) [OF assms(1,2,4)]
  have f: "ca_found (arr (caches w c)) a = Some i" using assms(2) by (simp add: at_line_def)
  show ?thesis
  proof (cases "ca_found (arr (caches w c)) x")
    case (Some j)
    then have "j = i \<longleftrightarrow> x = a" using i(2) by auto
    then show ?thesis using True Some i(1) assms(3) by (cases "x = a") (simp_all add: dir_def set_entry_def)
  qed (use True f assms(3) in \<open>auto simp: dir_def set_entry_def\<close>)
qed (simp add: dir_def set_entry_def split: option.split)

lemma caches_ok_one:
  assumes "caches_ok w" "quiet w w'" "\<And>x. x \<noteq> c \<Longrightarrow> caches w' x = caches w x" "c < numCaches w \<Longrightarrow> cache_ok (caches w' c)"
  shows "caches_ok w'"
  unfolding caches_ok_def
proof (intro conjI allI impI)
  show "net_ok (numCaches w') (links w')" using assms(1,2) by (simp add: caches_ok_def quiet_def)
  show "cache_ok (caches w' d)" if "d < numCaches w'" for d
    using that assms by (cases "d = c") (auto simp: caches_ok_def quiet_def)
qed

lemma cache_okD:
  assumes "cache_ok ch"
  shows "ca_wf (arr ch)" "length (b_array (bcc ch)) = ca_lines (arr ch)"
    "i < ca_lines (arr ch) \<Longrightarrow> b_array (bcc ch) ! i \<noteq> StI \<Longrightarrow> ca_tag (arr ch) i \<noteq> 0 \<and> ca_found (arr ch) (ca_tag (arr ch) i) = Some i"
    "tcc ch = Some t \<Longrightarrow> length (t_array t) = ca_lines (arr ch)"
    "tcc ch = Some t \<Longrightarrow> i < ca_lines (arr ch) \<Longrightarrow> b_array (bcc ch) ! i = StI \<Longrightarrow> vacant (t_array t ! i)"
  using assms unfolding cache_ok_def by blast+

lemma set_line_ok:
  assumes "caches_ok w" "at_line w c a i" "s = StI \<Longrightarrow> vacant (dir w c a)"
  shows "caches_ok (set_line c i s w)"
proof (rule caches_ok_one [OF assms(1) quiet_updates(1)])
  show "caches (set_line c i s w) x = caches w x" if "x \<noteq> c" for x using that by (simp add: set_line_def)
  have f: "ca_found (arr (caches w c)) a = Some i" "a \<noteq> 0" "c < numCaches w" using assms(2) by (simp_all add: at_line_def)
  have ok: "cache_ok (caches w c)" using assms(1) f(3) by (simp add: caches_ok_def)
  note d = at_lineD [OF assms(1,2)] and k = cache_okD [OF ok]
  define ch where "ch = caches (set_line c i s w) c"
  have ch: "arr ch = arr (caches w c)" "tcc ch = tcc (caches w c)" "b_array (bcc ch) = (b_array (bcc (caches w c)))[i := s]"
    by (simp_all add: ch_def set_line_def)
  have "ca_tag (arr ch) j \<noteq> 0 \<and> ca_found (arr ch) (ca_tag (arr ch) j) = Some j" if "j < ca_lines (arr ch)" "b_array (bcc ch) ! j \<noteq> StI" for j
    using that d(2) f(1,2) k(2) k(3) [where i = j] by (cases "j = i") (simp_all add: ch)
  moreover have "vacant (t_array t ! j)" if "tcc ch = Some t" "j < ca_lines (arr ch)" "b_array (bcc ch) ! j = StI" for j t
    using that d(1) d(5) [of t] k(2) k(5) [where t = t and i = j] assms(3) by (cases "j = i") (simp_all add: ch)
  ultimately have "cache_ok ch" using k(1,2,4) unfolding cache_ok_def by (simp add: ch)
  then show "cache_ok (caches (set_line c i s w) c)" by (simp add: ch_def)
qed

lemma set_entry_ok:
  assumes "caches_ok w" "at_line w c a i" "st w c a = StI \<Longrightarrow> vacant e"
  shows "caches_ok (set_entry c i e w)"
proof (rule caches_ok_one [OF assms(1) quiet_updates(2)])
  show "caches (set_entry c i e w) x = caches w x" if "x \<noteq> c" for x using that by (simp add: set_entry_def)
  have f: "ca_found (arr (caches w c)) a = Some i" "c < numCaches w" using assms(2) by (simp_all add: at_line_def)
  have ok: "cache_ok (caches w c)" using assms(1) f(2) by (simp add: caches_ok_def)
  note k = cache_okD [OF ok]
  define ch where "ch = caches (set_entry c i e w) c"
  have ch: "arr ch = arr (caches w c)" "bcc ch = bcc (caches w c)" "tcc ch = map_option (\<lambda>t. t\<lparr>t_array := (t_array t)[i := e]\<rparr>) (tcc (caches w c))"
    by (simp_all add: ch_def set_entry_def)
  have "length (t_array t) = ca_lines (arr ch) \<and> (\<forall>j < ca_lines (arr ch). b_array (bcc ch) ! j = StI \<longrightarrow> vacant (t_array t ! j))"
    if t': "tcc ch = Some t" for t
  proof -
    obtain t0 where t: "tcc (caches w c) = Some t0" "t = t0\<lparr>t_array := (t_array t0)[i := e]\<rparr>" using t' by (auto simp: ch)
    have "vacant (t_array t ! j)" if "j < ca_lines (arr ch)" "b_array (bcc ch) ! j = StI" for j
      using that t k(4) [OF t(1)] k(5) [OF t(1), where i = j] assms(3) f(1) by (cases "j = i") (simp_all add: ch st_def)
    then show ?thesis using t k(4) [OF t(1)] by (simp add: ch)
  qed
  then have "cache_ok ch" using k(1,2,3) unfolding cache_ok_def by (simp add: ch)
  then show "cache_ok (caches (set_entry c i e w) c)" by (simp add: ch_def)
qed

lemma lookup_calm:
  assumes "caches_ok w" "c < numCaches w" "a \<noteq> 0"
  shows "\<exists>w'. cache_lookup c a oreq False w = Some (ca_found (arr (caches w c)) a, w') \<and> quiet w w' \<and> caches_ok w' \<and> st w' = st w \<and> dir w' = dir w"
proof -
  have c: "cache_ok (caches w c)" using assms by (simp add: caches_ok_def)
  obtain a' where a': "ca_lookup a oreq False False (arr (caches w c)) = Some (ca_found (arr (caches w c)) a, a')" "ca_wf a'"
    "ca_found a' = ca_found (arr (caches w c))" "ca_tag a' = ca_tag (arr (caches w c))" "ca_lines a' = ca_lines (arr (caches w c))"
    "ca_closed a' = ca_closed (arr (caches w c))" "ca_opened a' = ca_opened (arr (caches w c))"
    using ca.lookup_quiet [OF _ assms(3), of "arr (caches w c)" oreq False] c by (auto simp: cache_ok_def)
  define w' where "w' = upd_cache c (arr_update (\<lambda>_. a')) w"
  have q: "quiet w w'" using a' by (auto simp: w'_def quiet_def same_arr_def links_def fun_eq_iff)
  have "cache_ok (caches w' d)" if "d < numCaches w" for d
    using that assms(1) a' by (auto simp: w'_def caches_ok_def cache_ok_def)
  then have "caches_ok w'" using assms(1) q by (simp add: caches_ok_def quiet_def)
  moreover have "st w' = st w" "dir w' = dir w" using a'(3) by (simp_all add: w'_def st_def dir_def fun_eq_iff split: option.split)
  ultimately show ?thesis using a'(1) q by (simp add: cache_lookup_def w'_def [symmetric])
qed

section \<open>The effect of an invalidation\<close>

fun down :: "InvType \<Rightarrow> MESIState \<Rightarrow> MESIState" where
  "down INV s = StI" | "down INVX s = (if s = StI then StI else StS)" | "down FWD s = s"

definition subtree :: "'m world \<Rightarrow> address \<Rightarrow> nat \<Rightarrow> nat set" where
  "subtree w a c = {d. d < numCaches w \<and> inside (links w) a c d}"

text \<open>
  \<open>effect ty a R X w w'\<close>: the copies of \<open>a\<close> in the caches \<open>R\<close> are lowered and the entries there agree; nothing else changes,
  except perhaps the entry of the caches \<open>X\<close> for \<open>a\<close>.
\<close>

definition effect :: "InvType \<Rightarrow> address \<Rightarrow> nat set \<Rightarrow> nat set \<Rightarrow> 'm world \<Rightarrow> 'm world \<Rightarrow> bool" where
  "effect ty a R X w w' \<longleftrightarrow> quiet w w' \<and> caches_ok w' \<and>
     (\<forall>d x. d < numCaches w \<longrightarrow> x \<noteq> 0 \<longrightarrow> st w' d x = (if x = a \<and> d \<in> R then down ty (st w d x) else st w d x)) \<and>
     (\<forall>d x. d < numCaches w \<longrightarrow> x \<noteq> 0 \<longrightarrow> \<not> (x = a \<and> d \<in> R \<union> X) \<longrightarrow> dir w' d x = dir w d x) \<and>
     (\<forall>q \<in> R. agrees w' a q)"

definition downward :: "'m world \<Rightarrow> address \<Rightarrow> nat set \<Rightarrow> bool" where
  "downward w a R \<longleftrightarrow> R \<subseteq> {..<numCaches w} \<and>
     (\<forall>q \<in> R. \<forall>k < length (kids (links w) q). home (links w) a (kids (links w) q ! k) = Some (CacheObj q) \<longrightarrow> kids (links w) q ! k \<in> R)"

lemma downward_subtree:
  assumes "caches_ok w"
  shows "downward w a (subtree w a c)"
proof -
  have N: "net_ok (numCaches w) (links w)" using assms by (simp add: caches_ok_def)
  have "kids (links w) q ! k \<in> subtree w a c"
    if "q \<in> subtree w a c" "k < length (kids (links w) q)" "home (links w) a (kids (links w) q ! k) = Some (CacheObj q)" for q k
    using kid_less(2) [OF N _ that(2)] that(1,3) under_step [of "kids (links w) q ! k" c "links w" a] by (simp add: subtree_def)
  then show ?thesis by (auto simp: downward_def subtree_def)
qed

lemma downward_UN: "(\<And>i. i \<in> I \<Longrightarrow> downward w a (R i)) \<Longrightarrow> downward w a (\<Union>i \<in> I. R i)"
  by (fastforce simp: downward_def)

lemma effectD:
  assumes "effect ty a R X w w'"
  shows "quiet w w'" "caches_ok w'" "links w' = links w" "numCaches w' = numCaches w"
    "d < numCaches w \<Longrightarrow> x \<noteq> 0 \<Longrightarrow> st w' d x = (if x = a \<and> d \<in> R then down ty (st w d x) else st w d x)"
    "d < numCaches w \<Longrightarrow> x \<noteq> 0 \<Longrightarrow> \<not> (x = a \<and> d \<in> R \<union> X) \<Longrightarrow> dir w' d x = dir w d x"
    "q \<in> R \<Longrightarrow> agrees w' a q"
  using assms unfolding effect_def by (blast | simp add: quiet_def)+

lemma effect_refl: "caches_ok w \<Longrightarrow> effect ty a {} X w w"
  by (simp add: effect_def)

lemma effect_agrees:
  assumes "effect ty a R X w w'" "caches_ok w" "p < numCaches w" "y \<noteq> 0" "agrees w y p" "y = a \<Longrightarrow> p \<notin> R \<union> X"
    and "\<And>k. y = a \<Longrightarrow> k < length (kids (links w) p) \<Longrightarrow> home (links w) a (kids (links w) p ! k) = Some (CacheObj p) \<Longrightarrow> kids (links w) p ! k \<notin> R"
  shows "agrees w' y p"
proof -
  note e = effectD [OF assms(1)]
  have N: "net_ok (numCaches w) (links w)" using assms(2) by (simp add: caches_ok_def)
  have "dir w' p y = dir w p y" using e(6) [OF assms(3,4)] assms(6) by auto
  moreover have "st w' p y = st w p y" using e(5) [OF assms(3,4)] assms(6) by auto
  moreover have "st w' (kids (links w) p ! k) y = st w (kids (links w) p ! k) y"
    if "k < length (kids (links w) p)" "home (links w) y (kids (links w) p ! k) = Some (CacheObj p)" for k
    using e(5) [OF kid_less(2) [OF N assms(3) that(1)] assms(4)] assms(7) [OF _ that(1)] that(2) by auto
  ultimately show ?thesis using assms(5) ent_ok_cong [of "\<lambda>c. st w' c y" p "\<lambda>c. st w c y" "links w" y] e(3) by simp
qed

lemma effect_compose:
  assumes 1: "effect ty a R X w w1" and 2: "effect ty a R' {} w1 w2" and "R \<inter> R' = {}" "downward w a R" "caches_ok w" "a \<noteq> 0"
  shows "effect ty a (R \<union> R') X w w2"
proof -
  note e = effectD [OF 1] and f = effectD [OF 2]
  have st2: "st w2 d x = (if x = a \<and> d \<in> R \<union> R' then down ty (st w d x) else st w d x)" if "d < numCaches w" "x \<noteq> 0" for d x
    using e(5) [OF that] f(5) [of d x] that e(4) assms(3) by auto
  have dir2: "dir w2 d x = dir w d x" if "d < numCaches w" "x \<noteq> 0" "\<not> (x = a \<and> d \<in> (R \<union> R') \<union> X)" for d x
    using e(6) [OF that(1,2)] f(6) [of d x] that e(4) by auto
  have "agrees w2 a q" if q: "q \<in> R" for q
  proof (rule effect_agrees [OF 2 e(2) _ assms(6)])
    show "q < numCaches w1" using q assms(4) e(4) by (auto simp: downward_def)
    show "agrees w1 a q" by (rule e(7) [OF q])
    show "q \<notin> R' \<union> {}" using q assms(3) by auto
    show "kids (links w1) q ! k \<notin> R'"
      if "k < length (kids (links w1) q)" "home (links w1) a (kids (links w1) q ! k) = Some (CacheObj q)" for k
      using that q assms(3,4) e(3) by (auto simp: downward_def)
  qed
  then show ?thesis using quiet_trans [OF e(1) f(1)] f(2,7) st2 dir2 unfolding effect_def by blast
qed

lemma effect_entry:
  assumes 1: "effect ty a R X w w1" and "p \<in> X" "p \<notin> R" "at_line w1 p a i" "tcc (caches w1 p) = Some t" "st w1 p a \<noteq> StI"
  shows "effect ty a R X w (set_entry p i e w1)" "dir (set_entry p i e w1) p a = e"
proof -
  note f = effectD [OF 1]
  have p: "p < numCaches w1" "a \<noteq> 0" using assms(4) by (simp_all add: at_line_def)
  note d = dir_set_entry [OF f(2) assms(4,5)]
  have L: "links (set_entry p i e w1) = links w1" using quiet_updates(2) [of w1 p i e] by (simp add: quiet_def)
  have ag: "agrees (set_entry p i e w1) a q" if "q \<in> R" for q
  proof -
    have "q \<noteq> p" using that assms(3) by auto
    then show ?thesis using f(7) [OF that] d [OF p(2)] L by simp
  qed
  have dd: "dir (set_entry p i e w1) d x = dir w d x" if "d < numCaches w" "x \<noteq> 0" "\<not> (x = a \<and> d \<in> R \<union> X)" for d x
    using f(6) [OF that] d [OF that(2), of e d] that(3) assms(2) by auto
  have ok: "caches_ok (set_entry p i e w1)" by (rule set_entry_ok [OF f(2) assms(4)]) (use assms(6) in simp)
  show "effect ty a R X w (set_entry p i e w1)"
    unfolding effect_def
  proof (intro conjI allI impI ballI)
    show "quiet w (set_entry p i e w1)" by (rule quiet_trans [OF f(1) quiet_updates(2)])
    show "st (set_entry p i e w1) d x = (if x = a \<and> d \<in> R then down ty (st w d x) else st w d x)" if "d < numCaches w" "x \<noteq> 0" for d x
      using f(5) [OF that] by simp
  qed (use ok dd ag in auto)
  show "dir (set_entry p i e w1) p a = e" using d [OF p(2)] by simp
qed

section \<open>Sending invalidations\<close>

text \<open>What an invalidation of a valid copy achieves, for calls whose depth is at most \<open>m\<close>.\<close>

definition inv_ok :: "nat \<Rightarrow> 'm inv_call \<Rightarrow> bool" where
  "inv_ok m inval \<longleftrightarrow> (\<forall>w c req wb.
     caches_ok w \<longrightarrow> c < numCaches w \<longrightarrow> numCaches w \<le> c + m \<longrightarrow> inv_addr req \<noteq> 0 \<longrightarrow> inv_type req \<noteq> FWD \<longrightarrow>
     (\<forall>q \<in> subtree w (inv_addr req) c. agrees w (inv_addr req) q) \<longrightarrow> st w c (inv_addr req) \<noteq> StI \<longrightarrow>
     (inv_type req = INVX \<longrightarrow> excl (st w c (inv_addr req))) \<longrightarrow>
     ok (inval c req wb w) (\<lambda>(resp, wb', w'). inv_cycle req \<le> resp \<and>
       (wb' \<longleftrightarrow> wb \<or> (\<exists>d \<in> subtree w (inv_addr req) c. st w d (inv_addr req) = StM)) \<and>
       effect (inv_type req) (inv_addr req) (subtree w (inv_addr req) c) {} w w'))"

lemma inv_okD:
  assumes "inv_ok m inval" "caches_ok w" "c < numCaches w" "numCaches w \<le> c + m" "a \<noteq> 0" "ty \<noteq> FWD" "\<And>q. q \<in> subtree w a c \<Longrightarrow> agrees w a q"
    "st w c a \<noteq> StI" "ty = INVX \<Longrightarrow> excl (st w c a)"
  shows "ok (inval c \<lparr>inv_addr = a, inv_type = ty, inv_cycle = cyc, inv_srcId = src\<rparr> wb w) (\<lambda>(resp, wb', w'). cyc \<le> resp \<and>
    (wb' \<longleftrightarrow> wb \<or> (\<exists>d \<in> subtree w a c. st w d a = StM)) \<and> effect ty a (subtree w a c) {} w w')"
  using assms(1) [unfolded inv_ok_def, rule_format, of w c "\<lparr>inv_addr = a, inv_type = ty, inv_cycle = cyc, inv_srcId = src\<rparr>" wb] assms(2-) by simp

definition sendable :: "'m world \<Rightarrow> nat \<Rightarrow> address \<Rightarrow> nat set \<Rightarrow> bool" where
  "sendable w p a S \<longleftrightarrow> (\<forall>k \<in> S. k < length (kids (links w) p) \<and> home (links w) a (kids (links w) p ! k) = Some (CacheObj p) \<and>
     st w (kids (links w) p ! k) a \<noteq> StI)"

definition reached :: "'m world \<Rightarrow> nat \<Rightarrow> address \<Rightarrow> nat set \<Rightarrow> nat set" where
  "reached w p a S = (\<Union>k \<in> S. subtree w a (kids (links w) p ! k))"

lemma reached_Un: "reached w p a (S \<union> T) = reached w p a S \<union> reached w p a T"
  by (auto simp: reached_def)

lemma downward_reached: "caches_ok w \<Longrightarrow> downward w a (reached w p a S)"
  unfolding reached_def by (rule downward_UN [OF downward_subtree])

lemma reached_apart:
  assumes "caches_ok w" "p < numCaches w" "sendable w p a S" "sendable w p a T" "S \<inter> T = {}"
  shows "reached w p a S \<inter> reached w p a T = {}"
proof -
  have N: "net_ok (numCaches w) (links w)" using assms(1) by (simp add: caches_ok_def)
  have False if k: "k \<in> S" "k' \<in> T" and d: "d \<in> subtree w a (kids (links w) p ! k)" "d \<in> subtree w a (kids (links w) p ! k')" for k k' d
  proof -
    have "kids (links w) p ! k = kids (links w) p ! k'"
      using kids_apart [OF N, of "kids (links w) p ! k" "kids (links w) p ! k'" a p d] kid_less(2) [OF N assms(2)] assms(3,4) k d
      by (auto simp: sendable_def subtree_def)
    then have "k = k'" using kid_less(3) [OF N assms(2)] assms(3,4) k by (metis sendable_def)
    then show False using k assms(5) by auto
  qed
  then show ?thesis by (auto simp: reached_def)
qed

lemma reached_above:
  assumes "caches_ok w" "p < numCaches w" "sendable w p a S" "d \<in> reached w p a S"
  shows "p < d" "d < numCaches w" "inside (links w) a p d"
proof -
  have N: "net_ok (numCaches w) (links w)" using assms(1) by (simp add: caches_ok_def)
  obtain k where k: "k \<in> S" "d < numCaches w" "inside (links w) a (kids (links w) p ! k) d" using assms(4) by (auto simp: reached_def subtree_def)
  have "k < length (kids (links w) p)" "home (links w) a (kids (links w) p ! k) = Some (CacheObj p)" using assms(3) k(1) by (auto simp: sendable_def)
  then show "p < d" "d < numCaches w" "inside (links w) a p d"
    using kid_less(1) [OF N assms(2), of k] under_le [OF N k(2,3)] k kid_under by auto
qed

lemma tcc_link:
  assumes "links w p = links w1 p" "tcc (caches w1 p) = Some t1"
  shows "\<exists>t. tcc (caches w p) = Some t \<and> t_link t = t_link t1" "children (t_link t1) = kids (links w1) p"
  using assms by (auto simp: links_def kids_def)

lemma send_one_ok:
  assumes inval: "inv_ok m inval" and ok: "caches_ok w" and p: "p < numCaches w" "numCaches w \<le> Suc (p + m)" and a: "at_line w p a i" "st w p a \<noteq> StI"
    and S: "sendable w p a S" "S = sharers (dir w p a)" and ag: "\<And>q. q \<in> reached w p a S \<Longrightarrow> agrees w a q" and ty: "ty \<noteq> FWD"
    and ex: "ty = INVX \<Longrightarrow> \<forall>k \<in> S. excl (st w (kids (links w) p ! k) a)" and t: "tcc (caches w p) = Some t"
    and j: "j < length (kids (links w) p)" and eff: "effect ty a (reached w p a {k \<in> S. k < j}) {p} w w1"
    and e: "dir w1 p a = (if ty = INV then (dir w p a)\<lparr>sharers := S - {..<j}\<rparr> else dir w p a)"
    and wb: "wb' \<longleftrightarrow> wb \<or> (\<exists>d \<in> reached w p a {k \<in> S. k < j}. st w d a = StM)" and mc: "cyc \<le> maxc"
  shows "ok (send_one inval p a i ty cyc src j (maxc, card {k \<in> S. k < j}, wb', w1))
    (\<lambda>(maxc, sent, wb', w1). cyc \<le> maxc \<and> sent = card {k \<in> S. k < Suc j} \<and> (wb' \<longleftrightarrow> wb \<or> (\<exists>d \<in> reached w p a {k \<in> S. k < Suc j}. st w d a = StM)) \<and>
       effect ty a (reached w p a {k \<in> S. k < Suc j}) {p} w w1 \<and>
       dir w1 p a = (if ty = INV then (dir w p a)\<lparr>sharers := S - {..<Suc j}\<rparr> else dir w p a))"
proof -
  note E = effectD [OF eff]
  have N: "net_ok (numCaches w) (links w)" using ok by (simp add: caches_ok_def)
  have al: "at_line w1 p a i" using at_line_quiet [OF E(1)] a(1) by simp
  have a0: "a \<noteq> 0" using a(1) by (simp add: at_line_def)
  obtain t1 where t1: "tcc (caches w1 p) = Some t1" "t_link t1 = t_link t" "children (t_link t) = kids (links w) p"
    using tcc_link [of w1 p w t] E(3) t by auto
  have ent: "entry_at p i w1 = Some (dir w1 p a)" using at_lineD(5) [OF E(2) al t1(1)] by simp
  have mem: "j \<in> sharers (dir w1 p a) \<longleftrightarrow> j \<in> S" using e S(2) by auto
  define J where "J = {k \<in> S. k < j}"
  have SJ: "sendable w p a J" "J \<subseteq> S" using S(1) by (auto simp: sendable_def J_def)
  show ?thesis
  proof (cases "j \<in> S")
    case False
    have "{k \<in> S. k < Suc j} = {k \<in> S. k < j}" "S - {..<Suc j} = S - {..<j}" using False by (auto simp: less_Suc_eq)
    then show ?thesis using ent mem False eff e wb mc by (simp add: send_one_def)
  next
    case True
    define c where "c = kids (links w) p ! j"
    have c: "c < numCaches w" "p < c" "home (links w) a c = Some (CacheObj p)" "st w c a \<noteq> StI"
      using kid_less(1,2) [OF N p(1) j] S(1) True by (auto simp: c_def sendable_def)
    have sj: "sendable w p a {j}" using S(1) True by (simp add: sendable_def)
    have R: "reached w p a {j} = subtree w a c" by (simp add: reached_def c_def)
    have apart: "reached w p a J \<inter> subtree w a c = {}" using reached_apart [OF ok p(1) SJ(1) sj] R by (auto simp: J_def)
    have all: "{k \<in> S. k < Suc j} = J \<union> {j}" using True by (auto simp: J_def less_Suc_eq)
    have sub1: "subtree w1 a c = subtree w a c" using E(3,4) by (simp add: subtree_def)
    have out: "d \<notin> reached w p a J" if "d \<in> subtree w a c" for d using apart that by auto
    have cin: "c \<in> subtree w a c" using c(1) by (simp add: subtree_def)
    have st1: "st w1 d a = st w d a" if "d \<in> subtree w a c" for d
      using E(5) [of d a] out [OF that] a0 that by (simp add: J_def subtree_def)
    have ag1: "agrees w1 a q" if q: "q \<in> subtree w a c" for q
    proof (rule effect_agrees [OF eff ok _ a0 ag])
      show "q < numCaches w" "q \<in> reached w p a S" using q True by (auto simp: subtree_def reached_def c_def)
      show "q \<notin> reached w p a {k \<in> S. k < j} \<union> {p}"
        using out [OF q] reached_above(1) [OF ok p(1) sj, of q] q R by (auto simp: J_def)
      show "kids (links w) q ! k \<notin> reached w p a {k \<in> S. k < j}"
        if "k < length (kids (links w) q)" "home (links w) a (kids (links w) q ! k) = Some (CacheObj q)" for k
        using downward_subtree [OF ok, of a c] q that out by (auto simp: downward_def J_def)
    qed
    define req where "req = \<lparr>inv_addr = a, inv_type = ty, inv_cycle = cyc, inv_srcId = src\<rparr>"
    have call: "ok (inval c req wb' w1) (\<lambda>(resp, wb2, w2). cyc \<le> resp \<and> (wb2 \<longleftrightarrow> wb' \<or> (\<exists>d \<in> subtree w a c. st w d a = StM)) \<and>
        effect ty a (subtree w a c) {} w1 w2)"
      unfolding req_def
      by (rule ok_conseq [OF inv_okD [OF inval E(2) _ _ a0 ty]]) (use E(4) c p(2) ag1 st1 [OF cin] ex True st1 sub1 in \<open>auto simp: c_def [symmetric]\<close>)
    have step: "ok (do {
        (resp, wb2, w2) \<leftarrow> inval c req wb' w1;
        e \<leftarrow> entry_at p i w2;
        Some (max (resp + childrenRTTs (t_link t) ! j) maxc, card J + 1, wb2,
          (if ty = INV then set_entry p i (e\<lparr>sharers := sharers e - {j}\<rparr>) w2 else w2)) })
      (\<lambda>(maxc, sent, wb', w1). cyc \<le> maxc \<and> sent = card (J \<union> {j}) \<and> (wb' \<longleftrightarrow> wb \<or> (\<exists>d \<in> reached w p a (J \<union> {j}). st w d a = StM)) \<and>
       effect ty a (reached w p a (J \<union> {j})) {p} w w1 \<and>
       dir w1 p a = (if ty = INV then (dir w p a)\<lparr>sharers := S - {..<Suc j}\<rparr> else dir w p a))"
    proof (rule ok_bind [OF call])
      fix x
      assume x: "case x of (resp, wb2, w2) \<Rightarrow> cyc \<le> resp \<and> (wb2 \<longleftrightarrow> wb' \<or> (\<exists>d \<in> subtree w a c. st w d a = StM)) \<and>
        effect ty a (subtree w a c) {} w1 w2"
      obtain resp wb2 w2 where r0: "x = (resp, wb2, w2)" by (cases x)
      then have r: "cyc \<le> resp" "wb2 \<longleftrightarrow> wb' \<or> (\<exists>d \<in> subtree w a c. st w d a = StM)" "effect ty a (subtree w a c) {} w1 w2"
        using x by simp_all
      note F = effectD [OF r(3)]
      have eff2: "effect ty a (reached w p a (J \<union> {j})) {p} w w2"
        unfolding reached_Un R
        by (rule effect_compose [OF eff [folded J_def] r(3) apart downward_reached [OF ok] ok a0])
      have al2: "at_line w2 p a i" using at_line_quiet [OF F(1)] al by simp
      obtain t2 where t2: "tcc (caches w2 p) = Some t2" using tcc_link(1) [of w2 p w1 t1] F(3) t1(1) by auto
      have pn: "p \<notin> subtree w a c" "p \<notin> reached w p a (J \<union> {j})"
        using reached_above(1) [OF ok p(1) sj, of p] reached_above(1) [OF ok p(1) SJ(1), of p] R
          reached_Un [of w p a J "{j}"] by auto
      have dir2: "dir w2 p a = dir w1 p a" using F(6) [of p a] pn(1) p(1) a0 E(4) by simp
      have st2: "st w2 p a \<noteq> StI" using effectD(5) [OF eff2 p(1) a0] pn(2) a(2) by simp
      have "entry_at p i w2 = Some (dir w2 p a)" using at_lineD(5) [OF F(2) al2 t2] by simp
      moreover have "card J + 1 = card (J \<union> {j})"
        using True by (subst card_Un_disjoint) (auto simp: J_def)
      moreover have "wb2 \<longleftrightarrow> wb \<or> (\<exists>d \<in> reached w p a (J \<union> {j}). st w d a = StM)"
        using r(2) wb [folded J_def] unfolding reached_Un R by blast
      moreover have "(S - {..<j}) - {j} = S - {..<Suc j}" by (auto simp: less_Suc_eq)
      ultimately show "ok (case x of (resp, wb2, w2) \<Rightarrow> entry_at p i w2 \<bind> (\<lambda>e. Some (max (resp + childrenRTTs (t_link t) ! j) maxc, card J + 1, wb2,
          if ty = INV then set_entry p i (e\<lparr>sharers := sharers e - {j}\<rparr>) w2 else w2)))
        (\<lambda>(maxc, sent, wb', w1). cyc \<le> maxc \<and> sent = card (J \<union> {j}) \<and> (wb' \<longleftrightarrow> wb \<or> (\<exists>d \<in> reached w p a (J \<union> {j}). st w d a = StM)) \<and>
         effect ty a (reached w p a (J \<union> {j})) {p} w w1 \<and>
         dir w1 p a = (if ty = INV then (dir w p a)\<lparr>sharers := S - {..<Suc j}\<rparr> else dir w p a))"
        using r(1) eff2 effect_entry [OF eff2 _ pn(2) al2 t2 st2] dir2 e r0 by (cases "ty = INV") (simp_all add: le_max_iff_disj)
    qed
    have "j < length (childrenRTTs (t_link t))"
      using N p(1) t j t1(3) by (auto simp: net_ok_def links_def)
    then show ?thesis using step ent mem True t1 j all by (simp add: send_one_def J_def [symmetric] c_def [symmetric] req_def [symmetric])
  qed
qed

lemma sendInvalidates_ok:
  assumes inval: "inv_ok m inval" and ok: "caches_ok w" and p: "numCaches w \<le> Suc (p + m)" and a: "at_line w p a i" "S \<noteq> {} \<Longrightarrow> st w p a \<noteq> StI"
    and S: "sendable w p a S" "S = sharers (dir w p a)" "numSharers (dir w p a) = card S"
    and ag: "\<And>q. q \<in> reached w p a S \<Longrightarrow> agrees w a q" and ty: "ty \<noteq> FWD" and t: "tcc (caches w p) = Some t"
    and ex: "ty = INVX \<Longrightarrow> e_isExclusive (dir w p a) \<Longrightarrow> \<forall>k \<in> S. excl (st w (kids (links w) p ! k) a)"
    and T: "T = (if ty = INVX \<and> \<not> e_isExclusive (dir w p a) then {} else S)"
  shows "ok (sendInvalidates inval p a i ty wb cyc src w)
    (\<lambda>(resp, wb', w'). cyc \<le> resp \<and> (wb' \<longleftrightarrow> wb \<or> (\<exists>d \<in> reached w p a T. st w d a = StM)) \<and>
       effect ty a (reached w p a T) {p} w w' \<and>
       dir w' p a = (if T = {} then dir w p a
         else if ty = INV then (dir w p a)\<lparr>sharers := {}, numSharers := 0\<rparr> else (dir w p a)\<lparr>exclusive := False\<rparr>))"
proof -
  have pn: "p < numCaches w" "a \<noteq> 0" using a(1) by (simp_all add: at_line_def)
  have ent: "entry_at p i w = Some (dir w p a)" using at_lineD(5) [OF ok a(1) t] by simp
  have fin: "finite S" using S(1) by (auto simp: sendable_def intro: finite_subset [of S "{..<length (kids (links w) p)}"])
  have kd: "children (t_link t) = kids (links w) p" using t by (simp add: links_def kids_def)
  show ?thesis
  proof (cases "T = {}")
    case True
    then have "ty = INVX \<and> \<not> e_isExclusive (dir w p a) \<or> isEmpty (dir w p a)" using T S(3) by (auto simp: isEmpty_def split: if_splits)
    then show ?thesis using True ent effect_refl [OF ok, of ty a "{p}"] by (auto simp: sendInvalidates_def reached_def)
  next
    case False
    then have act: "\<not> (ty = INVX \<and> \<not> e_isExclusive (dir w p a))" "T = S" "S \<noteq> {}" using T by (auto split: if_splits)
    have ne: "\<not> isEmpty (dir w p a)" using S(3) act(3) fin by (simp add: isEmpty_def)
    have stp: "st w p a \<noteq> StI" by (rule a(2) [OF act(3)])
    have exS: "\<forall>k \<in> S. excl (st w (kids (links w) p ! k) a)" if "ty = INVX" using ex act(1) that by auto
    let ?P = "\<lambda>j (maxc, sent, wb', w1). cyc \<le> maxc \<and> sent = card {k \<in> S. k < j} \<and> (wb' \<longleftrightarrow> wb \<or> (\<exists>d \<in> reached w p a {k \<in> S. k < j}. st w d a = StM)) \<and>
       effect ty a (reached w p a {k \<in> S. k < j}) {p} w w1 \<and>
       dir w1 p a = (if ty = INV then (dir w p a)\<lparr>sharers := S - {..<j}\<rparr> else dir w p a)"
    have e0: "(dir w p a)\<lparr>sharers := S - {..<0}\<rparr> = dir w p a" using S(2) by simp
    have all: "{k \<in> S. k < length (kids (links w) p)} = S" "S - {..<length (kids (links w) p)} = {}" using S(1) by (auto simp: sendable_def)
    have loop: "ok (foldM (send_one inval p a i ty cyc src) [0..<length (kids (links w) p)] (cyc, 0, wb, w)) (?P (length (kids (links w) p)))"
    proof (rule ok_foldM_upt, simp)
      show "?P 0 (cyc, 0, wb, w)" using effect_refl [OF ok] e0 by (simp add: reached_def)
      show "ok (send_one inval p a i ty cyc src j s) (?P (Suc j))" if "0 \<le> j" "j < length (kids (links w) p)" "?P j s" for j s
        using that(3) send_one_ok [OF inval ok pn(1) p a(1) stp S(1,2) ag ty exS t that(2)] by (cases s) auto
    qed
    have rest: "ok (do { e \<leftarrow> entry_at p i w1; assert_that (card S = numSharers e);
        w' \<leftarrow> (if ty = INV then Some (set_entry p i (e\<lparr>numSharers := 0\<rparr>) w1)
              else do { assert_that (exclusive e); assert_that (numSharers e = 1); Some (set_entry p i (e\<lparr>exclusive := False\<rparr>) w1) });
        Some (maxc, wb', w') })
      (\<lambda>(resp, wb', w'). cyc \<le> resp \<and> (wb' \<longleftrightarrow> wb \<or> (\<exists>d \<in> reached w p a T. st w d a = StM)) \<and>
       effect ty a (reached w p a T) {p} w w' \<and>
       dir w' p a = (if ty = INV then (dir w p a)\<lparr>sharers := {}, numSharers := 0\<rparr> else (dir w p a)\<lparr>exclusive := False\<rparr>))"
      if P: "cyc \<le> maxc" "wb' \<longleftrightarrow> wb \<or> (\<exists>d \<in> reached w p a S. st w d a = StM)" "effect ty a (reached w p a S) {p} w w1"
        "dir w1 p a = (if ty = INV then (dir w p a)\<lparr>sharers := {}\<rparr> else dir w p a)" for maxc wb' w1
    proof -
      note E = effectD [OF P(3)]
      have al: "at_line w1 p a i" using at_line_quiet [OF E(1)] a(1) by simp
      obtain t1 where t1: "tcc (caches w1 p) = Some t1" using tcc_link(1) [of w1 p w t] E(3) t by auto
      have pR: "p \<notin> reached w p a S" using reached_above(1) [OF ok pn(1) S(1), of p] by auto
      have st1: "st w1 p a \<noteq> StI" using E(5) [OF pn] pR stp by simp
      have "entry_at p i w1 = Some (dir w1 p a)" using at_lineD(5) [OF E(2) al t1] by simp
      moreover have "ty = INV \<or> ty = INVX \<and> exclusive (dir w p a) \<and> numSharers (dir w p a) = 1"
        using ty act(1) by (cases ty) (auto simp: e_isExclusive_def)
      ultimately show ?thesis
        using P effect_entry [OF P(3) _ pR al t1 st1] S(3) act(2) by auto
    qed
    have body: "sendInvalidates inval p a i ty wb cyc src w = do {
        (maxc, sent, wb', w1) \<leftarrow> foldM (send_one inval p a i ty cyc src) [0..<length (kids (links w) p)] (cyc, 0, wb, w);
        e \<leftarrow> entry_at p i w1; assert_that (sent = numSharers e);
        w' \<leftarrow> (if ty = INV then Some (set_entry p i (e\<lparr>numSharers := 0\<rparr>) w1)
              else do { assert_that (exclusive e); assert_that (numSharers e = 1); Some (set_entry p i (e\<lparr>exclusive := False\<rparr>) w1) });
        Some (maxc, wb', w') }"
      using ent ne t kd act(1) by (cases "ty = INVX") (simp_all add: sendInvalidates_def)
    show ?thesis unfolding body if_not_P [OF False]
      by (rule ok_bind [OF loop], unfold all, clarify) (rule rest, auto)
  qed
qed

section \<open>Invalidations\<close>

lemma terminal_subtree:
  assumes "caches_ok w" "tcc (caches w c) = None" "c < numCaches w"
  shows "subtree w a c = {c}"
proof -
  have N: "net_ok (numCaches w) (links w)" using assms(1) by (simp add: caches_ok_def)
  have "kids (links w) c = []" using assms(2) by (simp add: kids_def links_def)
  then have "d = c" if "d < numCaches w" "inside (links w) a c d" for d using under_via_kid [OF N that] by auto
  then show ?thesis using assms(3) by (auto simp: subtree_def)
qed

lemma subtree_reached:
  assumes ok: "caches_ok w" and c: "c < numCaches w" and e: "agrees w a c"
  shows "d \<in> subtree w a c \<Longrightarrow> d = c \<or> d \<in> reached w c a (sharers (dir w c a)) \<or>
    (\<exists>k < length (kids (links w) c). home (links w) a (kids (links w) c ! k) = Some (CacheObj c) \<and>
       st w (kids (links w) c ! k) a = StI \<and> d \<in> subtree w a (kids (links w) c ! k))"
    "sendable w c a (sharers (dir w c a))" "c \<in> subtree w a c" "reached w c a (sharers (dir w c a)) \<subseteq> subtree w a c"
proof -
  have N: "net_ok (numCaches w) (links w)" using ok by (simp add: caches_ok_def)
  show s: "sendable w c a (sharers (dir w c a))" using e by (auto simp: ent_ok_def sendable_def)
  show "c \<in> subtree w a c" using c by (simp add: subtree_def)
  show "reached w c a (sharers (dir w c a)) \<subseteq> subtree w a c" using reached_above(2,3) [OF ok c s] by (auto simp: subtree_def)
  show "d = c \<or> d \<in> reached w c a (sharers (dir w c a)) \<or>
    (\<exists>k < length (kids (links w) c). home (links w) a (kids (links w) c ! k) = Some (CacheObj c) \<and>
       st w (kids (links w) c ! k) a = StI \<and> d \<in> subtree w a (kids (links w) c ! k))" if d: "d \<in> subtree w a c"
  proof (cases "d = c")
    case False
    then obtain k where k: "k < length (kids (links w) c)" "home (links w) a (kids (links w) c ! k) = Some (CacheObj c)"
      "inside (links w) a (kids (links w) c ! k) d" using under_via_kid [OF N, of d c a] d by (auto simp: subtree_def)
    then have "d \<in> subtree w a (kids (links w) c ! k)" using d by (simp add: subtree_def)
    then show ?thesis using k e by (cases "st w (kids (links w) c ! k) a = StI") (auto simp: reached_def ent_ok_def)
  qed simp
qed

text \<open>Below a copy that is already as low as the invalidation demands, nothing is left to lower.\<close>

lemma kid_subtree:
  assumes "caches_ok w" "c < numCaches w" "k < length (kids (links w) c)" "home (links w) a (kids (links w) c ! k) = Some (CacheObj c)"
  shows "subtree w a (kids (links w) c ! k) \<subseteq> subtree w a c"
  using kid_under [OF assms(4)] by (auto simp: subtree_def)

lemma low_below:
  assumes ok: "caches_ok w" and ag: "\<And>q. q \<in> subtree w a c \<Longrightarrow> agrees w a q" and d: "d \<in> subtree w a c"
  shows "st w c a = StI \<Longrightarrow> st w d a = StI" "\<not> excl (st w c a) \<Longrightarrow> \<not> excl (st w d a)"
proof -
  have N: "net_ok (numCaches w) (links w)" using ok by (simp add: caches_ok_def)
  have "ent_ok (links w) (\<lambda>c. st w c a) (dir w q a) a q" if "q < numCaches w" "inside (links w) a c q" for q
    using ag that by (simp add: subtree_def)
  note b = below [OF N this, of c d]
  show "st w c a = StI \<Longrightarrow> st w d a = StI" "\<not> excl (st w c a) \<Longrightarrow> \<not> excl (st w d a)"
    using b d by (auto simp: subtree_def)
qed

lemma reached_home:
  assumes "caches_ok w" "c < numCaches w" "sendable w c a T" "x \<in> reached w c a T" "home (links w) a x = Some (CacheObj q)" "q \<noteq> c"
  shows "q \<in> reached w c a T"
proof -
  have N: "net_ok (numCaches w) (links w)" using assms(1) by (simp add: caches_ok_def)
  obtain k where k: "k \<in> T" "x < numCaches w" "inside (links w) a (kids (links w) c ! k) x" using assms(4) by (auto simp: reached_def subtree_def)
  have "home (links w) a (kids (links w) c ! k) = Some (CacheObj c)" using assms(3) k(1) by (auto simp: sendable_def)
  then have "x \<noteq> kids (links w) c ! k" using assms(5,6) by auto
  then have "inside (links w) a (kids (links w) c ! k) q" using k(3) assms(5) under_step [of x "kids (links w) c ! k" "links w" a] by auto
  moreover have "q < numCaches w" using home_kid(1) [OF N k(2) assms(5)] k(2) by simp
  ultimately show ?thesis using k(1) by (auto simp: reached_def subtree_def)
qed

text \<open>The entry of a cache after its copy and those below it were lowered.\<close>

lemma ent_ok_down:
  assumes e: "ent_ok N S e a c" and ty: "ty \<noteq> FWD" and T: "T = (if ty = INVX \<and> \<not> e_isExclusive e then {} else sharers e)"
    and e': "e' = (if T = {} then e else if ty = INV then e\<lparr>sharers := {}, numSharers := 0\<rparr> else e\<lparr>exclusive := False\<rparr>)"
  shows "ent_ok N (\<lambda>d. down ty (S d)) e' a c" "down ty (S c) = StI \<Longrightarrow> vacant e'"
proof -
  have fin: "finite (sharers e)" by (rule ent_ok_finite [OF e])
  show "ent_ok N (\<lambda>d. down ty (S d)) e' a c"
  proof (cases ty)
    case INV
    then have "sharers e' = {}" "numSharers e' = 0" using e e' T by (auto simp: ent_ok_def)
    then show ?thesis using INV by (simp add: ent_ok_def holders_def)
  next
    case INVX
    have "sharers e' = sharers e" "numSharers e' = numSharers e" using e' INVX by simp_all
    moreover have "\<not> exclusive e'" if "k \<in> sharers e" for k
    proof -
      have "card (sharers e) \<noteq> 0" using that fin by auto
      then show ?thesis using e e' T INVX that by (auto simp: e_isExclusive_def ent_ok_def split: if_splits)
    qed
    moreover have "exclusive e' \<longrightarrow> exclusive e" using e' by simp
    ultimately show ?thesis using e INVX by (auto simp: ent_ok_def excl_def)
  qed (use ty in simp)
  show "vacant e'" if "down ty (S c) = StI"
  proof (cases ty)
    case INVX
    then have "S c = StI" using that by (simp split: if_splits)
    then have "sharers e = {}" using e by (auto simp: ent_ok_def)
    then show ?thesis using e e' T by (auto simp: vacant_def ent_ok_def split: if_splits)
  qed (use ty e e' T in \<open>auto simp: vacant_def ent_ok_def\<close>)
qed

text \<open>In the subtree, the copies that are not reached need not be lowered.\<close>

lemma flat_below:
  assumes ok: "caches_ok w" and ag: "\<And>q. q \<in> subtree w a c \<Longrightarrow> agrees w a q" and cn: "c < numCaches w"
    and T: "T = (if ty = INVX \<and> \<not> e_isExclusive (dir w c a) then {} else sharers (dir w c a))"
    and d: "d \<in> subtree w a c" "d \<noteq> c" "d \<notin> reached w c a T"
  shows "down ty (st w d a) = st w d a"
proof -
  have agc: "agrees w a c" by (rule ag) (use cn in \<open>simp add: subtree_def\<close>)
  note sr = subtree_reached [OF ok cn agc]
  show ?thesis
  proof (cases "d \<in> reached w c a (sharers (dir w c a))")
    case True
    then have t: "ty = INVX" "\<not> e_isExclusive (dir w c a)" using d(3) T by (auto split: if_splits)
    obtain k where k: "k \<in> sharers (dir w c a)" "d \<in> subtree w a (kids (links w) c ! k)" using True by (auto simp: reached_def)
    then have kid: "k < length (kids (links w) c)" "home (links w) a (kids (links w) c ! k) = Some (CacheObj c)" using sr(2) by (auto simp: sendable_def)
    have "card (sharers (dir w c a)) \<noteq> 0" using k(1) ent_ok_finite [OF agc] by auto
    then have "\<not> exclusive (dir w c a)" using agc t(2) by (auto simp: ent_ok_def e_isExclusive_def)
    then have "\<not> excl (st w (kids (links w) c ! k) a)" using agc k(1) unfolding ent_ok_def by blast
    then have "\<not> excl (st w d a)" using low_below(2) [OF ok ag k(2)] kid_subtree [OF ok cn kid] by auto
    then show ?thesis using t(1) by (cases "st w d a") (simp_all add: excl_def)
  next
    case False
    then obtain k where k: "k < length (kids (links w) c)" "home (links w) a (kids (links w) c ! k) = Some (CacheObj c)"
      "st w (kids (links w) c ! k) a = StI" "d \<in> subtree w a (kids (links w) c ! k)" using sr(1) [OF d(1)] d(2) by blast
    have "st w d a = StI" using low_below(1) [OF ok ag k(4)] kid_subtree [OF ok cn k(1,2)] k(3) by auto
    then show ?thesis by (cases ty) simp_all
  qed
qed

text \<open>Lowering the copy of a cache after those below it.\<close>

lemma lower_self:
  assumes ok: "caches_ok w" and ag: "\<And>q. q \<in> subtree w a c \<Longrightarrow> agrees w a q" and ty: "ty \<noteq> FWD"
    and T: "T = (if ty = INVX \<and> \<not> e_isExclusive (dir w c a) then {} else sharers (dir w c a))" and c: "at_line w c a i"
    and eff: "effect ty a (reached w c a T) {c} w w1"
    and e: "dir w1 c a = (if T = {} then dir w c a
         else if ty = INV then (dir w c a)\<lparr>sharers := {}, numSharers := 0\<rparr> else (dir w c a)\<lparr>exclusive := False\<rparr>)"
  shows "effect ty a (subtree w a c) {} w (set_line c i (down ty (st w c a)) w1)"
proof -
  have cn: "c < numCaches w" "a \<noteq> 0" using c by (simp_all add: at_line_def)
  have N: "net_ok (numCaches w) (links w)" using ok by (simp add: caches_ok_def)
  note E = effectD [OF eff]
  have agc: "agrees w a c" by (rule ag) (use cn in \<open>simp add: subtree_def\<close>)
  note sr = subtree_reached [OF ok cn(1) agc] and D = ent_ok_down [OF agc ty T e]
  have sT: "sendable w c a T" "T \<subseteq> sharers (dir w c a)" using sr(2) T by (auto simp: sendable_def split: if_splits)
  have RT: "reached w c a T \<subseteq> subtree w a c" using sT(2) sr(4) by (auto simp: reached_def)
  have al: "at_line w1 c a i" using at_line_quiet [OF E(1)] c by simp
  let ?w2 = "set_line c i (down ty (st w c a)) w1"
  have L2: "links ?w2 = links w" "quiet w1 ?w2" using quiet_updates(1) [of w1 c i "down ty (st w c a)"] E(3) by (simp_all add: quiet_def)
  have st2: "st ?w2 d x = (if x = a \<and> d \<in> subtree w a c then down ty (st w d x) else st w d x)" if "d < numCaches w" "x \<noteq> 0" for d x
    using st_set_line [OF E(2) al that(2)] E(5) [OF that] flat_below [OF ok ag cn(1) T, of d] sr(3) RT by auto
  have ag2: "agrees ?w2 a q" if q: "q \<in> subtree w a c" for q
  proof (cases "q = c")
    case True
    have kid: "st ?w2 (kids (links w) c ! k) a = down ty (st w (kids (links w) c ! k) a)"
      if "k < length (kids (links w) c)" "home (links w) a (kids (links w) c ! k) = Some (CacheObj c)" for k
      using st2 [OF kid_less(2) [OF N cn(1) that(1)] cn(2)] kid_less(2) [OF N cn(1) that(1)] that(2)
        under_step [of "kids (links w) c ! k" c "links w" a] by (simp add: subtree_def)
    have self: "st ?w2 c a = down ty (st w c a)" using st2 [OF cn] sr(3) by simp
    show ?thesis using True D(1) L2 self ent_ok_cong [of "\<lambda>d. st ?w2 d a" c "\<lambda>d. down ty (st w d a)" "links w" a] kid by simp
  next
    case False
    have qn: "q < numCaches w" using q by (simp add: subtree_def)
    have "agrees w1 a q"
    proof (cases "q \<in> reached w c a T")
      case out: False
      show ?thesis
        by (rule effect_agrees [OF eff ok qn cn(2) ag [OF q]]) (use out False reached_home [OF ok cn(1) sT(1)] in auto)
    qed (rule E(7))
    moreover have "kids (links w) q ! k \<noteq> c" if "k < length (kids (links w) q)" for k
      using kid_less(1) [OF N qn that] under_le [OF N qn, of c a] q by (auto simp: subtree_def)
    ultimately show ?thesis
      using False L2 E(3) st_set_line [OF E(2) al cn(2)] ent_ok_cong [of "\<lambda>d. st ?w2 d a" q "\<lambda>d. st w1 d a" "links w" a] by simp
  qed
  have ok2: "caches_ok ?w2" by (rule set_line_ok [OF E(2) al D(2)])
  have "dir ?w2 d x = dir w d x" if "d < numCaches w" "x \<noteq> 0" "\<not> (x = a \<and> d \<in> subtree w a c \<union> {})" for d x
    using E(6) [OF that(1,2)] that(3) sr(3) RT by auto
  then show ?thesis using quiet_trans [OF E(1) L2(2)] ok2 st2 ag2 unfolding effect_def by blast
qed

lemma effect_prof:
  assumes "effect ty a R X w w1"
  shows "effect ty a R X w (prof c f w1)"
proof -
  have "quiet w (prof c f w1)" "links (prof c f w1) = links w1"
    using quiet_trans [OF effectD(1) [OF assms] quiet_updates(3)] quiet_updates(3) [of w1 c f] by (simp_all add: quiet_def)
  then show ?thesis using assms by (simp add: effect_def cache_ok_prof)
qed

lemma effect_calm:
  assumes "quiet w w0" "st w0 = st w" "dir w0 = dir w" "effect ty a R X w0 w1"
  shows "effect ty a R X w w1"
proof -
  have "numCaches w0 = numCaches w" using assms(1) by (simp add: quiet_def)
  then show ?thesis using assms(2-4) quiet_trans [OF assms(1) effectD(1) [OF assms(4)]] by (simp add: effect_def)
qed

text \<open>The top part of an invalidation, which a terminal controller lacks.\<close>

definition lowered :: "'m world \<Rightarrow> nat \<Rightarrow> address \<Rightarrow> InvType \<Rightarrow> bool \<Rightarrow> cyc \<Rightarrow> cyc \<times> bool \<times> 'm world \<Rightarrow> bool" where
  "lowered w c a ty wb cyc = (\<lambda>(resp, wb', w1).
     let T = (if ty = INVX \<and> \<not> e_isExclusive (dir w c a) then {} else sharers (dir w c a)) in
     cyc \<le> resp \<and> (wb' \<longleftrightarrow> wb \<or> (\<exists>d \<in> reached w c a T. st w d a = StM)) \<and> effect ty a (reached w c a T) {c} w w1 \<and>
     dir w1 c a = (if T = {} then dir w c a
       else if ty = INV then (dir w c a)\<lparr>sharers := {}, numSharers := 0\<rparr> else (dir w c a)\<lparr>exclusive := False\<rparr>))"

lemma lower_children:
  assumes inval: "inv_ok m inval" and ok: "caches_ok w" and c: "numCaches w \<le> Suc (c + m)" "at_line w c a i" and ty: "ty \<noteq> FWD"
    and ag: "\<And>q. q \<in> subtree w a c \<Longrightarrow> agrees w a q"
  shows "ok (case tcc (caches w c) of None \<Rightarrow> Some (cyc, wb, w) | Some _ \<Rightarrow> tcc_processInval inval c a i ty wb cyc src w) (lowered w c a ty wb cyc)"
proof (cases "tcc (caches w c)")
  case None
  then have "dir w c a = Entry_clear" by (simp add: dir_def)
  then show ?thesis using None effect_refl [OF ok, of _ a "{c}"] by (simp add: lowered_def Entry_clear_def reached_def)
next
  case (Some t)
  have cn: "c < numCaches w" using c(2) by (simp add: at_line_def)
  have agc: "agrees w a c" by (rule ag) (use cn in \<open>simp add: subtree_def\<close>)
  note sr = subtree_reached [OF ok cn agc]
  have "\<not> t_nonInclusiveHack (t_link t)" using ok cn Some by (auto simp: caches_ok_def net_ok_def links_def)
  moreover have "ok (sendInvalidates inval c a i ty wb cyc src w) (lowered w c a ty wb cyc)"
    unfolding lowered_def Let_def
  proof (rule sendInvalidates_ok [OF inval ok c(1,2) _ sr(2) refl _ ag ty Some _ refl])
    show "st w c a \<noteq> StI" if "sharers (dir w c a) \<noteq> {}" using agc that by (auto simp: ent_ok_def)
    show "numSharers (dir w c a) = card (sharers (dir w c a))" using agc by (simp add: ent_ok_def)
    show "q \<in> subtree w a c" if "q \<in> reached w c a (sharers (dir w c a))" for q using that sr(4) by auto
    show "\<forall>k \<in> sharers (dir w c a). excl (st w (kids (links w) c ! k) a)" if "e_isExclusive (dir w c a)"
      using agc that by (auto simp: ent_ok_def e_isExclusive_def)
  qed
  ultimately show ?thesis using Some ty by (simp add: tcc_processInval_def)
qed

lemma Cache_invalidate_ok:
  fixes inval :: "'m inv_call"
  assumes inval: "inv_ok m inval"
  shows "inv_ok (Suc m) (Cache_invalidate inval)"
  unfolding inv_ok_def
proof (intro allI impI)
  fix w :: "'m world" and c and req :: InvReq and wb
  define a ty where "a = inv_addr req" and "ty = inv_type req"
  assume ok: "caches_ok w" and c: "c < numCaches w" "numCaches w \<le> c + Suc m" and a: "inv_addr req \<noteq> 0" and ty: "inv_type req \<noteq> FWD"
    and ag: "\<forall>q \<in> subtree w (inv_addr req) c. agrees w (inv_addr req) q" and st: "st w c (inv_addr req) \<noteq> StI"
    and ex: "inv_type req = INVX \<longrightarrow> excl (st w c (inv_addr req))"
  note facts = a ty ag st ex
  note facts = facts [folded a_def ty_def]
  obtain i where i: "ca_found (arr (caches w c)) a = Some i" using facts(4) by (auto simp: st_def split: option.splits)
  obtain w0 where w0: "cache_lookup c a None False w = Some (Some i, w0)" "quiet w w0" "caches_ok w0" "st w0 = st w" "dir w0 = dir w"
    using lookup_calm [OF ok c(1) facts(1), of None] i by auto
  have L0: "links w0 = links w" "numCaches w0 = numCaches w" using w0(2) by (simp_all add: quiet_def)
  have sub0: "subtree w0 a c = subtree w a c" using L0 by (simp add: subtree_def)
  have al: "at_line w0 c a i" using at_line_quiet [OF w0(2), of c a i] i c(1) facts(1) by (simp add: at_line_def)
  have ag0: "agrees w0 a q" if "q \<in> subtree w0 a c" for q using facts(3) that w0(4,5) L0 sub0 by simp
  let ?cyc = "inv_cycle req + invLat (caches w0 c)"
  have bot: "ok (bcc_processInval c i ty wb1 w1 \<bind> (\<lambda>(wb, w). Some (resp, wb, w)))
      (\<lambda>(resp, wb', w'). inv_cycle req \<le> resp \<and> (wb' \<longleftrightarrow> wb \<or> (\<exists>d \<in> subtree w a c. st w d a = StM)) \<and> effect ty a (subtree w a c) {} w w')"
    if low: "lowered w0 c a ty wb ?cyc (resp, wb1, w1)" for resp wb1 w1
  proof -
    define T where "T = (if ty = INVX \<and> \<not> e_isExclusive (dir w0 c a) then {} else sharers (dir w0 c a))"
    have l: "?cyc \<le> resp" "wb1 \<longleftrightarrow> wb \<or> (\<exists>d \<in> reached w0 c a T. st w0 d a = StM)" "effect ty a (reached w0 c a T) {c} w0 w1"
      "dir w1 c a = (if T = {} then dir w0 c a
         else if ty = INV then (dir w0 c a)\<lparr>sharers := {}, numSharers := 0\<rparr> else (dir w0 c a)\<lparr>exclusive := False\<rparr>)"
      using low by (simp_all add: lowered_def T_def [symmetric] Let_def)
    note E = effectD [OF l(3)]
    have c0: "c < numCaches w0" using c(1) L0 by simp
    have agc: "agrees w0 a c" by (rule ag0) (use c0 in \<open>simp add: subtree_def\<close>)
    note sr = subtree_reached [OF w0(3) c0 agc]
    have "T \<subseteq> sharers (dir w0 c a)" by (auto simp: T_def)
    then have RT: "reached w0 c a T \<subseteq> subtree w0 a c" "sendable w0 c a T" using sr(2,4) by (auto simp: reached_def sendable_def)
    have st1: "st w1 c a = st w0 c a" using E(5) [of c a] reached_above(1) [OF w0(3) c0 RT(2), of c] c0 facts(1) by auto
    have ls: "line_state c i w1 = Some (st w0 c a)" using at_lineD(3) [OF E(2)] at_line_quiet [OF E(1)] al st1 by simp
    have low2: "effect ty a (subtree w0 a c) {} w0 (set_line c i (down ty (st w0 c a)) w1)"
      by (rule lower_self [OF w0(3) ag0 facts(2) T_def al l(3,4)])
    then have eff: "effect ty a (subtree w a c) {} w (prof c f (set_line c i (down ty (st w0 c a)) w1))" for f
      using effect_calm [OF w0(2,4,5)] effect_prof sub0 by metis
    have "down ty StM \<noteq> StM" using facts(2) by (cases ty) simp_all
    then have flat: "d = c \<or> d \<in> reached w0 c a T" if "d \<in> subtree w0 a c" "st w0 d a = StM" for d
      using flat_below [OF w0(3) ag0 c0 T_def that(1)] that(2) by metis
    have wb: "wb1 \<or> st w0 c a = StM \<longleftrightarrow> wb \<or> (\<exists>d \<in> subtree w a c. st w d a = StM)"
      unfolding l(2) using flat RT(1) sr(3) w0(4) sub0 by auto
    have st0: "st w0 c a \<noteq> StI" "ty = INVX \<Longrightarrow> excl (st w0 c a)" using facts(4,5) w0(4) by simp_all
    show ?thesis
    proof (cases ty)
      case INV
      then show ?thesis using ls st0 l(1) wb eff by (simp add: bcc_processInval_def)
    next
      case INVX
      then show ?thesis using ls st0 l(1) wb eff by (auto simp: bcc_processInval_def excl_def)
    qed (use facts(2) in simp)
  qed
  have "ok (cc_processInv inval c req i ?cyc wb w0)
      (\<lambda>(resp, wb', w'). inv_cycle req \<le> resp \<and> (wb' \<longleftrightarrow> wb \<or> (\<exists>d \<in> subtree w a c. st w d a = StM)) \<and> effect ty a (subtree w a c) {} w w')"
    unfolding cc_processInv_def a_def [symmetric] ty_def [symmetric]
    by (rule ok_bind [OF lower_children [OF inval w0(3) _ al facts(2) ag0]]) (use c(2) L0 bot in auto)
  then show "ok (Cache_invalidate inval c req wb w) (\<lambda>(resp, wb', w'). inv_cycle req \<le> resp \<and>
       (wb' \<longleftrightarrow> wb \<or> (\<exists>d \<in> subtree w (inv_addr req) c. st w d (inv_addr req) = StM)) \<and>
       effect (inv_type req) (inv_addr req) (subtree w (inv_addr req) c) {} w w')"
    using w0(1) by (simp add: Cache_invalidate_def a_def ty_def)
qed

lemma invalidate_ok: "inv_ok m (invalidate m)"
proof (induction m)
  case 0
  show ?case by (simp add: inv_ok_def)
next
  case (Suc m)
  then show ?case by (simp add: Cache_invalidate_ok)
qed

end
