(* ===== verification/Coh_Record.thy ===== *)
theory Coh_Record
  imports Coherence
begin

text \<open>
  The timing records of an access through the hierarchy: a cache takes out the record that the write-back of its victim left,
  and joins it with the record of the access itself, so that at most one record is open and the event graph stays free of cycles.
\<close>

definition recorded :: "cyc \<Rightarrow> nat \<Rightarrow> bound \<Rightarrow> bool" where
  "recorded c s b \<longleftrightarrow> graph_ok (events b) \<and>
     (case eventRecorders b s of
        None \<Rightarrow> True
      | Some er \<Rightarrow> hasRecord er \<longrightarrow> c \<le> tr_reqCycle (er_tr er) \<and> event_ok (events b) (tr_startEvent (er_tr er)))"

lemma ready_recorded: "ready s b \<Longrightarrow> recorded c s b"
  by (auto simp: ready_def recorded_def split: option.splits)

lemma pending_recorded: "pending c s b \<Longrightarrow> recorded c s b"
  by (auto simp: pending_def recorded_def split: option.splits)

lemma recorded_mono: "recorded c s b \<Longrightarrow> c' \<le> c \<Longrightarrow> recorded c' s b"
  by (auto simp: recorded_def split: option.splits)

section \<open>Taking a record out\<close>

definition taken :: "cyc \<Rightarrow> nat \<Rightarrow> bound \<Rightarrow> TimingRecord option \<Rightarrow> bool" where
  "taken c s b r \<longleftrightarrow>
     (case r of None \<Rightarrow> True | Some tr \<Rightarrow> eventRecorders b s \<noteq> None \<and> c \<le> tr_reqCycle tr \<and> event_ok (events b) (tr_startEvent tr))"

lemma taken_grows: "taken c s b r \<Longrightarrow> grows b b' \<Longrightarrow> taken c s b' r"
  using event_ok_grows by (auto simp: taken_def grows_def split: option.splits)

lemma take_wb_ok:
  assumes "recorded c s b" "take_wb s b = (r, b')"
  shows "ready s b'" "grows b b'" "s' \<noteq> s \<Longrightarrow> ready s' b \<Longrightarrow> ready s' b'" "taken c s b' r"
proof -
  have "ready s b' \<and> grows b b' \<and> (s' \<noteq> s \<longrightarrow> ready s' b \<longrightarrow> ready s' b') \<and> taken c s b' r"
  proof (cases "eventRecorders b s")
    case None
    then show ?thesis using assms by (auto simp: take_wb_def ready_def recorded_def taken_def)
  next
    case (Some er)
    then show ?thesis using assms
      by (cases "hasRecord er")
        (auto simp: take_wb_def ready_def recorded_def taken_def grows_def popRecord_def hasRecord_def tr_isValid_def tr_clear_def split: if_splits)
  qed
  then show "ready s b'" "grows b b'" "s' \<noteq> s \<Longrightarrow> ready s' b \<Longrightarrow> ready s' b'" "taken c s b' r" by auto
qed

section \<open>Joining two records\<close>

lemma no_path: "\<forall>x. (x, p) \<notin> E \<Longrightarrow> c \<noteq> p \<Longrightarrow> (c, p) \<notin> E\<^sup>*"
  by (auto elim: rtranclE)

lemma no_path_via: "\<forall>x. (x, p) \<in> E \<longrightarrow> x = q \<Longrightarrow> \<forall>x. (x, q) \<notin> E \<Longrightarrow> c \<noteq> p \<Longrightarrow> c \<noteq> q \<Longrightarrow> (c, p) \<notin> E\<^sup>*"
  using no_path [of q E c] by (auto elim: rtranclE)

lemma DelayEvent_new: "new_event (DelayEvent_new d)" "ev_domain (DelayEvent_new d) = - 1"
  by (simp_all add: DelayEvent_new_def new_event_def TimingEvent_new_def)

text \<open>Three new events, with the minimal starting cycle set.\<close>

lemma three_events:
  assumes "graph_ok evs" "n = length evs" "evs3 = setMinStartCycle (setMinStartCycle (setMinStartCycle (evs @ [DelayEvent_new a, DelayEvent_new b, DelayEvent_new c]) n r) (n + 1) r) (n + 2) r"
  shows "graph_ok evs3" "edges evs3 = edges evs" "length evs3 = n + 3" "i < n \<Longrightarrow> ev_state (evs3 ! i) = ev_state (evs ! i)"
    "i \<in> {n, n + 1, n + 2} \<Longrightarrow> ev_state (evs3 ! i) = EV_NONE \<and> ev_domain (evs3 ! i) = - 1"
proof -
  let ?e = "evs @ [DelayEvent_new a, DelayEvent_new b, DelayEvent_new c]"
  have e: "?e = ((evs @ [DelayEvent_new a]) @ [DelayEvent_new b]) @ [DelayEvent_new c]" by simp
  note s1 = graph_ok_snoc [OF assms(1) DelayEvent_new(1) [of a]]
  note s2 = graph_ok_snoc [OF s1(1) DelayEvent_new(1) [of b]]
  note s3 = graph_ok_snoc [OF s2(1) DelayEvent_new(1) [of c], folded e]
  note m1 = set_minStart_ok [OF s3(1), of n r]
  note m2 = set_minStart_ok [OF m1(1), of "n + 1" r]
  note m3 = set_minStart_ok [OF m2(1), of "n + 2" r, folded assms(3)]
  show "graph_ok evs3" "edges evs3 = edges evs" "length evs3 = n + 3" using m3 m2 m1 s3 s2 s1 assms(2) by simp_all
  have st: "ev_state (evs3 ! i) = ev_state (?e ! i)" "ev_domain (evs3 ! i) = ev_domain (?e ! i)" for i using m3 m2 m1 by simp_all
  show "i < n \<Longrightarrow> ev_state (evs3 ! i) = ev_state (evs ! i)" using st assms(2) by (simp add: nth_append)
  show "i \<in> {n, n + 1, n + 2} \<Longrightarrow> ev_state (evs3 ! i) = EV_NONE \<and> ev_domain (evs3 ! i) = - 1"
    using st [of i] DelayEvent_new assms(2) by (auto simp: nth_append new_event_def)
qed

lemma join_records_ok:
  assumes g: "graph_ok evs" and c: "c \<le> tr_reqCycle wb" "c \<le> tr_reqCycle acc"
    and e: "event_ok evs (tr_startEvent wb)" "event_ok evs (tr_startEvent acc)"
  shows "ok (join_records c wb acc evs) (\<lambda>(acc', evs'). graph_ok evs' \<and> length evs \<le> length evs' \<and>
    (\<forall>i < length evs. ev_state (evs' ! i) = ev_state (evs ! i)) \<and> tr_reqCycle acc' = c \<and> event_ok evs' (tr_startEvent acc'))"
proof -
  define n where "n = length evs"
  obtain s t where s: "tr_startEvent wb = Some s" "s < n" "ev_state (evs ! s) = EV_NONE"
    and t: "tr_startEvent acc = Some t" "t < n" "ev_state (evs ! t) = EV_NONE"
    using e by (auto simp: event_ok_def n_def split: option.splits)
  define evs3 where "evs3 = setMinStartCycle (setMinStartCycle (setMinStartCycle (evs @ [DelayEvent_new 0, DelayEvent_new (sub32 (tr_reqCycle wb) c),
    DelayEvent_new (sub32 (tr_reqCycle acc) c)]) n c) (n + 1) c) (n + 2) c"
  note T = three_events [OF g n_def evs3_def]
  have E: "x < n \<and> y < n" if "(x, y) \<in> edges evs" for x y using edges_bound [OF g that] by (simp add: n_def)
  have new: "ev_state (evs3 ! n) = EV_NONE" "ev_domain (evs3 ! n) = - 1" "ev_state (evs3 ! (n + 1)) = EV_NONE" "ev_domain (evs3 ! (n + 1)) = - 1"
    "ev_state (evs3 ! (n + 2)) = EV_NONE" "ev_domain (evs3 ! (n + 2)) = - 1" using T(5) by simp_all
  have old: "ev_state (evs3 ! s) = EV_NONE" "ev_state (evs3 ! t) = EV_NONE" using T(4) s t by simp_all
  have p1: "(n + 1, n) \<notin> (edges evs3)\<^sup>*" unfolding T(2) by (rule no_path) (auto dest: E)
  obtain a1 where a1: "addChild evs3 n (n + 1) = Some a1" "graph_ok a1" "length a1 = n + 3" "edges a1 = insert (n, n + 1) (edges evs)"
    "\<And>i. i < n + 3 \<Longrightarrow> ev_state (a1 ! i) = ev_state (evs3 ! i) \<and> ev_domain (a1 ! i) = ev_domain (evs3 ! i)"
    using addChild_ok [OF T(1) _ _ _ p1] T(2,3) new by auto
  have p2: "(s, n + 1) \<notin> (edges a1)\<^sup>*" unfolding a1(4) by (rule no_path_via [of _ _ n]) (use s(2) in \<open>auto dest: E\<close>)
  obtain a2 where a2: "addChild a1 (n + 1) s = Some a2" "graph_ok a2" "length a2 = n + 3" "edges a2 = insert (n + 1, s) (edges a1)"
    "\<And>i. i < n + 3 \<Longrightarrow> ev_state (a2 ! i) = ev_state (evs3 ! i) \<and> ev_domain (a2 ! i) = ev_domain (evs3 ! i)"
    using addChild_ok [OF a1(2) _ _ _ p2] a1(3,5) new old s(2) by auto
  have p3: "(n + 2, n) \<notin> (edges a2)\<^sup>*" unfolding a2(4) a1(4) by (rule no_path) (use s(2) in \<open>auto dest: E\<close>)
  obtain a3 where a3: "addChild a2 n (n + 2) = Some a3" "graph_ok a3" "length a3 = n + 3" "edges a3 = insert (n, n + 2) (edges a2)"
    "\<And>i. i < n + 3 \<Longrightarrow> ev_state (a3 ! i) = ev_state (evs3 ! i) \<and> ev_domain (a3 ! i) = ev_domain (evs3 ! i)"
    using addChild_ok [OF a2(2) _ _ _ p3] a2(3,5) new by auto
  have p4: "(t, n + 2) \<notin> (edges a3)\<^sup>*" unfolding a3(4) a2(4) a1(4) by (rule no_path_via [of _ _ n]) (use s(2) t(2) in \<open>auto dest: E\<close>)
  obtain a4 where a4: "addChild a3 (n + 2) t = Some a4" "graph_ok a4" "length a4 = n + 3"
    "\<And>i. i < n + 3 \<Longrightarrow> ev_state (a4 ! i) = ev_state (evs3 ! i)"
    using addChild_ok [OF a3(2) _ _ _ p4] a3(3,5) new old t(2) by auto
  have "\<forall>i < length evs. ev_state (a4 ! i) = ev_state (evs ! i)" "event_ok a4 (Some n)"
    using a4(3,4) T(4) new(1) by (simp_all add: n_def event_ok_def)
  moreover have "join_records c wb acc evs = Some (acc\<lparr>tr_reqCycle := c, tr_startEvent := Some n\<rparr>, a4)"
    using c s(1) t(1) a1(1) a2(1) a3(1) a4(1)
    by (simp add: join_records_def alloc_event_def n_def evs3_def)
  ultimately show ?thesis using a4(2,3) by (simp add: n_def)
qed

lemma stitch_ok:
  assumes r: "recorded c s b" and t: "taken c s b r"
  shows "ok (stitch c s r b) (\<lambda>b'. recorded c s b' \<and> grows b b' \<and> (\<forall>s'. s' \<noteq> s \<longrightarrow> ready s' b \<longrightarrow> ready s' b'))"
proof (cases r)
  case None
  then show ?thesis using r by (simp add: stitch_def)
next
  case (Some wb)
  then obtain er where er: "eventRecorders b s = Some er" and wb: "c \<le> tr_reqCycle wb" "event_ok (events b) (tr_startEvent wb)"
    using t by (auto simp: taken_def)
  have g: "graph_ok (events b)" using r by (simp add: recorded_def)
  have v: "tr_startEvent wb \<noteq> None" using wb(2) by (auto simp: event_ok_def split: option.splits)
  show ?thesis
  proof (cases "hasRecord er")
    case False
    then show ?thesis using Some er g wb v
      by (auto simp: stitch_def pushRecord_def hasRecord_def tr_isValid_def recorded_def grows_def ready_def)
  next
    case True
    then have acc: "c \<le> tr_reqCycle (er_tr er)" "event_ok (events b) (tr_startEvent (er_tr er))" using r er by (simp_all add: recorded_def)
    obtain acc' evs' where j: "join_records c wb (er_tr er) (events b) = Some (acc', evs')" "graph_ok evs'" "length (events b) \<le> length evs'"
      "\<forall>i < length (events b). ev_state (evs' ! i) = ev_state (events b ! i)" "tr_reqCycle acc' = c" "event_ok evs' (tr_startEvent acc')"
      using join_records_ok [OF g wb(1) acc(1) wb(2) acc(2)] by (auto simp: ok_def)
    have "tr_startEvent acc' \<noteq> None" using j(6) by (auto simp: event_ok_def split: option.splits)
    then show ?thesis using Some er True j
      by (auto simp: stitch_def popRecord_def pushRecord_def tr_clear_def tr_isValid_def recorded_def grows_def ready_def hasRecord_def)
  qed
qed

lemma stitch_has_record:
  assumes "stitch c s (Some wb) b = Some b'"
  shows "\<exists>er. eventRecorders b' s = Some er \<and> hasRecord er"
  using assms by (auto simp: stitch_def pushRecord_def hasRecord_def tr_isValid_def bind_eq_Some_conv Let_def split: if_splits prod.splits)

text \<open>
  C9. A cache joins the record of a write-back with that of the access that caused it.  If the write-back's record was taken out of
  the recorder of core \<open>s\<close>, and both start no earlier than cycle \<open>c\<close>, the join does not abort: the recorder then holds one record that
  starts no earlier than \<open>c\<close>, the graph of events is still without cycles, no event has changed its state, and the recorders of the
  other cores are as ready as before.
\<close>

theorem records_joined:
  assumes "recorded c s b" "eventRecorders b s \<noteq> None" "c \<le> tr_reqCycle wb" "event_ok (events b) (tr_startEvent wb)"
  shows "\<exists>b'. stitch c s (Some wb) b = Some b' \<and> acyclic (edges (events b')) \<and>
    (\<exists>er. eventRecorders b' s = Some er \<and> hasRecord er \<and> c \<le> tr_reqCycle (er_tr er)) \<and>
    (\<forall>i < length (events b). ev_state (events b' ! i) = ev_state (events b ! i)) \<and> (\<forall>s'. s' \<noteq> s \<longrightarrow> ready s' b \<longrightarrow> ready s' b')"
proof -
  obtain b' where b': "stitch c s (Some wb) b = Some b'" "recorded c s b'" "grows b b'" "\<forall>s'. s' \<noteq> s \<longrightarrow> ready s' b \<longrightarrow> ready s' b'"
    using stitch_ok [OF assms(1), of "Some wb"] assms(2-4) by (auto simp: taken_def ok_def)
  obtain er where er: "eventRecorders b' s = Some er" "hasRecord er" using stitch_has_record [OF b'(1)] by blast
  then show ?thesis using b' by (auto simp: recorded_def graph_ok_def grows_def)
qed

definition demo_recorder :: "ev option \<Rightarrow> EventRecorder" where
  "demo_recorder e = \<lparr>er_tr = \<lparr>tr_addr = 77, tr_reqCycle = 110, tr_respCycle = 150, tr_type = GETS, tr_startEvent = e, tr_endEvent = e\<rparr>,
     er_srcId = 0, lastGapCycles = 0, lastStartSlack = 0\<rparr>"

theorem records_joined_witness:
  "\<exists>b'. stitch 100 0 (Some (er_tr (demo_recorder (Some 1))))
      \<lparr>events = [DelayEvent_new 3, DelayEvent_new 4], eventRecorders = (\<lambda>s. if s = 0 then Some (demo_recorder (Some 0)) else None)\<rparr> = Some b' \<and>
    acyclic (edges (events b'))"
proof -
  let ?b = "\<lparr>events = [DelayEvent_new 3, DelayEvent_new 4], eventRecorders = (\<lambda>s. if s = 0 then Some (demo_recorder (Some 0)) else None)\<rparr>"
  have "graph_ok []" by (simp add: graph_ok_def edges_def acyclic_def)
  then have "graph_ok (([] @ [DelayEvent_new 3]) @ [DelayEvent_new 4])" by (intro graph_ok_snoc DelayEvent_new)
  moreover have "event_ok [DelayEvent_new 3, DelayEvent_new 4] (Some i)" if "i < 2" for i
    using that DelayEvent_new(1) by (auto simp: event_ok_def new_event_def less_2_cases_iff)
  ultimately show ?thesis
    using records_joined [of 100 0 ?b "er_tr (demo_recorder (Some 1))"] by (auto simp: recorded_def demo_recorder_def)
qed

end
