(* ===== verification/Coh_Access.thy ===== *)
theory Coh_Access
  imports Coh_Inval Coh_Record
begin

text \<open>
  Accesses.  An access to an inclusive hierarchy never aborts, keeps every directory in agreement with the copies below it, and
  grants the requester the permission it asked for.
\<close>

section \<open>How the hierarchy changes during an access\<close>

definition lower :: "MESIState \<Rightarrow> MESIState \<Rightarrow> bool" where
  "lower s s' \<longleftrightarrow> (s = StI \<longrightarrow> s' = StI) \<and> (\<not> excl s \<longrightarrow> \<not> excl s')"

text \<open>
  During an access on behalf of core \<open>src\<close> that has reached cache \<open>m\<close>: the arrays from \<open>m\<close> on stay as they are, and no cache
  from \<open>m\<close> on gains a permission, except for the pairs of a cache and an address in \<open>X\<close>.
\<close>

definition evolves :: "nat \<Rightarrow> nat \<Rightarrow> (nat \<times> address) set \<Rightarrow> 'm world \<Rightarrow> 'm world \<Rightarrow> bool" where
  "evolves src m X w w' \<longleftrightarrow> links w' = links w \<and> numCaches w' = numCaches w \<and> grows (bnd w) (bnd w') \<and>
     (\<forall>s. s \<noteq> src \<longrightarrow> ready s (bnd w) \<longrightarrow> ready s (bnd w')) \<and>
     (\<forall>d. m \<le> d \<longrightarrow> same_arr (arr (caches w d)) (arr (caches w' d))) \<and>
     (\<forall>d x. m \<le> d \<longrightarrow> d < numCaches w \<longrightarrow> x \<noteq> 0 \<longrightarrow> (d, x) \<notin> X \<longrightarrow> lower (st w d x) (st w' d x))"

lemma lower_refl [simp]: "lower s s"
  by (simp add: lower_def)

lemma lower_trans: "lower s s1 \<Longrightarrow> lower s1 s2 \<Longrightarrow> lower s s2"
  by (simp add: lower_def)

lemma lower_down: "ty \<noteq> FWD \<Longrightarrow> lower s (down ty s)"
  by (cases ty) (auto simp: lower_def excl_def)

lemma same_arr_trans: "same_arr a a1 \<Longrightarrow> same_arr a1 a2 \<Longrightarrow> same_arr a a2"
  by (auto simp: same_arr_def)

lemma evolves_refl [simp]: "evolves src m X w w"
  by (simp add: evolves_def)

lemma evolvesD:
  assumes "evolves src m X w w'"
  shows "links w' = links w" "numCaches w' = numCaches w" "grows (bnd w) (bnd w')" "s \<noteq> src \<Longrightarrow> ready s (bnd w) \<Longrightarrow> ready s (bnd w')"
    "m \<le> d \<Longrightarrow> same_arr (arr (caches w d)) (arr (caches w' d))"
    "m \<le> d \<Longrightarrow> d < numCaches w \<Longrightarrow> x \<noteq> 0 \<Longrightarrow> (d, x) \<notin> X \<Longrightarrow> lower (st w d x) (st w' d x)"
  using assms by (simp_all add: evolves_def)

lemma evolves_trans:
  assumes "evolves src m X w w1" "evolves src m X w1 w2"
  shows "evolves src m X w w2"
proof -
  note e = evolvesD [OF assms(1)] and f = evolvesD [OF assms(2)]
  show ?thesis unfolding evolves_def
  proof (intro conjI allI impI)
    show "grows (bnd w) (bnd w2)" by (rule grows_trans [OF e(3) f(3)])
    show "same_arr (arr (caches w d)) (arr (caches w2 d))" if "m \<le> d" for d by (rule same_arr_trans [OF e(5) [OF that] f(5) [OF that]])
    show "lower (st w d x) (st w2 d x)" if "m \<le> d" "d < numCaches w" "x \<noteq> 0" "(d, x) \<notin> X" for d x
      by (rule lower_trans [OF e(6) [OF that] f(6)]) (use that e(2) in simp_all)
  qed (use e f in simp_all)
qed

lemma evolves_mono:
  assumes "evolves src m X w w'" "m \<le> m'" "\<And>d x. (d, x) \<in> X \<Longrightarrow> m' \<le> d \<Longrightarrow> (d, x) \<in> X'"
  shows "evolves src m' X' w w'"
proof -
  note e = evolvesD [OF assms(1)]
  show ?thesis unfolding evolves_def
  proof (intro conjI allI impI)
    show "lower (st w d x) (st w' d x)" if "m' \<le> d" "d < numCaches w" "x \<noteq> 0" "(d, x) \<notin> X'" for d x
      using e(6) [of d x] that assms(2,3) by auto
  qed (use e assms(2) in simp_all)
qed

lemma evolves_quiet:
  assumes "quiet w w'" "\<And>d x. m \<le> d \<Longrightarrow> d < numCaches w \<Longrightarrow> x \<noteq> 0 \<Longrightarrow> (d, x) \<notin> X \<Longrightarrow> lower (st w d x) (st w' d x)"
  shows "evolves src m X w w'"
  using assms by (simp add: evolves_def quiet_def)

lemma evolves_effect: "effect ty a R Y w w' \<Longrightarrow> ty \<noteq> FWD \<Longrightarrow> evolves src m X w w'"
  by (rule evolves_quiet [OF effectD(1)]) (auto simp: effectD(5) lower_down)

lemma at_line_evolves: "evolves src m X w w' \<Longrightarrow> m \<le> c \<Longrightarrow> at_line w' c a i = at_line w c a i"
  by (auto simp: evolves_def same_arr_def at_line_def)

section \<open>Changing one copy\<close>

lemma ent_ok_own:
  assumes e: "ent_ok N S e a c" and own: "excl s' \<or> sharers e = {}" and k: "\<And>k. k < length (kids N c) \<Longrightarrow> kids N c ! k \<noteq> c"
  shows "ent_ok N (S(c := s')) e a c"
proof -
  note E = ent_okD [OF e]
  have eq: "(S(c := s')) (kids N c ! k) = S (kids N c ! k)" if "k < length (kids N c)" for k using k [OF that] by simp
  have h: "holders N (S(c := s')) a c = holders N S a c" by (rule holders_cong) (use eq in simp)
  show ?thesis
  proof (rule ent_okI)
    fix k assume "k \<in> holders N (S(c := s')) a c"
    then have k': "k \<in> sharers e" "k < length (kids N c)" using h E(1) by auto
    then have "excl s'" using own by auto
    moreover have "s' \<noteq> StI" using \<open>excl s'\<close> by (auto simp: excl_def)
    ultimately show "(S(c := s')) c \<noteq> StI \<and> (exclusive e \<longleftrightarrow> excl ((S(c := s')) (kids N c ! k))) \<and>
      (excl ((S(c := s')) (kids N c ! k)) \<longrightarrow> excl ((S(c := s')) c))" using E(5) [OF k'(1)] eq [OF k'(2)] by simp
  qed (use h E(1-3) in simp_all)
qed

lemma ent_ok_like:
  assumes "\<And>d. S d = StI \<longleftrightarrow> S' d = StI" "\<And>d. excl (S d) \<longleftrightarrow> excl (S' d)"
  shows "ent_ok N S e a p = ent_ok N S' e a p"
proof -
  have "holders N S a p = holders N S' a p" by (rule holders_cong) (simp add: assms)
  then show ?thesis by (simp add: ent_ok_def assms)
qed

text \<open>
  The state of address \<open>a\<close> in cache \<open>c\<close> changes to \<open>s'\<close>, together with the entry at its home, which need not agree before.
\<close>

lemma coherent_cell:
  assumes N: "net_ok (numCaches w) (links w)" and ok: "caches_ok w'" and L: "links w' = links w" "numCaches w' = numCaches w"
    and c: "c < numCaches w" "a \<noteq> 0"
    and but: "\<And>q x. q < numCaches w \<Longrightarrow> x \<noteq> 0 \<Longrightarrow> \<not> (x = a \<and> home (links w) a c = Some (CacheObj q)) \<Longrightarrow> agrees w x q"
    and st': "\<And>d x. d < numCaches w \<Longrightarrow> x \<noteq> 0 \<Longrightarrow> st w' d x = (if d = c \<and> x = a then s' else st w d x)"
    and dir': "\<And>d x. d < numCaches w \<Longrightarrow> x \<noteq> 0 \<Longrightarrow> \<not> (x = a \<and> home (links w) a c = Some (CacheObj d)) \<Longrightarrow> dir w' d x = dir w d x"
    and own: "excl s' \<or> sharers (dir w c a) = {}"
    and par: "\<And>p. home (links w) a c = Some (CacheObj p) \<Longrightarrow> ent_ok (links w) ((\<lambda>d. st w d a)(c := s')) (dir w' p a) a p"
  shows "coherent w'"
  unfolding coherent_def
proof (intro conjI allI impI ok)
  fix p x assume p: "p < numCaches w'" and x: "x \<noteq> (0 :: address)"
  have pn: "p < numCaches w" using p L by simp
  have kidn: "kids (links w) p ! k < numCaches w" "p < kids (links w) p ! k" if "k < length (kids (links w) p)" for k
    using kid_less [OF N pn that] by simp_all
  show "agrees w' x p"
  proof (cases "x = a")
    case False
    then have "ent_ok (links w) (\<lambda>d. st w d x) (dir w p x) x p" using but [OF pn x] by simp
    then show ?thesis
      using False L dir' [OF pn x] st' [OF pn x] st' [OF kidn(1) x] ent_ok_cong [of "\<lambda>d. st w' d x" p "\<lambda>d. st w d x" "links w" x] by simp
  next
    case True
    let ?S = "(\<lambda>d. st w d a)(c := s')"
    have S: "st w' d a = ?S d" if "d < numCaches w" for d using st' [OF that c(2)] by simp
    have "ent_ok (links w) ?S (dir w' p a) a p"
    proof (cases "home (links w) a c = Some (CacheObj p)")
      case True
      then show ?thesis by (rule par)
    next
      case nh: False
      have old: "ent_ok (links w) (\<lambda>d. st w d a) (dir w p a) a p" using but [OF pn c(2)] nh by simp
      have d: "dir w' p a = dir w p a" using dir' [OF pn c(2)] nh by simp
      show ?thesis
      proof (cases "p = c")
        case eq: True
        have "kids (links w) p ! k \<noteq> c" if "k < length (kids (links w) p)" for k using kidn(2) [OF that] eq by auto
        then show ?thesis using ent_ok_own [of "links w" "\<lambda>d. st w d a" "dir w c a" a c s'] old own d True eq by simp
      next
        case False
        have "?S (kids (links w) p ! k) = st w (kids (links w) p ! k) a" if "home (links w) a (kids (links w) p ! k) = Some (CacheObj p)" for k
          using that nh by auto
        then show ?thesis using old d True False ent_ok_cong [of ?S p "\<lambda>d. st w d a" "links w" a] by simp
      qed
    qed
    then show ?thesis using True L S [OF pn] S [OF kidn(1)] ent_ok_cong [of "\<lambda>d. st w' d a" p ?S "links w" a] by simp
  qed
qed

lemma outside_caches [simp]:
  "st (w\<lparr>mem := m\<rparr>) = st w" "dir (w\<lparr>mem := m\<rparr>) = dir w" "links (w\<lparr>mem := m\<rparr>) = links w" "at_line (w\<lparr>mem := m\<rparr>) = at_line w"
  "caches_ok (w\<lparr>mem := m\<rparr>) = caches_ok w" "coherent (w\<lparr>mem := m\<rparr>) = coherent w"
  "st (w\<lparr>bnd := b\<rparr>) = st w" "dir (w\<lparr>bnd := b\<rparr>) = dir w" "links (w\<lparr>bnd := b\<rparr>) = links w" "at_line (w\<lparr>bnd := b\<rparr>) = at_line w"
  "caches_ok (w\<lparr>bnd := b\<rparr>) = caches_ok w" "coherent (w\<lparr>bnd := b\<rparr>) = coherent w"
proof -
  show e: "st (w\<lparr>mem := m\<rparr>) = st w" "dir (w\<lparr>mem := m\<rparr>) = dir w" "links (w\<lparr>mem := m\<rparr>) = links w" "at_line (w\<lparr>mem := m\<rparr>) = at_line w"
    and f: "st (w\<lparr>bnd := b\<rparr>) = st w" "dir (w\<lparr>bnd := b\<rparr>) = dir w" "links (w\<lparr>bnd := b\<rparr>) = links w" "at_line (w\<lparr>bnd := b\<rparr>) = at_line w"
    by (simp_all add: fun_eq_iff st_def dir_def links_def at_line_def split: option.split)
  show "caches_ok (w\<lparr>mem := m\<rparr>) = caches_ok w" "coherent (w\<lparr>mem := m\<rparr>) = coherent w"
    "caches_ok (w\<lparr>bnd := b\<rparr>) = caches_ok w" "coherent (w\<lparr>bnd := b\<rparr>) = coherent w"
    using e f by (simp_all add: coherent_def caches_ok_def)
qed

section \<open>Requests\<close>

text \<open>What a cache may ask its parent for, and what the answer grants.\<close>

fun may_ask :: "AccessType \<Rightarrow> MESIState \<Rightarrow> Entry \<Rightarrow> bool" where
  "may_ask GETS s e \<longleftrightarrow> s = StI"
| "may_ask GETX s e \<longleftrightarrow> s = StI \<or> s = StS"
| "may_ask PUTS s e \<longleftrightarrow> (s = StS \<or> s = StE) \<and> vacant e"
| "may_ask PUTX s e \<longleftrightarrow> s = StM \<and> vacant e"

fun grant :: "AccessType \<Rightarrow> MESIState \<Rightarrow> bool" where
  "grant GETS s \<longleftrightarrow> s = StS \<or> s = StE"
| "grant GETX s \<longleftrightarrow> s = StM"
| "grant PUTS s \<longleftrightarrow> s = StI"
| "grant PUTX s \<longleftrightarrow> s = StI"

text \<open>What a cache holds once its bottom controller has done its part of an access.\<close>

fun held :: "AccessType \<Rightarrow> MESIState \<Rightarrow> bool" where
  "held GETS s \<longleftrightarrow> s \<noteq> StI"
| "held GETX s \<longleftrightarrow> s = StM"
| "held PUTS s \<longleftrightarrow> s \<noteq> StI"
| "held PUTX s \<longleftrightarrow> s = StM"

lemma grant_own:
  assumes "coherent w" "c < numCaches w" "a \<noteq> 0" "may_ask ty (st w c a) (dir w c a)" "grant ty s"
  shows "excl s \<or> sharers (dir w c a) = {}"
proof -
  have "agrees w a c" by (rule coherentD(4) [OF assms(1-3)])
  then have "sharers (dir w c a) = {}" if "st w c a = StI" using ent_okD(4) that by fastforce
  then show ?thesis using assms(4,5) by (cases ty) (auto simp: excl_def vacant_def)
qed

text \<open>The answer of a memory.\<close>

locale memory_side =
  fixes mem_acc :: "'m mem_call"
    and mem_ok :: "'m \<Rightarrow> bool"
    and mems :: nat
  assumes mem_answer: "mem_ok m \<Longrightarrow> i < mems \<Longrightarrow> ready (srcId req) b \<Longrightarrow>
    \<exists>resp m' b'. mem_acc i req m b = Some (resp, mem_grant req, m', b') \<and> cycle req \<le> resp \<and> mem_ok m' \<and>
      recorded (cycle req) (srcId req) b' \<and> grows b b' \<and> (\<forall>s. s \<noteq> srcId req \<longrightarrow> ready s b \<longrightarrow> ready s b')"

context memory_side
begin

definition good :: "'m world \<Rightarrow> bool" where
  "good w \<longleftrightarrow> coherent w \<and> mem_ok (mem w) \<and> (\<forall>c < numCaches w. \<forall>m. MainMem m \<in> set (parents (fst (links w c))) \<longrightarrow> m < mems)"

text \<open>The outcome of a request of cache \<open>c\<close> for address \<open>a\<close>.\<close>

definition served :: "AccessType \<Rightarrow> nat \<Rightarrow> address \<Rightarrow> cyc \<Rightarrow> nat \<Rightarrow> 'm world \<Rightarrow> cyc \<times> 'm world \<Rightarrow> bool" where
  "served ty c a cyc src w = (\<lambda>(resp, w'). cyc \<le> resp \<and> good w' \<and> recorded cyc src (bnd w') \<and> evolves src c {(c, a)} w w' \<and>
     (\<forall>d < c. ca_closed (arr (caches w' d))) \<and> grant ty (st w' c a))"

definition request :: "'m world \<Rightarrow> nat \<Rightarrow> address \<Rightarrow> AccessType \<Rightarrow> cyc \<Rightarrow> nat \<Rightarrow> flags \<Rightarrow> MemReq" where
  "request w c a ty cyc src flags =
     \<lparr>lineAddr = a, req_type = ty, childId = selfId (fst (links w c)), req_state = st w c a, cycle = cyc, initialState = st w c a,
      srcId = src, req_flags = flags\<rparr>"

definition may_request :: "'m world \<Rightarrow> nat \<Rightarrow> address \<Rightarrow> nat \<Rightarrow> AccessType \<Rightarrow> nat \<Rightarrow> flags \<Rightarrow> bool" where
  "may_request w c a i ty src flags \<longleftrightarrow> good w \<and> at_line w c a i \<and> may_ask ty (st w c a) (dir w c a) \<and> ready src (bnd w) \<and>
     (\<forall>d < c. ca_closed (arr (caches w d))) \<and> flags AND PREFETCH = 0 \<and> (IsPut ty \<longrightarrow> flags AND PUTX_KEEPEXCL = 0)"

definition acc_ok :: "nat \<Rightarrow> nat \<Rightarrow> 'm acc_call \<Rightarrow> bool" where
  "acc_ok D m acc \<longleftrightarrow> (\<forall>w c i a ty obj cyc src flags. c \<le> m \<longrightarrow> numCaches w \<le> D \<longrightarrow> may_request w c a i ty src flags \<longrightarrow> home (links w) a c = Some obj \<longrightarrow>
     ok (acc obj (Cell c i) (request w c a ty cyc src flags) w) (served ty c a cyc src w))"

lemma memory_request:
  assumes r: "may_request w c a i ty src flags" and h: "home (links w) a c = Some (MainMem m)"
  shows "ok (mem_object_access mem_acc m (Cell c i) (request w c a ty cyc src flags) w) (served ty c a cyc src w)"
proof -
  have R: "good w" "at_line w c a i" "may_ask ty (st w c a) (dir w c a)" "ready src (bnd w)" "\<forall>d < c. ca_closed (arr (caches w d))"
    using r by (simp_all add: may_request_def)
  have co: "coherent w" "mem_ok (mem w)" and cn: "c < numCaches w" "a \<noteq> 0" using R(1,2) by (simp_all add: good_def at_line_def)
  have m: "m < mems" using R(1) cn(1) home_in_parents [OF h] by (auto simp: good_def)
  note ok = coherentD(1) [OF co(1)]
  let ?req = "request w c a ty cyc src flags"
  obtain resp m' b' where a: "mem_acc m ?req (mem w) (bnd w) = Some (resp, mem_grant ?req, m', b')" "cyc \<le> resp" "mem_ok m'"
    "recorded cyc src b'" "grows (bnd w) b'" "\<forall>s. s \<noteq> src \<longrightarrow> ready s (bnd w) \<longrightarrow> ready s b'"
    using mem_answer [OF co(2) m, of ?req "bnd w"] R(4) by (auto simp: request_def)
  define s where "s = mem_grant ?req"
  have g: "grant ty s" by (cases ty) (auto simp: s_def mem_grant_def request_def)
  let ?w = "w\<lparr>mem := m', bnd := b'\<rparr>"
  let ?w' = "set_line c i s ?w"
  have al: "at_line ?w c a i" "caches_ok ?w" using R(2) ok by simp_all
  have q: "quiet ?w ?w'" by simp
  have st': "st ?w' d x = (if d = c \<and> x = a then s else st w d x)" if "x \<noteq> 0" for d x using st_set_line [OF al(2,1) that] by simp
  have own: "excl s \<or> sharers (dir w c a) = {}" by (rule grant_own [OF co(1) cn R(3) g])
  have vac: "vacant (dir w c a)" if "s = StI"
    using that own coherentD(4) [OF co(1) cn] by (auto simp: excl_def vacant_def ent_ok_def)
  have ok': "caches_ok ?w'" by (rule set_line_ok [OF al(2,1)]) (use vac in simp)
  have "coherent ?w'"
    by (rule coherent_cell [OF coherentD(2) [OF co(1)] ok' _ _ cn coherentD(4) [OF co(1)] _ _ own]) (use q st' h in \<open>auto simp: quiet_def\<close>)
  moreover have "evolves src c {(c, a)} w ?w'"
    unfolding evolves_def using q a(5,6) st' by (auto simp: quiet_def)
  moreover have "line_state c i w = Some (st w c a)" by (rule at_lineD(3) [OF ok R(2)])
  ultimately show ?thesis
    using a R(1,5) q g st' [OF cn(2), of c] by (simp add: mem_object_access_def served_def good_def s_def request_def quiet_def)
qed

text \<open>Counters are not part of the invariant.\<close>

lemma prof_same [simp]:
  "links (prof d f w) = links w" "numCaches (prof d f w) = numCaches w" "mem (prof d f w) = mem w" "bnd (prof d f w) = bnd w"
  "at_line (prof d f w) = at_line w"
  using quiet_updates(3) [of w d f] by (simp_all add: quiet_def at_line_def fun_eq_iff)

lemma good_prof [simp]: "good (prof d f w) = good w"
  by (simp add: good_def coherent_def cache_ok_prof)

lemma evolves_prof [simp]: "evolves src m X (prof d f w) w' = evolves src m X w w'" "evolves src m X w (prof d f w') = evolves src m X w w'"
  by (simp_all add: evolves_def)

lemma served_prof:
  "served ty c a cyc src (prof d f w) = served ty c a cyc src w"
  "served ty c a cyc src w (resp, prof d f w') = served ty c a cyc src w (resp, w')"
  by (simp_all add: served_def fun_eq_iff)

lemma may_request_prof [simp]: "may_request (prof d f w) c a i ty src flags = may_request w c a i ty src flags"
  by (simp add: may_request_def)

section \<open>The bottom controller\<close>

lemma goodD:
  assumes "good w"
  shows "coherent w" "caches_ok w" "net_ok (numCaches w) (links w)" "mem_ok (mem w)"
proof -
  show co: "coherent w" "mem_ok (mem w)" using assms by (simp_all add: good_def)
  show "caches_ok w" "net_ok (numCaches w) (links w)" by (rule coherentD(1) [OF co(1)], rule coherentD(2) [OF co(1)])
qed

lemma ask_parent_ok:
  assumes acc: "acc_ok D m acc" "c \<le> m" "numCaches w \<le> D" and r: "may_request w c a i ty src flags"
  shows "ok (ask_parent acc c (selfId (b_link (bcc (caches w c)))) a ty (Cell c i) cyc src flags w)
    (\<lambda>(resp, pid, w'). served ty c a cyc src w (resp, w') \<and> pid < length (parents (fst (links w c))))"
proof -
  have R: "good w" "at_line w c a i" using r by (simp_all add: may_request_def)
  have cn: "c < numCaches w" using R(2) by (simp add: at_line_def)
  obtain pid where pid: "getParentId a (length (parents (fst (links w c)))) = Some pid" "pid < length (parents (fst (links w c)))"
    "home (links w) a c = Some (parents (fst (links w c)) ! pid)" using home_total [OF goodD(3) [OF R(1)] cn, of a] by auto
  have ls: "line_state c i w = Some (st w c a)" by (rule at_lineD(3) [OF goodD(2) [OF R(1)] R(2)])
  have L: "fst (links w c) = b_link (bcc (caches w c))" by (simp add: links_def)
  have "ok (acc (parents (fst (links w c)) ! pid) (Cell c i) (request w c a ty cyc src flags) w) (served ty c a cyc src w)"
    by (rule acc(1) [unfolded acc_ok_def, rule_format, OF acc(2,3) r pid(3)])
  then have "ok (do { (resp, w') \<leftarrow> acc (parents (fst (links w c)) ! pid) (Cell c i) (request w c a ty cyc src flags) w; Some (resp, pid, w') })
    (\<lambda>(resp, pid, w'). served ty c a cyc src w (resp, w') \<and> pid < length (parents (fst (links w c))))"
    by (rule ok_bind) (use pid(2) in auto)
  then show ?thesis using pid(1,2) ls L by (simp add: ask_parent_def request_def Let_def)
qed

lemma fetch_ok:
  assumes acc: "acc_ok D m acc" "c \<le> m" "numCaches w \<le> D" and r: "may_request w c a i ty src flags"
  shows "ok (fetch acc c a i ty cyc src flags w) (served ty c a cyc src w)"
  unfolding fetch_def
proof (rule ok_bind [OF ask_parent_ok [OF acc r]], clarify)
  fix resp pid w' assume s: "served ty c a cyc src w (resp, w')" and pid: "pid < length (parents (fst (links w c)))"
  have g: "good w'" "links w' = links w" "numCaches w' = numCaches w" using s by (simp_all add: served_def evolves_def)
  have cn: "c < numCaches w" using r by (simp add: may_request_def at_line_def)
  have "length (parentRTTs (fst (links w c))) = length (parents (fst (links w c)))" using goodD(3) [OF g(1)] g cn by (simp add: net_ok_def)
  moreover have "fst (links w' c) = b_link (bcc (caches w' c))" by (simp add: links_def)
  ultimately have "pid < length (parentRTTs (b_link (bcc (caches w' c))))" using g pid by simp
  then show "ok (let nextLevelLat = sub32 resp cyc in elem_at (parentRTTs (b_link (bcc (caches w' c)))) pid \<bind>
      (\<lambda>netLat. Some (cyc + u32 (nextLevelLat + netLat), prof c (profGETNextLevelLat_update ((+) nextLevelLat) \<circ> profGETNetLat_update ((+) netLat)) w')))
    (served ty c a cyc src w)"
    using s by (simp add: Let_def served_def)
qed

text \<open>The outcome of the bottom controller.\<close>

definition fetched :: "AccessType \<Rightarrow> nat \<Rightarrow> address \<Rightarrow> cyc \<Rightarrow> nat \<Rightarrow> 'm world \<Rightarrow> cyc \<times> 'm world \<Rightarrow> bool" where
  "fetched ty p a cyc src w = (\<lambda>(resp, w'). cyc \<le> resp \<and> good w' \<and> recorded cyc src (bnd w') \<and> evolves src p {(p, a)} w w' \<and>
     (\<forall>d < p. ca_closed (arr (caches w' d))) \<and> held ty (st w' p a) \<and>
     (IsPut ty \<longrightarrow> dir w' = dir w \<and> (\<forall>d x. d < numCaches w \<longrightarrow> x \<noteq> 0 \<longrightarrow> d \<noteq> p \<longrightarrow> st w' d x = st w d x)))"

lemma fetched_prof [simp]: "fetched ty p a cyc src w (resp, prof d f w') = fetched ty p a cyc src w (resp, w')"
  by (simp add: fetched_def)

lemma served_fetched: "served ty p a cyc src w (resp, w') \<Longrightarrow> IsGet ty \<Longrightarrow> fetched ty p a cyc src w (resp, w')"
  by (cases ty) (auto simp: served_def fetched_def IsGet_def IsPut_def)

lemma silent_upgrade:
  assumes g: "good w" and al: "at_line w p a i" and ex: "excl (st w p a)"
  shows "good (set_line p i StM w)" "evolves src m X w (set_line p i StM w)"
    "d < numCaches w \<Longrightarrow> x \<noteq> 0 \<Longrightarrow> st (set_line p i StM w) d x = (if d = p \<and> x = a then StM else st w d x)"
proof -
  note G = goodD [OF g]
  have pn: "p < numCaches w" "a \<noteq> 0" using al by (simp_all add: at_line_def)
  let ?w = "set_line p i StM w"
  have q: "quiet w ?w" by simp
  have st': "st ?w d x = (if d = p \<and> x = a then StM else st w d x)" if "x \<noteq> 0" for d x by (rule st_set_line [OF G(2) al that])
  have like: "ent_ok (links w) ((\<lambda>d. st w d a)(p := StM)) e a p' = ent_ok (links w) (\<lambda>d. st w d a) e a p'" for e p'
    by (rule ent_ok_like) (use ex in \<open>auto simp: excl_def\<close>)
  have "coherent ?w"
  proof (rule coherent_cell [OF G(3) set_line_ok [OF G(2) al] _ _ pn coherentD(4) [OF G(1)], of StM StM])
    show "ent_ok (links w) ((\<lambda>d. st w d a)(p := StM)) (dir ?w p' a) a p'" if "home (links w) a p = Some (CacheObj p')" for p'
      unfolding like using coherentD(4) [OF G(1) _ pn(2), of p'] home_kid(1) [OF G(3) pn(1) that] pn(1) by simp
  qed (use q st' in \<open>auto simp: quiet_def excl_def\<close>)
  then show "good ?w" using g q by (simp add: good_def quiet_def)
  show "evolves src m X w ?w" by (rule evolves_quiet [OF q]) (use st' ex in \<open>auto simp: lower_def excl_def\<close>)
  show "d < numCaches w \<Longrightarrow> x \<noteq> 0 \<Longrightarrow> st ?w d x = (if d = p \<and> x = a then StM else st w d x)" using st' by simp
qed

lemma fetched_here:
  assumes g: "good w" and al: "at_line w p a i" and rd: "ready src (bnd w)" and cl: "\<forall>d < p. ca_closed (arr (caches w d))"
  shows "held ty (st w p a) \<Longrightarrow> fetched ty p a cyc src w (cyc, w)"
    "excl (st w p a) \<Longrightarrow> fetched ty p a cyc src w (cyc, set_line p i StM w)"
proof -
  have pn: "p < numCaches w" "a \<noteq> 0" using al by (simp_all add: at_line_def)
  show "fetched ty p a cyc src w (cyc, w)" if "held ty (st w p a)" using that g rd cl by (simp add: fetched_def ready_recorded)
  show "fetched ty p a cyc src w (cyc, set_line p i StM w)" if ex: "excl (st w p a)"
  proof -
    note u = silent_upgrade [OF g al ex]
    have "bnd (set_line p i StM w) = bnd w" using quiet_updates(1) [of w p i StM] by (simp add: quiet_def)
    moreover have "held ty StM" by (cases ty) simp_all
    ultimately show ?thesis using u rd cl pn by (simp add: fetched_def ready_recorded)
  qed
qed

lemma bcc_processAccess_ok:
  assumes acc: "acc_ok D m acc" "p \<le> m" "numCaches w \<le> D" and g: "good w" and al: "at_line w p a i" and rd: "ready src (bnd w)"
    and cl: "\<forall>d < p. ca_closed (arr (caches w d))" and fl: "flags AND PREFETCH = 0"
    and put: "ty = PUTS \<Longrightarrow> st w p a \<noteq> StI" "ty = PUTX \<Longrightarrow> excl (st w p a)"
  shows "ok (bcc_processAccess acc p a i ty cyc src flags w) (fetched ty p a cyc src w)"
proof -
  note here = fetched_here [OF g al rd cl]
  have ls: "line_state p i w = Some (st w p a)" by (rule at_lineD(3) [OF goodD(2) [OF g] al])
  have ls': "line_state p i w' = Some (st w' p a)" if f: "fetched ty p a cyc src w (resp, w')" for ty resp w'
  proof -
    have "good w'" "at_line w' p a i" using f al at_line_evolves [of src p "{(p, a)}" w w' p a i] by (simp_all add: fetched_def)
    then show ?thesis by (rule at_lineD(3) [OF goodD(2)])
  qed
  have fin: "ok (do { (resp, w') \<leftarrow> X; assert_that (cyc \<le> resp); Some (resp, w') }) (fetched ty p a cyc src w)" if "ok X (fetched ty p a cyc src w)" for X
    by (rule ok_bind [OF that]) (auto simp: fetched_def)
  show ?thesis
  proof (cases ty)
    case PUTS
    then show ?thesis using ls put here(1) by (simp add: bcc_processAccess_def)
  next
    case PUTX
    then have "excl (st w p a)" using put by simp
    then show ?thesis using PUTX ls here [of PUTX cyc] by (cases "st w p a") (simp_all add: bcc_processAccess_def excl_def)
  next
    case GETS
    show ?thesis
    proof (cases "st w p a = StI")
      case True
      have r: "may_request w p a i GETS src flags" using g al rd cl fl True by (simp add: may_request_def IsPut_def)
      have "ok (do {
          (resp, w) \<leftarrow> fetch acc p a i GETS cyc src flags w;
          s \<leftarrow> line_state p i w;
          assert_that (s = StS \<or> s = StE);
          Some (resp, prof p (profGETSMiss_update Suc) w) }) (fetched ty p a cyc src w)"
      proof (rule ok_bind [OF fetch_ok [OF acc r]], clarify)
        fix resp w' assume s: "served GETS p a cyc src w (resp, w')"
        have f: "fetched GETS p a cyc src w (resp, w')" by (rule served_fetched [OF s]) (simp add: IsGet_def)
        have "st w' p a = StS \<or> st w' p a = StE" using s by (simp add: served_def)
        then show "ok (do { s \<leftarrow> line_state p i w'; assert_that (s = StS \<or> s = StE); Some (resp, prof p (profGETSMiss_update Suc) w') })
          (fetched ty p a cyc src w)" using f ls' [OF f] GETS by auto
      qed
      from fin [OF this] show ?thesis using GETS ls True by (simp add: bcc_processAccess_def)
    qed (use GETS ls here(1) [of GETS cyc] in \<open>simp add: bcc_processAccess_def\<close>)
  next
    case GETX
    have M: "ok (do { (resp, w) \<leftarrow> X; s \<leftarrow> line_state p i w; assert_that (s = StM); Some (resp, w) }) (fetched ty p a cyc src w)"
      if "ok X (fetched ty p a cyc src w)" for X
    proof (rule ok_bind [OF that], clarify)
      fix resp w' assume f: "fetched ty p a cyc src w (resp, w')"
      then have "st w' p a = StM" using GETX by (simp add: fetched_def)
      then show "ok (do { s \<leftarrow> line_state p i w'; assert_that (s = StM); Some (resp, w') }) (fetched ty p a cyc src w)" using f ls' [OF f] by simp
    qed
    show ?thesis
    proof (cases "st w p a = StI \<or> st w p a = StS")
      case True
      have r: "may_request (prof p f w) p a i GETX src flags" for f using g al rd cl fl True by (simp add: may_request_def IsPut_def) 
      have "ok (fetch acc p a i GETX cyc src flags (prof p f w)) (fetched ty p a cyc src w)" for f
        by (rule ok_conseq [OF fetch_ok [OF acc(1,2) _ r]]) (use acc(3) served_fetched GETX in \<open>auto simp: served_prof IsGet_def\<close>)
      from fin [OF M [OF this]] show ?thesis using GETX ls True by (simp add: bcc_processAccess_def)
    next
      case False
      then have ex: "excl (st w p a)" by (cases "st w p a") (simp_all add: excl_def)
      have "fetched ty p a cyc src w (cyc, if st w p a = StE then set_line p i StM w else w)"
        using False here [of GETX cyc] ex GETX by (cases "st w p a") simp_all
      then have "ok (Some (cyc, prof p (profGETXHit_update Suc) (if st w p a = StE then set_line p i StM w else w))) (fetched ty p a cyc src w)" by simp
      from fin [OF M [OF this]] show ?thesis using GETX ls False by (simp add: bcc_processAccess_def)
    qed
  qed
qed

end

end
