(* ===== verification/Coh_Evict.thy ===== *)
theory Coh_Evict
  imports Coh_Access
begin

text \<open>
  Evictions and allocations: how a cache makes room for a line.  The victim leaves the caches below first, then its permission is
  given back to the parent, and only then the new address takes its place in the array.
\<close>

section \<open>Lowering the copies below a line\<close>

text \<open>Everything agrees, except perhaps the entry of cache \<open>p\<close> for address \<open>a\<close>.\<close>

definition agree_but :: "'m world \<Rightarrow> address \<Rightarrow> nat \<Rightarrow> bool" where
  "agree_but w a p \<longleftrightarrow> caches_ok w \<and> (\<forall>q < numCaches w. \<forall>x. x \<noteq> 0 \<longrightarrow> \<not> (x = a \<and> q = p) \<longrightarrow> agrees w x q)"

lemma coherent_agree_but: "coherent w \<Longrightarrow> agree_but w a p"
  by (simp add: coherent_def agree_but_def)

lemma coherent_but: "agree_but w a p \<Longrightarrow> agrees w a p \<Longrightarrow> coherent w"
  unfolding coherent_def agree_but_def by blast

lemma sent_but:
  assumes but: "agree_but w a p" and p: "p < numCaches w" and S: "sendable w p a S" and eff: "effect ty a (reached w p a S) {p} w w1"
  shows "agree_but w1 a p"
proof -
  note E = effectD [OF eff]
  have B: "agrees w x q" if "q < numCaches w" "x \<noteq> 0" "\<not> (x = a \<and> q = p)" for q x
    using but that by (simp add: agree_but_def)
  have ok: "caches_ok w" using but by (simp add: agree_but_def)
  have "agrees w1 x q" if q: "q < numCaches w" "x \<noteq> 0" "\<not> (x = a \<and> q = p)" for q x
  proof (cases "x = a \<and> q \<in> reached w p a S")
    case True
    then show ?thesis using E(7) by simp
  next
    case out: False
    show ?thesis
    proof (rule effect_agrees [OF eff ok q(1,2) B [OF q]])
      show "q \<notin> reached w p a S \<union> {p}" if "x = a" using that out q(3) by auto
      show "kids (links w) q ! k \<notin> reached w p a S"
        if "x = a" "k < length (kids (links w) q)" "home (links w) a (kids (links w) q ! k) = Some (CacheObj q)" for k
        using reached_home [OF ok p S _ that(3)] that(1) out q(3) by auto
    qed
  qed
  then show ?thesis using E(2,4) by (simp add: agree_but_def)
qed

lemma ent_ok_raise:
  assumes e: "ent_ok N S e a c" and own: "S c \<noteq> StI \<Longrightarrow> s' \<noteq> StI" "excl (S c) \<Longrightarrow> excl s'" and k: "\<And>k. k < length (kids N c) \<Longrightarrow> kids N c ! k \<noteq> c"
  shows "ent_ok N (S(c := s')) e a c"
proof -
  note E = ent_okD [OF e]
  have eq: "(S(c := s')) (kids N c ! k) = S (kids N c ! k)" if "k < length (kids N c)" for k using k [OF that] by simp
  have h: "holders N (S(c := s')) a c = holders N S a c" by (rule holders_cong) (use eq in simp)
  show ?thesis
  proof (rule ent_okI)
    fix k assume "k \<in> holders N (S(c := s')) a c"
    then have k': "k \<in> sharers e" "k < length (kids N c)" using h E(1) by auto
    show "(S(c := s')) c \<noteq> StI \<and> (exclusive e \<longleftrightarrow> excl ((S(c := s')) (kids N c ! k))) \<and>
      (excl ((S(c := s')) (kids N c ! k)) \<longrightarrow> excl ((S(c := s')) c))" using E(4-6) [OF k'(1)] eq [OF k'(2)] own by simp
  qed (use h E(1-3) in simp_all)
qed

lemma lowered_coherent:
  assumes co: "coherent w" and al: "at_line w p a i" and ty: "ty \<noteq> FWD" and low: "lowered w p a ty wb cyc (resp, wb', w1)"
  shows "coherent w1" "quiet w w1" "st w1 p a = st w p a" "evolves src m X w w1" "wb' \<Longrightarrow> \<not> wb \<Longrightarrow> excl (st w p a)" "cyc \<le> resp"
    "ty = INV \<Longrightarrow> vacant (dir w1 p a)" "ty = INVX \<Longrightarrow> \<not> e_isExclusive (dir w1 p a)"
    "d < numCaches w \<Longrightarrow> x \<noteq> 0 \<Longrightarrow> st w d x = StI \<Longrightarrow> st w1 d x = StI"
proof -
  define T where "T = (if ty = INVX \<and> \<not> e_isExclusive (dir w p a) then {} else sharers (dir w p a))"
  have l: "cyc \<le> resp" "wb' \<longleftrightarrow> wb \<or> (\<exists>d \<in> reached w p a T. st w d a = StM)" "effect ty a (reached w p a T) {p} w w1"
    "dir w1 p a = (if T = {} then dir w p a
       else if ty = INV then (dir w p a)\<lparr>sharers := {}, numSharers := 0\<rparr> else (dir w p a)\<lparr>exclusive := False\<rparr>)"
    using low by (simp_all add: lowered_def T_def [symmetric] Let_def)
  have pn: "p < numCaches w" "a \<noteq> 0" using al by (simp_all add: at_line_def)
  note C = coherentD [OF co] and E = effectD [OF l(3)]
  have agc: "agrees w a p" by (rule C(4) [OF pn])
  have ag: "agrees w a q" if "q \<in> subtree w a p" for q using C(4) [OF _ pn(2)] that by (simp add: subtree_def)
  note sr = subtree_reached [OF C(1) pn(1) agc] and Dn = ent_ok_down [OF agc ty T_def l(4)]
  have sT: "sendable w p a T" "T \<subseteq> sharers (dir w p a)" using sr(2) by (auto simp: T_def sendable_def split: if_splits)
  have RT: "reached w p a T \<subseteq> subtree w a p" using sT(2) sr(4) by (auto simp: reached_def)
  have pR: "p \<notin> reached w p a T" using reached_above(1) [OF C(1) pn(1) sT(1), of p] by auto
  show q: "quiet w w1" and "cyc \<le> resp" by (rule E(1), rule l(1))
  show sp: "st w1 p a = st w p a" using E(5) [OF pn] pR by simp
  show "evolves src m X w w1" by (rule evolves_effect [OF l(3) ty])
  show "st w1 d x = StI" if "d < numCaches w" "x \<noteq> 0" "st w d x = StI" using E(5) [OF that(1,2)] that(3) by (cases ty) auto
  have kid: "kids (links w) p ! k < numCaches w" "kids (links w) p ! k \<noteq> p" if "k < length (kids (links w) p)" for k
    using kid_less(1,2) [OF C(2) pn(1) that] by auto
  have kst: "st w1 (kids (links w) p ! k) a = down ty (st w (kids (links w) p ! k) a)"
    if "k < length (kids (links w) p)" "home (links w) a (kids (links w) p ! k) = Some (CacheObj p)" for k
  proof -
    have "kids (links w) p ! k \<in> subtree w a p"
      using kid(1) [OF that(1)] that(2) under_step [of "kids (links w) p ! k" p "links w" a] by (simp add: subtree_def)
    then show ?thesis using flat_below [OF C(1) ag pn(1) T_def _ kid(2) [OF that(1)]] E(5) [OF kid(1) [OF that(1)] pn(2)] by auto
  qed
  have low_own: "down ty s \<noteq> StI \<Longrightarrow> s \<noteq> StI" "excl (down ty s) \<Longrightarrow> excl s" for s using ty by (cases ty; auto simp: excl_def split: if_splits)+
  have "ent_ok (links w) ((\<lambda>d. down ty (st w d a))(p := st w p a)) (dir w1 p a) a p"
    by (rule ent_ok_raise [OF Dn(1)]) (use low_own kid(2) in auto)
  then have "agrees w1 a p"
    using ent_ok_cong [of "\<lambda>d. st w1 d a" p "(\<lambda>d. down ty (st w d a))(p := st w p a)" "links w" a] sp kst kid(2) E(3) by auto
  then show "coherent w1" using coherent_but [OF sent_but [OF coherent_agree_but [OF co] pn(1) sT(1) l(3)]] by simp
  show "excl (st w p a)" if wb: "wb'" "\<not> wb"
  proof -
    obtain d where "d \<in> reached w p a T" "st w d a = StM" using l(2) wb by auto
    then show ?thesis using low_below(2) [OF C(1) ag, where c = p and d = d] RT by (auto simp: excl_def)
  qed
  show "vacant (dir w1 p a)" if "ty = INV" using Dn(2) that by simp
  show "\<not> e_isExclusive (dir w1 p a)" if "ty = INVX" using l(4) that by (auto simp: T_def e_isExclusive_def ent_okD(2) [OF agc] ent_okD(1) [OF agc] split: if_splits)
qed

lemma evolves_drop: "evolves src m {(c, a)} w w' \<Longrightarrow> lower (st w c a) (st w' c a) \<Longrightarrow> evolves src m {} w w'"
  unfolding evolves_def by blast

lemma lower_StI [simp]: "lower s StI"
  by (simp add: lower_def excl_def)

lemma b_link_set_line [simp]: "b_link (bcc (caches (set_line c i s w) d)) = b_link (bcc (caches w d))"
  by (simp add: set_line_def)

section \<open>Evictions\<close>

context memory_side
begin

definition evicted :: "nat \<Rightarrow> nat \<Rightarrow> cyc \<Rightarrow> nat \<Rightarrow> 'm world \<Rightarrow> cyc \<times> 'm world \<Rightarrow> bool" where
  "evicted p i cyc src w = (\<lambda>(resp, w'). good w' \<and> recorded cyc src (bnd w') \<and> evolves src p {} w w' \<and>
     (\<forall>d < p. ca_closed (arr (caches w' d))) \<and> line_state p i w' = Some StI)"

lemma bcc_processEviction_ok:
  assumes acc: "acc_ok D m acc" "p \<le> m" "numCaches w \<le> D" and g: "good w" and al: "at_line w p x i" and rd: "ready src (bnd w)"
    and cl: "\<forall>d < p. ca_closed (arr (caches w d))" and v: "vacant (dir w p x)" and wb: "wb \<Longrightarrow> excl (st w p x)" and s: "st w p x \<noteq> StI"
  shows "ok (bcc_processEviction acc p x i wb cyc src w) (evicted p i cyc src w)"
proof -
  define w2 where "w2 = (if wb then set_line p i StM w else w)"
  have q: "quiet w w2" by (simp add: w2_def)
  have w2: "good w2" "at_line w2 p x i" "ready src (bnd w2)" "\<forall>d < p. ca_closed (arr (caches w2 d))" "vacant (dir w2 p x)" "st w2 p x \<noteq> StI"
    "evolves src p {} w w2" "numCaches w2 = numCaches w" "b_link (bcc (caches w2 p)) = b_link (bcc (caches w p))"
    using g al rd cl v s wb silent_upgrade [OF g al] at_line_quiet [OF q] q by (auto simp: w2_def quiet_def at_line_def)
  define ty where "ty = (if st w2 p x = StM then PUTX else PUTS)"
  have r: "may_request w2 p x i ty src 0" using w2 by (cases "st w2 p x") (simp_all add: may_request_def ty_def)
  have ls: "line_state p i w = Some (st w p x)" "line_state p i w2 = Some (st w2 p x)"
    using at_lineD(3) [OF goodD(2) [OF g] al] at_lineD(3) [OF goodD(2) [OF w2(1)] w2(2)] by simp_all
  have end': "ok (do { (respCycle, w) \<leftarrow> do { (resp, _, w) \<leftarrow> ask_parent acc p (selfId (b_link (bcc (caches w2 p)))) x ty (Cell p i) cyc src 0 w2; Some (resp, w) };
      s \<leftarrow> line_state p i w; assert_that (s = StI); Some (respCycle, w) }) (evicted p i cyc src w)"
  proof (rule ok_bind [OF ok_bind [OF ask_parent_ok [OF acc(1,2) _ r]]])
    show "numCaches w2 \<le> D" using acc(3) w2(8) by simp
    show "ok (case y of (resp, _, w) \<Rightarrow> Some (resp, w)) (served ty p x cyc src w2)"
      if "case y of (resp, pid, w') \<Rightarrow> served ty p x cyc src w2 (resp, w') \<and> pid < length (parents (fst (links w2 p)))" for y using that by auto
    fix y assume y: "served ty p x cyc src w2 y"
    obtain resp w' where y': "y = (resp, w')" by (cases y)
    have S: "good w'" "recorded cyc src (bnd w')" "evolves src p {(p, x)} w2 w'" "\<forall>d < p. ca_closed (arr (caches w' d))" "st w' p x = StI"
      using y y' by (auto simp: served_def ty_def split: if_splits)
    have "at_line w' p x i" using at_line_evolves [OF S(3)] w2(2) by simp
    then have ls': "line_state p i w' = Some StI" using at_lineD(3) [OF goodD(2) [OF S(1)]] S(5) by simp
    have "evolves src p {} w w'" by (rule evolves_trans [OF w2(7) evolves_drop [OF S(3)]]) (simp add: S(5))
    then show "ok (case y of (respCycle, w) \<Rightarrow> do { s \<leftarrow> line_state p i w; assert_that (s = StI); Some (respCycle, w) }) (evicted p i cyc src w)"
      using S y' ls' by (simp add: evicted_def)
  qed
  have "bcc_processEviction acc p x i wb cyc src w = do {
      (respCycle, w) \<leftarrow> do { (resp, _, w) \<leftarrow> ask_parent acc p (selfId (b_link (bcc (caches w2 p)))) x ty (Cell p i) cyc src 0 w2; Some (resp, w) };
      s \<leftarrow> line_state p i w; assert_that (s = StI); Some (respCycle, w) }"
    using ls wb w2(6,9) by (cases wb) (auto simp: bcc_processEviction_def w2_def ty_def excl_def)
  then show ?thesis using end' by simp
qed

lemma cc_processEviction_ok:
  assumes acc: "acc_ok D m acc" "p \<le> m" "numCaches w \<le> D" and inval: "inv_ok m' inval" "numCaches w \<le> Suc (p + m')" and g: "good w"
    and p: "p < numCaches w" "i < ca_lines (arr (caches w p))" and rd: "ready src (bnd w)" and cl: "\<forall>d < p. ca_closed (arr (caches w d))"
    and x: "x = ca_tag (arr (caches w p)) i"
  shows "ok (cc_processEviction acc inval p src x i cyc w) (evicted p i cyc src w)"
proof -
  note G = goodD [OF g]
  have cok: "cache_ok (caches w p)" by (rule coherentD(3) [OF G(1) p(1)])
  note K = cache_okD [OF cok]
  define s where "s = b_array (bcc (caches w p)) ! i"
  have ls: "line_state p i w = Some s" using K(2) p(2) by (simp add: line_state_def s_def)
  have incl: "\<not> t_nonInclusiveHack (t_link t)" if "tcc (caches w p) = Some t" for t
    using G(3) p(1) that by (auto simp: net_ok_def links_def)
  show ?thesis
  proof (cases "s = StI")
    case True
    have e: "entry_at p i w = Some (t_array t ! i)" "isEmpty (t_array t ! i)" if "tcc (caches w p) = Some t" for t
      using K(4) [OF that] K(5) [OF that p(2)] True that p(2) by (simp_all add: s_def entry_at_def vacant_def isEmpty_def)
    have "bcc_processEviction acc p x i False cyc src w = Some (cyc, w)" using ls True by (simp add: bcc_processEviction_def)
    then have "cc_processEviction acc inval p src x i cyc w = Some (cyc, w)"
      using e incl by (cases "tcc (caches w p)") (simp_all add: cc_processEviction_def tcc_processEviction_def sendInvalidates_def)
    then show ?thesis using g rd cl ls True by (simp add: evicted_def ready_recorded)
  next
    case False
    have al: "at_line w p x i" using K(3) [OF p(2)] False p(1) x by (simp add: at_line_def s_def)
    have st: "st w p x = s" using al by (simp add: at_line_def st_def s_def)
    have ag: "agrees w x q" if "q \<in> subtree w x p" for q using coherentD(4) [OF G(1)] that al by (simp add: subtree_def at_line_def)
    have tc: "tcc_processEviction inval p x i False cyc src w = tcc_processInval inval p x i INV False cyc src w" if "tcc (caches w p) = Some t" for t
      using incl that by (simp add: tcc_processEviction_def tcc_processInval_def)
    have "ok (do { (evCycle, wb, w) \<leftarrow> (case tcc (caches w p) of None \<Rightarrow> Some (cyc, False, w) | Some _ \<Rightarrow> tcc_processInval inval p x i INV False cyc src w);
        bcc_processEviction acc p x i wb evCycle src w }) (evicted p i cyc src w)"
    proof (rule ok_bind [OF lower_children [OF inval(1) G(2) inval(2) al _ ag]])
      fix y assume y: "lowered w p x INV False cyc y"
      obtain ev wb w1 where y': "y = (ev, wb, w1)" by (cases y)
      note L = lowered_coherent [OF G(1) al _ y [unfolded y']]
      have q: "quiet w w1" using L(2) by simp
      have w1: "good w1" "at_line w1 p x i" "ready src (bnd w1)" "\<forall>d < p. ca_closed (arr (caches w1 d))" "vacant (dir w1 p x)" "st w1 p x = s" "numCaches w1 = numCaches w"
        using L(1,3,7) g al rd cl st at_line_quiet [OF q] q by (auto simp: good_def quiet_def same_arr_def)
      have "ok (bcc_processEviction acc p x i wb ev src w1) (evicted p i ev src w1)"
        by (rule bcc_processEviction_ok [OF acc(1,2) _ w1(1-5)]) (use acc(3) w1(6,7) L(5) st False in auto)
      then have "ok (bcc_processEviction acc p x i wb ev src w1) (evicted p i cyc src w)"
        by (rule ok_conseq) (use L(6) evolves_trans [OF L(4) [of src p "{}"]] recorded_mono in \<open>auto simp: evicted_def\<close>)
      then show "ok (case y of (evCycle, wb, w) \<Rightarrow> bcc_processEviction acc p x i wb evCycle src w) (evicted p i cyc src w)" using y' by simp
    qed simp
    then show ?thesis using tc by (cases "tcc (caches w p)") (simp_all add: cc_processEviction_def)
  qed
qed

end

section \<open>Replacing the array\<close>

abbreviation set_arr :: "nat \<Rightarrow> CacheArray \<Rightarrow> 'm world \<Rightarrow> 'm world" where
  "set_arr p a' \<equiv> upd_cache p (arr_update (\<lambda>_. a'))"

lemma set_arr_simps [simp]:
  "arr (caches (set_arr p a' w) d) = (if d = p then a' else arr (caches w d))" "tcc (caches (set_arr p a' w) d) = tcc (caches w d)"
  "bcc (caches (set_arr p a' w) d) = bcc (caches w d)" "links (set_arr p a' w) = links w" "line_state c i (set_arr p a' w) = line_state c i w"
  by (simp_all add: links_def line_state_def fun_eq_iff)

lemma same_lines:
  assumes co: "coherent w" and a': "ca_wf a'" "ca_found a' = ca_found (arr (caches w p))" "ca_tag a' = ca_tag (arr (caches w p))"
    "ca_lines a' = ca_lines (arr (caches w p))"
  shows "coherent (set_arr p a' w)" "st (set_arr p a' w) = st w" "dir (set_arr p a' w) = dir w"
proof -
  show e: "st (set_arr p a' w) = st w" "dir (set_arr p a' w) = dir w" using a'(2) by (simp_all add: st_def dir_def fun_eq_iff split: option.split)
  have "cache_ok (caches (set_arr p a' w) d)" if "d < numCaches w" for d
    using coherentD(3) [OF co that] a' by (cases "d = p") (simp_all add: cache_ok_def)
  then show "coherent (set_arr p a' w)" using co e by (simp add: coherent_def caches_ok_def)
qed

lemma dir_vacant:
  assumes "cache_ok (caches w p)" "x \<noteq> 0" "st w p x = StI"
  shows "vacant (dir w p x)"
proof (cases "tcc (caches w p)")
  case (Some t)
  show ?thesis
  proof (cases "ca_found (arr (caches w p)) x")
    case f: (Some j)
    have "j < ca_lines (arr (caches w p))" using ca.found_tag [OF cache_okD(1) [OF assms(1)] assms(2) f] by simp
    then show ?thesis using cache_okD(5) [OF assms(1) Some, where i = j] assms(3) Some f by (simp add: st_def dir_def)
  qed (use Some in \<open>simp add: dir_def\<close>)
qed (simp add: dir_def)

lemma ent_ok_vacant: "vacant e \<Longrightarrow> vacant e' \<Longrightarrow> ent_ok N S e a p \<Longrightarrow> ent_ok N S e' a p"
  by (auto simp: ent_ok_def vacant_def)

text \<open>Installing address \<open>a\<close> in an invalid line changes no permission.\<close>

lemma install:
  assumes co: "coherent w" and p: "p < numCaches w" and a: "a \<noteq> 0" "ca_found (arr (caches w p)) a = None" and i: "line_state p i w = Some StI"
    and a': "ca_wf a'" "ca_found a' a = Some i" "ca_tag a' = (ca_tag (arr (caches w p)))(i := a)" "ca_lines a' = ca_lines (arr (caches w p))"
    and keep: "\<forall>y j. y \<noteq> 0 \<longrightarrow> y \<noteq> a \<longrightarrow> ca_found (arr (caches w p)) y = Some j \<longrightarrow> j \<noteq> i \<longrightarrow> ca_found a' y = Some j"
  shows "coherent (set_arr p a' w)" "x \<noteq> 0 \<Longrightarrow> st (set_arr p a' w) d x = st w d x"
proof -
  let ?b = "b_array (bcc (caches w p))" and ?w = "set_arr p a' w"
  have cok: "cache_ok (caches w p)" by (rule coherentD(3) [OF co p])
  note K = cache_okD [OF cok]
  have i': "i < length ?b" "?b ! i = StI" using i by (auto simp: line_state_def elem_at_def split: if_splits)
  have was: "ca_found (arr (caches w p)) y = Some j" if "y \<noteq> 0" "ca_found a' y = Some j" "?b ! j \<noteq> StI" for y j
  proof -
    have j: "j < ca_lines (arr (caches w p))" "ca_tag a' j = y" using ca.found_tag [OF a'(1) that(1,2)] a'(4) by simp_all
    then show ?thesis using K(3) [OF j(1) that(3)] a'(3) that(3) i'(2) by (cases "j = i") auto
  qed
  have forth: "ca_found a' y = Some j" if "y \<noteq> 0" "ca_found (arr (caches w p)) y = Some j" "?b ! j \<noteq> StI" for y j
  proof -
    have "y \<noteq> a" "j \<noteq> i" using that(2,3) i'(2) a(2) by auto
    then show ?thesis using keep [rule_format, OF that(1) _ that(2)] by simp
  qed
  have stp: "st ?w p y = st w p y" if y: "y \<noteq> 0" for y
  proof (cases "st w p y = StI")
    case True
    have "st ?w p y = StI"
    proof (rule ccontr)
      assume "st ?w p y \<noteq> StI"
      then obtain j where "ca_found a' y = Some j" "?b ! j \<noteq> StI" by (auto simp: st_def split: option.splits)
      then show False using was [OF y] True by (simp add: st_def)
    qed
    then show ?thesis using True by simp
  next
    case False
    then obtain j where j: "ca_found (arr (caches w p)) y = Some j" "?b ! j \<noteq> StI" by (auto simp: st_def split: option.splits)
    then show ?thesis using forth [OF y j] by (simp add: st_def)
  qed
  then have st': "st ?w d x = st w d x" if "x \<noteq> 0" for d x using that by (cases "d = p") (simp_all add: st_def split: option.split)
  then show "x \<noteq> 0 \<Longrightarrow> st ?w d x = st w d x" by simp
  have "ca_tag a' j \<noteq> 0 \<and> ca_found a' (ca_tag a' j) = Some j" if "j < ca_lines a'" "?b ! j \<noteq> StI" for j
    using K(3) [of j] that a'(3,4) forth [of "ca_tag (arr (caches w p)) j" j] i'(2) by (cases "j = i") simp_all
  then have ok1: "cache_ok (caches ?w p)" using K(1,2,4,5) a'(1,4) unfolding cache_ok_def by simp
  have ok: "caches_ok ?w" unfolding caches_ok_def
  proof (intro conjI allI impI)
    show "cache_ok (caches ?w d)" if "d < numCaches ?w" for d using that ok1 coherentD(3) [OF co, of d] by (cases "d = p") (simp_all add: cache_ok_def)
  qed (use coherentD(2) [OF co] in simp)
  have "agrees ?w y q" if q: "q < numCaches w" and y: "y \<noteq> 0" for q y
  proof -
    have old: "ent_ok (links w) (\<lambda>d. st w d y) (dir w q y) y q" by (rule coherentD(4) [OF co q y])
    have "ent_ok (links w) (\<lambda>d. st w d y) (dir ?w q y) y q"
    proof (cases "q = p \<and> st w p y = StI")
      case True
      then show ?thesis using ent_ok_vacant [OF dir_vacant [OF cok y] dir_vacant [OF ok1 y] old [unfolded conjunct1 [OF True]]] stp [OF y] by simp
    next
      case False
      have "dir ?w q y = dir w q y"
      proof (cases "q = p")
        case eq: True
        then obtain j where j: "ca_found (arr (caches w p)) y = Some j" "?b ! j \<noteq> StI" using False by (auto simp: st_def split: option.splits)
        then show ?thesis using forth [OF y j] eq by (simp add: dir_def split: option.split)
      qed (simp add: dir_def split: option.split)
      then show ?thesis using old by simp
    qed
    then show ?thesis using st' [OF y] by simp
  qed
  then show "coherent ?w" using ok by (simp add: coherent_def)
qed

section \<open>Making room for a line\<close>

context memory_side
begin

definition placed :: "nat \<Rightarrow> address \<Rightarrow> cyc \<Rightarrow> nat \<Rightarrow> 'm world \<Rightarrow> nat \<times> 'm world \<Rightarrow> bool" where
  "placed p a cyc src w = (\<lambda>(i, w'). good w' \<and> recorded cyc src (bnd w') \<and> evolves src (Suc p) {} w w' \<and>
     (\<forall>d \<le> p. ca_closed (arr (caches w' d))) \<and> at_line w' p a i)"

lemma evolves_set_arr: "evolves src (Suc p) X w (set_arr p a' w)"
  by (auto simp: evolves_def st_def split: option.split)

lemma cache_allocate_ok:
  assumes acc: "acc_ok D m acc" "p \<le> m" "numCaches w \<le> D" and inval: "inv_ok m' inval" "numCaches w \<le> Suc (p + m')" and g: "good w"
    and p: "p < numCaches w" and a: "lineAddr req \<noteq> 0" "ca_found (arr (caches w p)) (lineAddr req) = None"
    and rd: "ready (srcId req) (bnd w)" and cl: "\<forall>d \<le> p. ca_closed (arr (caches w d))" and get: "IsGet (req_type req)"
  shows "ok (cache_allocate acc inval p req cyc w) (placed p (lineAddr req) cyc (srcId req) w)"
proof -
  define a where "a = lineAddr req"
  note G = goodD [OF g]
  have wf: "ca_wf (arr (caches w p))" by (rule cache_okD(1) [OF coherentD(3) [OF G(1) p]])
  obtain i a1 where a1: "ca_preinsert (the_view (caches w p)) a False (arr (caches w p)) = Some (i, ca_tag (arr (caches w p)) i, a1)"
    "i < ca_lines (arr (caches w p))" "ca_wf a1" "ca_opened a1 a i" "ca_found a1 = ca_found (arr (caches w p))"
    "ca_tag a1 = ca_tag (arr (caches w p))" "ca_lines a1 = ca_lines (arr (caches w p))"
    using ca.preinsert [OF wf _ a, of "the_view (caches w p)" False] cl by (auto simp: a_def)
  let ?w1 = "set_arr p a1 w"
  note s = same_lines [OF G(1) a1(3,5,6,7)]
  have w1: "good ?w1" "\<forall>d < p. ca_closed (arr (caches ?w1 d))" using g s cl by (simp_all add: good_def)
  have "ok (cc_processEviction acc inval p (srcId req) (ca_tag (arr (caches w p)) i) i cyc ?w1) (evicted p i cyc (srcId req) ?w1)"
    by (rule cc_processEviction_ok [OF acc(1,2) _ inval(1) _ w1(1)]) (use acc(3) inval(2) p a1 rd w1(2) in simp_all)
  then have "ok (do { (_, w) \<leftarrow> cc_processEviction acc inval p (srcId req) (ca_tag (arr (caches w p)) i) i cyc ?w1;
      a \<leftarrow> ca_postinsert a req i False (arr (caches w p));
      Some (i, set_arr p a w) }) (placed p a cyc (srcId req) w)"
  proof (rule ok_bind)
    fix y assume "evicted p i cyc (srcId req) ?w1 y"
    moreover obtain resp w2 where y: "y = (resp, w2)" by (cases y)
    ultimately have w2: "good w2" "recorded cyc (srcId req) (bnd w2)" "evolves (srcId req) p {} ?w1 w2" "\<forall>d < p. ca_closed (arr (caches w2 d))"
      "line_state p i w2 = Some StI" by (simp_all add: evicted_def)
    have n2: "numCaches w2 = numCaches w" using evolvesD(2) [OF w2(3)] by simp
    have sa: "same_arr a1 (arr (caches w2 p))" using evolvesD(5) [OF w2(3), of p] by simp
    obtain a2 where a2: "ca_postinsert a req i False (arr (caches w2 p)) = Some a2" "ca_wf a2" "ca_closed a2" "ca_found a2 a = Some i"
      "ca_tag a2 = (ca_tag (arr (caches w2 p)))(i := a)" "ca_lines a2 = ca_lines (arr (caches w2 p))"
      "\<forall>y j. y \<noteq> 0 \<longrightarrow> y \<noteq> a \<longrightarrow> ca_found (arr (caches w2 p)) y = Some j \<longrightarrow> j \<noteq> i \<longrightarrow> ca_found a2 y = Some j"
      using ca.postinsert [of "arr (caches w2 p)" a i req False] sa a1 a get by (auto simp: same_arr_def a_def)
    have new: "ca_found (arr (caches w2 p)) a = None" using sa a1(5) a(2) by (simp add: same_arr_def a_def)
    note I = install [OF goodD(1) [OF w2(1)] _ _ new w2(5) a2(2,4-7)]
    have "good (set_arr p a2 w2)" using w2(1) I(1) p n2 a(1) by (simp add: good_def a_def)
    moreover have "evolves (srcId req) (Suc p) {} w (set_arr p a2 w2)"
      by (rule evolves_trans [OF evolves_set_arr evolves_trans [OF evolves_mono [OF w2(3)] evolves_set_arr]]) auto
    moreover have "ca_closed (arr (caches (set_arr p a2 w2) d))" if "d \<le> p" for d using that w2(4) a2(3) by (cases "d = p") simp_all
    moreover have "at_line (set_arr p a2 w2) p a i" using a2(4) p n2 a(1) by (simp add: at_line_def a_def)
    ultimately show "ok (case y of (_, w) \<Rightarrow> do { a \<leftarrow> ca_postinsert a req i False (arr (caches w p)); Some (i, set_arr p a w) })
      (placed p a cyc (srcId req) w)" using y w2(2) a2(1) by (simp add: placed_def)
  qed
  then show ?thesis using a1(1) by (simp add: cache_allocate_def a_def)
qed

lemma cache_find_ok:
  assumes acc: "acc_ok D m acc" "p \<le> m" "numCaches w \<le> D" and inval: "inv_ok m' inval" "numCaches w \<le> Suc (p + m')" and g: "good w"
    and p: "p < numCaches w" and a: "lineAddr req \<noteq> 0"
    and rd: "ready (srcId req) (bnd w)" and cl: "\<forall>d \<le> p. ca_closed (arr (caches w d))" and get: "IsGet (req_type req)"
  shows "ok (cache_find acc inval p req w) (\<lambda>(lineId, w'). \<exists>i. lineId = Some i \<and> placed p (lineAddr req) (cycle req) (srcId req) w (i, w'))"
proof -
  note G = goodD [OF g]
  have wf: "ca_wf (arr (caches w p))" by (rule cache_okD(1) [OF coherentD(3) [OF G(1) p]])
  obtain a1 where a1: "ca_lookup (lineAddr req) (Some req) True False (arr (caches w p)) = Some (ca_found (arr (caches w p)) (lineAddr req), a1)"
    "ca_wf a1" "ca_closed a1" "ca_found a1 = ca_found (arr (caches w p))" "ca_tag a1 = ca_tag (arr (caches w p))" "ca_lines a1 = ca_lines (arr (caches w p))"
    using ca.lookup_update [OF wf _ a get, of False] cl by auto
  let ?w1 = "set_arr p a1 w"
  note s = same_lines [OF G(1) a1(2,4-6)]
  have w1: "good ?w1" "\<forall>d \<le> p. ca_closed (arr (caches ?w1 d))" using g s cl a1(3) by (simp_all add: good_def)
  have lk: "cache_lookup p (lineAddr req) (Some req) True w = Some (ca_found (arr (caches w p)) (lineAddr req), ?w1)" using a1(1) by (simp add: cache_lookup_def)
  show ?thesis
  proof (cases "ca_found (arr (caches w p)) (lineAddr req)")
    case (Some i)
    have "placed p (lineAddr req) (cycle req) (srcId req) w (i, ?w1)"
      using w1 rd evolves_set_arr p a Some a1(4) by (simp add: placed_def ready_recorded at_line_def)
    then show ?thesis using lk get Some by (simp add: cache_find_def)
  next
    case None
    have al: "shouldAllocate p (req_type req) ?w1 = Some True" using get by (simp add: shouldAllocate_def split: option.split)
    let ?cyc = "cycle req + accLat (caches ?w1 p)"
    have "ok (cache_allocate acc inval p req ?cyc ?w1) (placed p (lineAddr req) ?cyc (srcId req) ?w1)"
      by (rule cache_allocate_ok [OF acc(1,2) _ inval(1) _ w1(1)]) (use acc(3) inval(2) p a None a1(4) rd w1(2) get in simp_all)
    then have "ok (do { (i, w) \<leftarrow> cache_allocate acc inval p req ?cyc ?w1; Some (Some i, w) })
      (\<lambda>(lineId, w'). \<exists>i. lineId = Some i \<and> placed p (lineAddr req) (cycle req) (srcId req) w (i, w'))"
      by (rule ok_bind) (use recorded_mono [of ?cyc "srcId req" _ "cycle req"] evolves_trans [OF evolves_set_arr] in \<open>auto simp: placed_def\<close>)
    then show ?thesis using lk get al None by (simp add: cache_find_def)
  qed
qed

text \<open>A write-back finds its line.\<close>

lemma cache_find_put:
  assumes "good w" "at_line w p (lineAddr req) i" "IsPut (req_type req)"
  shows "\<exists>w'. cache_find acc inval p req w = Some (Some i, w') \<and> quiet w w' \<and> good w' \<and> st w' = st w \<and> dir w' = dir w"
proof -
  have p: "p < numCaches w" "lineAddr req \<noteq> 0" "ca_found (arr (caches w p)) (lineAddr req) = Some i" using assms(2) by (simp_all add: at_line_def)
  have "\<not> IsGet (req_type req)" using assms(3) by (auto simp: IsPut_def IsGet_def)
  moreover obtain w' where w': "cache_lookup p (lineAddr req) (Some req) False w = Some (Some i, w')" "quiet w w'" "caches_ok w'" "st w' = st w" "dir w' = dir w"
    using lookup_calm [OF goodD(2) [OF assms(1)] p(1,2), of "Some req"] p(3) by auto
  moreover have "good w'" using assms(1) w' by (simp add: good_def coherent_def quiet_def)
  ultimately show ?thesis by (simp add: cache_find_def)
qed

end

end
