(* ===== verification/Coh_Grant.thy ===== *)
theory Coh_Grant
  imports Coh_Evict
begin

text \<open>
  The top controller: how a directory entry and the copies below it change when a child asks for a permission or gives one back.
\<close>

section \<open>The entry after a child changed\<close>

lemma card_one: "finite A \<Longrightarrow> k \<in> A \<Longrightarrow> card A \<le> 1 \<Longrightarrow> card A = 1"
  by (metis One_nat_def Suc_leI card_gt_0_iff empty_iff le_antisym)

lemma holders_child:
  assumes N: "net_ok n N" and p: "p < n" and c: "c < n" "home N a c = Some (CacheObj p)" and k: "k = selfId (fst (N c))"
  shows "holders N (S(c := s')) a p = (if s' = StI then holders N S a p - {k} else insert k (holders N S a p))"
    "k' < length (kids N p) \<Longrightarrow> (S(c := s')) (kids N p ! k') = (if k' = k then s' else S (kids N p ! k'))" "(S(c := s')) p = S p"
proof -
  note h = home_kid [OF N c(1) c(2)]
  have inj: "kids N p ! k' = c \<longleftrightarrow> k' = k" if "k' < length (kids N p)" for k' using kid_less(3) [OF N p that] h k by auto
  then show kid: "(S(c := s')) (kids N p ! k') = (if k' = k then s' else S (kids N p ! k'))" if "k' < length (kids N p)" for k' using that by simp
  show "(S(c := s')) p = S p" using h(1) by simp
  have kc: "kids N p ! k = c" "k < length (kids N p)" using h(2,3) k by simp_all
  show "holders N (S(c := s')) a p = (if s' = StI then holders N S a p - {k} else insert k (holders N S a p))"
  proof (rule set_eqI)
    fix k'
    show "k' \<in> holders N (S(c := s')) a p \<longleftrightarrow> k' \<in> (if s' = StI then holders N S a p - {k} else insert k (holders N S a p))"
    proof (cases "k' = k")
      case False
      then show ?thesis using inj [of k'] by auto
    qed (simp add: kc c(2))
  qed
qed

lemma ent_drop:
  assumes N: "net_ok n N" and p: "p < n" and c: "c < n" "home N a c = Some (CacheObj p)" and k: "k = selfId (fst (N c))"
    and e: "ent_ok N S e a p" "k \<in> sharers e"
  shows "ent_ok N (S(c := StI)) (drop_sharer k e) a p"
proof -
  note H = holders_child [OF N p c k] and E = ent_okD [OF e(1)]
  have h: "holders N (S(c := StI)) a p = holders N S a p - {k}" by (simp add: H(1))
  show ?thesis
  proof (rule ent_okI)
    show "sharers (drop_sharer k e) = holders N (S(c := StI)) a p" unfolding h by (simp add: drop_sharer_def E(1))
    show card: "numSharers (drop_sharer k e) = card (holders N (S(c := StI)) a p)" unfolding h using e(2) E(1,2) by (simp add: drop_sharer_def)
    show "card (holders N (S(c := StI)) a p) \<le> 1" if "exclusive (drop_sharer k e)"
      using that E(3) card_mono [of "holders N S a p" "holders N S a p - {k}"] unfolding h by (auto simp: drop_sharer_def)
    fix k' assume "k' \<in> holders N (S(c := StI)) a p"
    then have k': "k' \<in> holders N S a p" "k' \<noteq> k" unfolding h by simp_all
    then have "k' \<in> sharers e" "k' < length (kids N p)" using E(1) by auto
    then show "(S(c := StI)) p \<noteq> StI \<and> (exclusive (drop_sharer k e) \<longleftrightarrow> excl ((S(c := StI)) (kids N p ! k'))) \<and>
      (excl ((S(c := StI)) (kids N p ! k')) \<longrightarrow> excl ((S(c := StI)) p))" using E(4-6) k'(2) H(2,3) by (simp add: drop_sharer_def)
  qed
qed

text \<open>The only copy.\<close>

lemma ent_only:
  assumes N: "net_ok n N" and p: "p < n" and c: "c < n" "home N a c = Some (CacheObj p)" and k: "k = selfId (fst (N c))"
    and none: "holders N (S(c := StI)) a p = {}" and e: "sharers e = {k}" "numSharers e = 1" "exclusive e" and s: "excl (S p)" "excl s'"
  shows "ent_ok N (S(c := s')) e a p"
proof -
  note H = holders_child [OF N p c k]
  have "s' \<noteq> StI" "S p \<noteq> StI" using s by (auto simp: excl_def)
  then have h: "holders N (S(c := s')) a p = {k}" using none H(1) [of S StI] H(1) [of S s'] by auto
  have "k < length (kids N p)" using home_kid(2) [OF N c(1) c(2)] k by simp
  then show ?thesis using h e s \<open>S p \<noteq> StI\<close> H(2,3) by (intro ent_okI) simp_all
qed

lemma ent_share:
  assumes N: "net_ok n N" and p: "p < n" and c: "c < n" "home N a c = Some (CacheObj p)" and k: "k = selfId (fst (N c))"
    and e: "ent_ok N S e a p" "k \<notin> sharers e" "\<not> e_isExclusive e" and s: "S p \<noteq> StI"
  shows "ent_ok N (S(c := StS)) ((add_sharer k e)\<lparr>exclusive := False\<rparr>) a p"
proof -
  note H = holders_child [OF N p c k] and E = ent_okD [OF e(1)]
  have h: "holders N (S(c := StS)) a p = insert k (holders N S a p)" by (simp add: H(1))
  show ?thesis
  proof (rule ent_okI)
    show "sharers ((add_sharer k e)\<lparr>exclusive := False\<rparr>) = holders N (S(c := StS)) a p" unfolding h by (simp add: add_sharer_def E(1))
    show "numSharers ((add_sharer k e)\<lparr>exclusive := False\<rparr>) = card (holders N (S(c := StS)) a p)"
      unfolding h using e(2) E(1,2) by (simp add: add_sharer_def)
    fix k' assume k': "k' \<in> holders N (S(c := StS)) a p"
    then have len: "k' < length (kids N p)" by simp
    have "\<not> excl ((S(c := StS)) (kids N p ! k'))"
    proof (cases "k' = k")
      case False
      then have m: "k' \<in> holders N S a p" using k' unfolding h by simp
      then have "\<not> exclusive e" using e(3) E(2) card_one [OF finite_holders m E(3)] by (auto simp: e_isExclusive_def)
      then show ?thesis using E(5) [of k'] m E(1) H(2) [OF len] False by simp
    qed (use H(2) [OF len] in \<open>simp add: excl_def\<close>)
    then show "(S(c := StS)) p \<noteq> StI \<and> (exclusive ((add_sharer k e)\<lparr>exclusive := False\<rparr>) \<longleftrightarrow> excl ((S(c := StS)) (kids N p ! k'))) \<and>
      (excl ((S(c := StS)) (kids N p ! k')) \<longrightarrow> excl ((S(c := StS)) p))" using s H(3) by simp
  qed simp
qed

section \<open>Granting\<close>

text \<open>Cache \<open>c\<close>, whose line \<open>j\<close> holds address \<open>a\<close>, is child \<open>k\<close> of cache \<open>p\<close>, whose line \<open>i\<close> holds it.\<close>

definition linked :: "'m world \<Rightarrow> nat \<Rightarrow> nat \<Rightarrow> nat \<Rightarrow> nat \<Rightarrow> nat \<Rightarrow> address \<Rightarrow> bool" where
  "linked w p i c j k a \<longleftrightarrow> at_line w p a i \<and> at_line w c a j \<and> home (links w) a c = Some (CacheObj p) \<and> k = selfId (fst (links w c))"

lemma linkedD:
  assumes "linked w p i c j k a" "caches_ok w"
  shows "at_line w p a i" "at_line w c a j" "home (links w) a c = Some (CacheObj p)" "k = selfId (fst (links w c))" "p < numCaches w" "c < numCaches w"
    "a \<noteq> 0" "p < c" "k < length (kids (links w) p)" "kids (links w) p ! k = c" "\<exists>t. tcc (caches w p) = Some t" "entry_at p i w = Some (dir w p a)"
proof -
  show l: "at_line w p a i" "at_line w c a j" "home (links w) a c = Some (CacheObj p)" "k = selfId (fst (links w c))" using assms(1) by (simp_all add: linked_def)
  then show n: "p < numCaches w" "c < numCaches w" "a \<noteq> 0" by (simp_all add: at_line_def)
  have N: "net_ok (numCaches w) (links w)" using assms(2) by (simp add: caches_ok_def)
  show "p < c" and k: "k < length (kids (links w) p)" and "kids (links w) p ! k = c" using home_kid [OF N n(2) l(3)] l(4) by simp_all
  show t: "\<exists>t. tcc (caches w p) = Some t" using k by (cases "tcc (caches w p)") (auto simp: kids_def links_def)
  then show "entry_at p i w = Some (dir w p a)" using at_lineD(5) [OF assms(2) l(1)] by auto
qed

lemma linked_quiet: "quiet w w' \<Longrightarrow> linked w' p i c j k a = linked w p i c j k a"
  using at_line_quiet [of w w'] by (simp add: linked_def quiet_def)

lemma grant_cell:
  assumes but: "agree_but w a p" and l: "linked w p i c j k a" and s: "st w p a \<noteq> StI" "s' = StI \<Longrightarrow> vacant (dir w c a)"
    and own: "excl s' \<or> sharers (dir w c a) = {}" and par: "ent_ok (links w) ((\<lambda>d. st w d a)(c := s')) e' a p"
  shows "coherent (set_line c j s' (set_entry p i e' w))" "quiet w (set_line c j s' (set_entry p i e' w))"
    "x \<noteq> 0 \<Longrightarrow> st (set_line c j s' (set_entry p i e' w)) d x = (if d = c \<and> x = a then s' else st w d x)"
proof -
  let ?w1 = "set_entry p i e' w"
  let ?w2 = "set_line c j s' ?w1"
  have ok: "caches_ok w" using but by (simp add: agree_but_def)
  note L = linkedD [OF l ok]
  obtain t where t: "tcc (caches w p) = Some t" using L(11) by auto
  have ok1: "caches_ok ?w1" by (rule set_entry_ok [OF ok L(1)]) (use s(1) in simp)
  have q1: "quiet w ?w1" by simp
  have al: "at_line ?w1 c a j" using L(2) at_line_quiet [OF q1] by simp
  have d1: "dir ?w1 d x = (if d = p \<and> x = a then e' else dir w d x)" if "x \<noteq> 0" for d x by (rule dir_set_entry [OF ok L(1) t that])
  have ok2: "caches_ok ?w2" by (rule set_line_ok [OF ok1 al]) (use s(2) d1 [OF L(7)] L(8) in simp)
  show q2: "quiet w ?w2" by (rule quiet_trans [OF q1]) simp
  have st2: "st ?w2 d x = (if d = c \<and> x = a then s' else st w d x)" if "x \<noteq> 0" for d x using st_set_line [OF ok1 al that] by simp
  then show "x \<noteq> 0 \<Longrightarrow> st ?w2 d x = (if d = c \<and> x = a then s' else st w d x)" by simp
  show "coherent ?w2"
  proof (rule coherent_cell [OF _ ok2 _ _ L(6,7), where s' = s'])
    show "net_ok (numCaches w) (links w)" using ok by (simp add: caches_ok_def)
    show "links ?w2 = links w" "numCaches ?w2 = numCaches w" using q2 by (simp_all add: quiet_def)
    show "agrees w x q" if "q < numCaches w" "x \<noteq> 0" "\<not> (x = a \<and> home (links w) a c = Some (CacheObj q))" for q x
      using but that L(3) by (auto simp: agree_but_def)
    show "ent_ok (links w) ((\<lambda>d. st w d a)(c := s')) (dir ?w2 p' a) a p'" if "home (links w) a c = Some (CacheObj p')" for p'
      using par d1 [OF L(7)] that L(3) by simp
  qed (use st2 d1 L(3) own in auto)
qed

definition granted :: "AccessType \<Rightarrow> nat \<Rightarrow> nat \<Rightarrow> address \<Rightarrow> cyc \<Rightarrow> 'm world \<Rightarrow> cyc \<times> bool \<times> 'm world \<Rightarrow> bool" where
  "granted ty p c a cyc w = (\<lambda>(resp, wb, w'). cyc \<le> resp \<and> coherent w' \<and> quiet w w' \<and> grant ty (st w' c a) \<and> st w' p a = st w p a \<and>
     (wb \<longrightarrow> excl (st w p a)) \<and> (\<forall>d x. d < numCaches w \<longrightarrow> x \<noteq> 0 \<longrightarrow> (d, x) \<noteq> (c, a) \<longrightarrow> lower (st w d x) (st w' d x)))"

lemma grantedI:
  assumes but: "agree_but w1 a p" and l: "linked w1 p i c j k a" and s: "st w1 p a \<noteq> StI" "s' = StI \<Longrightarrow> vacant (dir w1 c a)"
    and own: "excl s' \<or> sharers (dir w1 c a) = {}" and par: "ent_ok (links w1) ((\<lambda>d. st w1 d a)(c := s')) e' a p" and g: "grant ty s'"
    and w: "quiet w w1" "st w1 p a = st w p a" "\<And>d x. d < numCaches w \<Longrightarrow> x \<noteq> 0 \<Longrightarrow> lower (st w d x) (st w1 d x)" "cyc \<le> resp" "wb \<Longrightarrow> excl (st w p a)"
  shows "granted ty p c a cyc w (resp, wb, set_line c j s' (set_entry p i e' w1))"
proof -
  have ok: "caches_ok w1" using but by (simp add: agree_but_def)
  note L = linkedD [OF l ok] and G = grant_cell [OF but l s own par]
  show ?thesis using G g w quiet_trans [OF w(1) G(2)] L(7,8) by (auto simp: granted_def)
qed

lemma tcc_put_ok:
  assumes co: "coherent w" and l: "linked w p i c j k a" and ty: "IsPut ty" "may_ask ty (st w c a) (dir w c a)" "flags AND PUTX_KEEPEXCL = 0"
  shows "ok (tcc_put p i ty k (Cell c j) flags w) (\<lambda>w'. granted ty p c a cyc w (cyc, False, w'))"
proof -
  note C = coherentD [OF co] and L = linkedD [OF l coherentD(1) [OF co]]
  have e: "agrees w a p" by (rule C(4) [OF L(5,7)])
  note E = ent_okD [OF e]
  have s: "st w c a \<noteq> StI" "vacant (dir w c a)" "ty = PUTX \<Longrightarrow> excl (st w c a)" using ty by (auto simp: IsPut_def excl_def)
  have k: "k \<in> holders (links w) (\<lambda>d. st w d a) a p" using s(1) L by simp
  then have ks: "k \<in> sharers (dir w p a)" using E(1) by simp
  have ex: "e_isExclusive (dir w p a)" if "ty = PUTX"
    using s(3) [OF that] E(5) [OF ks] L(10) E(2) card_one [OF finite_holders k E(3)] by (simp add: e_isExclusive_def)
  have "granted ty p c a cyc w (cyc, False, set_line c j StI (set_entry p i (drop_sharer k (dir w p a)) w))"
    by (rule grantedI [OF coherent_agree_but [OF co] l])
      (use E(4) [OF ks] s(2) ent_drop [OF C(2) L(5,6,3,4) e ks] ty(1) in \<open>auto simp: vacant_def IsPut_def\<close>)
  then show ?thesis using L(12) ks ex ty(3) by (auto simp: tcc_put_def remove_child_def)
qed

lemma tcc_gets_ok:
  assumes co: "coherent w" and l: "linked w p i c j k a" and inval: "inv_ok m inval" "numCaches w \<le> Suc (p + m)"
    and s: "st w c a = StI" "st w p a \<noteq> StI"
  shows "ok (tcc_gets inval p a i k (st w p a = StE \<or> st w p a = StM) (Cell c j) False cyc src flags w) (granted GETS p c a cyc w)"
proof -
  note C = coherentD [OF co] and L = linkedD [OF l coherentD(1) [OF co]]
  have e: "agrees w a p" by (rule C(4) [OF L(5,7)])
  note E = ent_okD [OF e]
  have own: "sharers (dir w1 c a) = {}" if "coherent w1" "numCaches w1 = numCaches w" "st w1 c a = StI" for w1 :: "'a world"
    using ent_okD(4) [OF coherentD(4) [OF that(1), of c a]] that L(6,7) by auto
  show ?thesis
  proof (cases "isEmpty (dir w p a) \<and> (st w p a = StE \<or> st w p a = StM) \<and> flags AND NOEXCL = 0")
    case True
    let ?e = "(dir w p a)\<lparr>exclusive := True, sharers := insert k (sharers (dir w p a)), numSharers := 1\<rparr>"
    have "holders (links w) (\<lambda>d. st w d a) a p = {}" using True E(2) by (simp add: isEmpty_def)
    then have "ent_ok (links w) ((\<lambda>d. st w d a)(c := StE)) ?e a p"
      using True E(1) holders_child(1) [OF C(2) L(5,6,3,4), of "\<lambda>d. st w d a" StI] by (intro ent_only [OF C(2) L(5,6,3,4)]) (auto simp: excl_def)
    then have "granted GETS p c a cyc w (cyc, False, set_line c j StE (set_entry p i ?e w))"
      by (intro grantedI [OF coherent_agree_but [OF co] l]) (use s in \<open>auto simp: excl_def\<close>)
    then show ?thesis using True L(12) by (simp add: tcc_gets_def)
  next
    case False
    have k: "k \<notin> sharers (dir w p a)" using E(1) s(1) L(10) by simp
    obtain t where t: "tcc (caches w p) = Some t" using L(11) by auto
    have "ok (tcc_processInval inval p a i INVX False cyc src w) (lowered w p a INVX False cyc)"
      using lower_children [OF inval(1) C(1) inval(2) L(1), of INVX cyc False src] C(4) [OF _ L(7)] t by (simp add: subtree_def)
    then have "ok (do { (resp, wb, w) \<leftarrow> tcc_processInval inval p a i INVX False cyc src w;
        e \<leftarrow> entry_at p i w;
        assert_that (\<not> e_isExclusive e);
        Some (resp, wb, write_ptr (Cell c j) StS (set_entry p i ((add_sharer k e)\<lparr>exclusive := False\<rparr>) w)) }) (granted GETS p c a cyc w)"
    proof (rule ok_bind)
      fix y assume y: "lowered w p a INVX False cyc y"
      obtain resp wb w1 where y': "y = (resp, wb, w1)" by (cases y)
      note G = lowered_coherent [OF co L(1) _ y [unfolded y'], simplified]
      have l1: "linked w1 p i c j k a" using linked_quiet [OF G(2)] l by simp
      note L1 = linkedD [OF l1 coherentD(1) [OF G(1)]]
      have n1: "numCaches w1 = numCaches w" using G(2) by (simp add: quiet_def)
      have s1: "st w1 c a = StI" by (rule G(9) [OF L(6) _ s(1)]) (use L(7) in simp)
      have e1: "agrees w1 a p" by (rule coherentD(4) [OF G(1) L1(5,7)])
      have k1: "k \<notin> sharers (dir w1 p a)" using ent_okD(1) [OF e1] s1 L1(10) by simp
      have par: "ent_ok (links w1) ((\<lambda>d. st w1 d a)(c := StS)) ((add_sharer k (dir w1 p a))\<lparr>exclusive := False\<rparr>) a p"
        by (rule ent_share [OF coherentD(2) [OF G(1)] L1(5,6,3,4) e1 k1 G(8)]) (use G(3) s(2) in simp)
      have "granted GETS p c a cyc w (resp, wb, set_line c j StS (set_entry p i ((add_sharer k (dir w1 p a))\<lparr>exclusive := False\<rparr>) w1))"
        by (rule grantedI [OF coherent_agree_but [OF G(1)] l1 _ _ _ par _ G(2,3)])
          (use s(2) G(3,5,6) own [OF G(1) n1 s1] evolvesD(6) [OF G(4) [of 0 0 "{}"]] in auto)
      then show "ok (case y of (resp, wb, w) \<Rightarrow> do { e \<leftarrow> entry_at p i w; assert_that (\<not> e_isExclusive e);
          Some (resp, wb, write_ptr (Cell c j) StS (set_entry p i ((add_sharer k e)\<lparr>exclusive := False\<rparr>) w)) }) (granted GETS p c a cyc w)"
        using y' L1(12) G(8) by simp
    qed
    moreover have "(if e_isExclusive (dir w p a) then sendInvalidates inval p a i INVX False cyc src w else Some (cyc, False, w)) =
      tcc_processInval inval p a i INVX False cyc src w"
      using t L(12) by (simp add: tcc_processInval_def sendInvalidates_def)
    ultimately show ?thesis using False L(12) k by (auto simp: tcc_gets_def)
  qed
qed

text \<open>For an upgrade, the child is taken out of the sharers before the others are invalidated.\<close>

lemma drop_self:
  assumes co: "coherent w" and l: "linked w p i c j k a" and s: "st w p a \<noteq> StI" "\<not> excl (st w c a)"
    and w0: "w0 = (if k \<in> sharers (dir w p a) then set_entry p i (drop_sharer k (dir w p a)) w else w)"
  shows "agree_but w0 a p" "quiet w w0" "st w0 = st w" "sharers (dir w0 p a) = holders (links w) (\<lambda>d. st w d a) a p - {k}"
    "numSharers (dir w0 p a) = card (sharers (dir w0 p a))" "k \<in> sharers (dir w p a) \<Longrightarrow> \<not> e_isExclusive (dir w p a)"
proof -
  note C = coherentD [OF co] and L = linkedD [OF l coherentD(1) [OF co]]
  note E = ent_okD [OF C(4) [OF L(5,7)]]
  obtain t where t: "tcc (caches w p) = Some t" using L(11) by auto
  show q: "quiet w w0" "st w0 = st w" using w0 by simp_all
  have ok: "caches_ok w0" using set_entry_ok [OF C(1) L(1), of "drop_sharer k (dir w p a)"] C(1) s(1) w0 by simp
  have d: "dir w0 d x = dir w d x" if "x \<noteq> 0" "\<not> (x = a \<and> d = p)" for d x using dir_set_entry [OF C(1) L(1) t that(1)] that(2) w0 by auto
  have dp: "dir w0 p a = (if k \<in> sharers (dir w p a) then drop_sharer k (dir w p a) else dir w p a)"
    using dir_set_entry [OF C(1) L(1) t L(7), of "drop_sharer k (dir w p a)" p] w0 by simp
  show "agree_but w0 a p" using ok C(4) d q by (simp add: agree_but_def quiet_def)
  show sh: "sharers (dir w0 p a) = holders (links w) (\<lambda>d. st w d a) a p - {k}" using dp E(1) by (auto simp: drop_sharer_def)
  show "numSharers (dir w0 p a) = card (sharers (dir w0 p a))" unfolding sh using dp E(1,2) by (auto simp: drop_sharer_def)
  show "\<not> e_isExclusive (dir w p a)" if "k \<in> sharers (dir w p a)" using E(5) [OF that] s(2) L(10) by (simp add: e_isExclusive_def)
qed

lemma tcc_getx_ok:
  assumes co: "coherent w" and l: "linked w p i c j k a" and inval: "inv_ok m inval" "numCaches w \<le> Suc (p + m)"
    and s: "\<not> excl (st w c a)" "st w p a = StM"
  shows "ok (tcc_getx inval p a i k (st w p a = StE \<or> st w p a = StM) (Cell c j) False cyc src w) (granted GETX p c a cyc w)"
proof -
  define w0 where "w0 = (if k \<in> sharers (dir w p a) then set_entry p i (drop_sharer k (dir w p a)) w else w)"
  have sp: "st w p a \<noteq> StI" using s(2) by simp
  note D = drop_self [OF co l sp s(1) w0_def] and L = linkedD [OF l coherentD(1) [OF co]]
  define S where "S = sharers (dir w0 p a)"
  have L0: "links w0 = links w" "numCaches w0 = numCaches w" and ok0: "caches_ok w0" using D(1,2) by (simp_all add: quiet_def agree_but_def)
  have l0: "linked w0 p i c j k a" using linked_quiet [OF D(2)] l by simp
  note M = linkedD [OF l0 ok0]
  obtain t where t: "tcc (caches w0 p) = Some t" using M(11) by auto
  have sS: "sendable w0 p a S" using D(3,4) L0 by (auto simp: sendable_def S_def)
  have ag: "agrees w0 a q" if "q \<in> reached w0 p a S" for q
    using reached_above(1,2) [OF ok0 M(5) sS that] D(1) M(7) by (simp add: agree_but_def)
  have "ok (sendInvalidates inval p a i INV False cyc src w0) (\<lambda>(resp, wb', w'). cyc \<le> resp \<and> (wb' \<longleftrightarrow> False \<or> (\<exists>d \<in> reached w0 p a S. st w0 d a = StM)) \<and>
      effect INV a (reached w0 p a S) {p} w0 w' \<and>
      dir w' p a = (if S = {} then dir w0 p a else if INV = INV then (dir w0 p a)\<lparr>sharers := {}, numSharers := 0\<rparr> else (dir w0 p a)\<lparr>exclusive := False\<rparr>))"
    by (rule sendInvalidates_ok [OF inval(1) ok0 _ M(1) _ sS S_def _ ag _ t]) (use inval(2) L0 D(3,5) sp in \<open>simp_all add: S_def\<close>)
  then have "ok (do { (resp, wb, w) \<leftarrow> sendInvalidates inval p a i INV False cyc src w0;
      e \<leftarrow> entry_at p i w;
      let e = (add_sharer k e)\<lparr>exclusive := True\<rparr>;
      assert_that (numSharers e = 1);
      Some (resp, wb, write_ptr (Cell c j) StM (set_entry p i e w)) }) (granted GETX p c a cyc w)"
  proof (rule ok_bind)
    fix y assume y: "case y of (resp, wb', w') \<Rightarrow> cyc \<le> resp \<and> (wb' \<longleftrightarrow> False \<or> (\<exists>d \<in> reached w0 p a S. st w0 d a = StM)) \<and>
      effect INV a (reached w0 p a S) {p} w0 w' \<and>
      dir w' p a = (if S = {} then dir w0 p a else if INV = INV then (dir w0 p a)\<lparr>sharers := {}, numSharers := 0\<rparr> else (dir w0 p a)\<lparr>exclusive := False\<rparr>)"
    obtain resp wb w1 where y': "y = (resp, wb, w1)" by (cases y)
    have Y: "cyc \<le> resp" "effect INV a (reached w0 p a S) {p} w0 w1" "sharers (dir w1 p a) = {}" "numSharers (dir w1 p a) = 0"
      using y y' D(5) by (auto simp: S_def)
    note E = effectD [OF Y(2)]
    have q1: "quiet w w1" by (rule quiet_trans [OF D(2) E(1)])
    have l1: "linked w1 p i c j k a" using linked_quiet [OF q1] l by simp
    note L1 = linkedD [OF l1 E(2)]
    have L1': "links w1 = links w" using q1 by (simp add: quiet_def)
    have pR: "p \<notin> reached w0 p a S" using reached_above(1) [OF ok0 M(5) sS, of p] by auto
    have sp1: "st w1 p a = st w p a" using E(5) [OF M(5,7)] pR D(3) by simp
    have N: "net_ok (numCaches w) (links w)" by (rule coherentD(2) [OF co])
    have gone: "st w1 (kids (links w) p ! k') a = StI" if k': "k' < length (kids (links w) p)" "home (links w) a (kids (links w) p ! k') = Some (CacheObj p)" "k' \<noteq> k" for k'
    proof -
      have kn: "kids (links w) p ! k' < numCaches w" by (rule kid_less(2) [OF N L(5) k'(1)])
      show ?thesis
      proof (cases "k' \<in> S")
        case True
        have "kids (links w) p ! k' \<in> reached w0 p a S" using True kn L0 by (auto simp: reached_def subtree_def)
        then show ?thesis using E(5) [of "kids (links w) p ! k'" a] kn L0 L(7) by simp
      next
        case False
        then have "st w (kids (links w) p ! k') a = StI" using k' D(4) by (auto simp: S_def)
        then show ?thesis using E(5) [of "kids (links w) p ! k'" a] kn L0 L(7) D(3) by simp
      qed
    qed
    have none: "holders (links w1) ((\<lambda>d. st w1 d a)(c := StI)) a p = {}" using gone L(10) L1' by (auto simp: holders_def split: if_splits)
    let ?e = "(add_sharer k (dir w1 p a))\<lparr>exclusive := True\<rparr>"
    have par: "ent_ok (links w1) ((\<lambda>d. st w1 d a)(c := StM)) ?e a p"
      by (rule ent_only [OF _ L1(5,6,3,4) none]) (use E(2) Y(3,4) sp1 s(2) in \<open>auto simp: caches_ok_def add_sharer_def excl_def\<close>)
    have "granted GETX p c a cyc w (resp, wb, set_line c j StM (set_entry p i ?e w1))"
      by (rule grantedI [OF sent_but [OF D(1) M(5) sS Y(2)] l1 _ _ _ par _ q1 sp1])
        (use sp1 s(2) Y(1) evolvesD(6) [OF evolves_effect [OF Y(2), of 0 0 "{}"]] D(3) L0 in \<open>auto simp: excl_def\<close>)
    then show "ok (case y of (resp, wb, w) \<Rightarrow> do { e \<leftarrow> entry_at p i w; let e = (add_sharer k e)\<lparr>exclusive := True\<rparr>; assert_that (numSharers e = 1);
        Some (resp, wb, write_ptr (Cell c j) StM (set_entry p i e w)) }) (granted GETX p c a cyc w)"
      using y' L1(12) Y(4) by (simp add: Let_def add_sharer_def)
  qed
  moreover have "(if k \<in> sharers (dir w p a) then do { assert_that (\<not> e_isExclusive (dir w p a)); Some (set_entry p i (drop_sharer k (dir w p a)) w) } else Some w) = Some w0"
    using D(6) by (simp add: w0_def)
  ultimately show ?thesis using s(2) L(12) by (simp add: tcc_getx_def)
qed

lemma tcc_processAccess_ok:
  assumes co: "coherent w" and l: "linked w p i c j k a" and inval: "inv_ok m inval" "numCaches w \<le> Suc (p + m)"
    and ty: "may_ask ty (st w c a) (dir w c a)" "held ty (st w p a)" "IsPut ty \<Longrightarrow> flags AND PUTX_KEEPEXCL = 0"
  shows "ok (tcc_processAccess inval p a i ty k (st w p a = StE \<or> st w p a = StM) (Cell c j) False cyc src flags w) (granted ty p c a cyc w)"
proof (cases "IsPut ty")
  case True
  have "ok (do { w \<leftarrow> tcc_put p i ty k (Cell c j) flags w; Some (cyc, False, w) }) (granted ty p c a cyc w)"
    by (rule ok_bind [OF tcc_put_ok [OF co l True ty(1) ty(3) [OF True]]]) simp
  then show ?thesis using True by (auto simp: tcc_processAccess_def IsPut_def)
next
  case False
  then show ?thesis using tcc_gets_ok [OF co l inval] tcc_getx_ok [OF co l inval] ty(1,2)
    by (cases ty) (auto simp: tcc_processAccess_def IsPut_def excl_def)
qed

end
