(* ===== verification/Coh_Serve.thy ===== *)
theory Coh_Serve
  imports Coh_Grant
begin

text \<open>
  Whole accesses.  A request of a cache to its parent is served at every level of the hierarchy: it does not abort, the requester
  gets the permission it asked for, and the hierarchy stays coherent.
\<close>

lemma prefetch_cleared: "(f AND NOT PREFETCH) AND PREFETCH = 0" "f AND g = 0 \<Longrightarrow> (f AND NOT PREFETCH) AND g = 0"
proof -
  show "(f AND NOT PREFETCH) AND PREFETCH = 0" by (simp add: and.assoc)
  have "(f AND NOT PREFETCH) AND g = (f AND g) AND NOT PREFETCH" by (simp only: ac_simps)
  then show "f AND g = 0 \<Longrightarrow> (f AND NOT PREFETCH) AND g = 0" by simp
qed

lemma closed_quiet: "quiet w w' \<Longrightarrow> ca_closed (arr (caches w' d)) = ca_closed (arr (caches w d))"
  by (simp add: quiet_def same_arr_def)

lemma closed_evolves: "evolves src m X w w' \<Longrightarrow> m \<le> d \<Longrightarrow> ca_closed (arr (caches w' d)) = ca_closed (arr (caches w d))"
  using evolvesD(5) by (fastforce simp: same_arr_def)

lemma may_ask_lower:
  assumes "may_ask ty s e" "IsGet ty" "lower s s'"
  shows "may_ask ty s' e'"
  using assms by (cases ty; cases s; cases s') (auto simp: IsGet_def lower_def excl_def)

context memory_side
begin

text \<open>The write-back that a downgrade brought up.\<close>

lemma writeback_ok:
  assumes g: "good w" and al: "at_line w p a i" and wb: "wb \<Longrightarrow> excl (st w p a)"
  shows "\<exists>w'. (if wb then processWritebackOnAccess p i w else Some w) = Some w' \<and> good w' \<and> quiet w w' \<and> evolves src m X w w' \<and>
    (\<forall>d. d \<noteq> p \<longrightarrow> st w' d a = st w d a)"
proof (cases "wb \<and> st w p a = StE")
  case True
  have a0: "a \<noteq> 0" using al by (simp add: at_line_def)
  have ex: "excl (st w p a)" using True by (simp add: excl_def)
  have ls: "line_state p i w = Some (st w p a)" by (rule at_lineD(3) [OF goodD(2) [OF g] al])
  have "st (set_line p i StM w) d a = st w d a" if "d \<noteq> p" for d using st_set_line [OF goodD(2) [OF g] al a0] that by simp
  then show ?thesis using True ls silent_upgrade(1,2) [OF g al ex] by (simp add: processWritebackOnAccess_def)
next
  case False
  have "(if wb then processWritebackOnAccess p i w else Some w) = Some w"
    using False wb at_lineD(3) [OF goodD(2) [OF g] al] by (auto simp: processWritebackOnAccess_def excl_def)
  then show ?thesis using g by simp
qed

lemma put_possible:
  assumes co: "coherent w" and l: "linked w p i c j k a" and ask: "may_ask ty (st w c a) (dir w c a)"
  shows "ty = PUTS \<Longrightarrow> st w p a \<noteq> StI" "ty = PUTX \<Longrightarrow> excl (st w p a)"
proof -
  note L = linkedD [OF l coherentD(1) [OF co]]
  note E = ent_okD [OF coherentD(4) [OF co L(5,7)]]
  have k: "k \<in> sharers (dir w p a)" if "st w c a \<noteq> StI" using that L E(1) by simp
  show "st w p a \<noteq> StI" if "ty = PUTS" using that ask E(4) k by auto
  show "excl (st w p a)" if "ty = PUTX" using that ask E(6) [OF k] L(10) by (auto simp: excl_def)
qed

lemma cc_processAccess_ok:
  assumes acc: "acc_ok D m acc" "p \<le> m" "numCaches w \<le> D" and inval: "inv_ok m' inval" "numCaches w \<le> Suc (p + m')"
    and g: "good w" and l: "linked w p i c j k a" and rd: "ready src (bnd w)" and cl: "\<forall>d < c. ca_closed (arr (caches w d))"
    and ask: "may_ask ty (st w c a) (dir w c a)"
    and fl: "req_flags req AND PREFETCH = 0" "IsPut ty \<Longrightarrow> req_flags req AND PUTX_KEEPEXCL = 0"
    and req: "lineAddr req = a" "req_type req = ty" "childId req = k" "srcId req = src"
  shows "ok (cc_processAccess acc inval p (Cell c j) req (Some i) cyc w) (served ty c a cyc src w)"
proof -
  note co = goodD(1) [OF g] and ok = goodD(2) [OF g] and L = linkedD [OF l goodD(2) [OF g]] and put = put_possible [OF goodD(1) [OF g] l ask]
  define f where "f = req_flags req AND NOT PREFETCH"
  have f: "f AND PREFETCH = 0" "IsPut ty \<Longrightarrow> f AND PUTX_KEEPEXCL = 0" using prefetch_cleared fl(2) by (simp_all add: f_def)
  obtain t where t: "tcc (caches w p) = Some t" using L(11) by auto
  have rest: "ok (do { s \<leftarrow> line_state p i w1;
      (respCycle, wb, w2) \<leftarrow> tcc_processAccess inval p a i ty k (s = StE \<or> s = StM) (Cell c j) False resp1 src f w1;
      w3 \<leftarrow> (if wb then processWritebackOnAccess p i w2 else Some w2);
      Some (respCycle, w3) }) (served ty c a cyc src w)" if F: "fetched ty p a cyc src w (resp1, w1)" for resp1 w1
  proof -
    have w1: "cyc \<le> resp1" "good w1" "recorded cyc src (bnd w1)" "evolves src p {(p, a)} w w1" "\<forall>d < p. ca_closed (arr (caches w1 d))" "held ty (st w1 p a)"
      using F by (simp_all add: fetched_def)
    have e1: "evolves src c {(c, a)} w w1" by (rule evolves_mono [OF w1(4)]) (use L(8) in auto)
    have n1: "numCaches w1 = numCaches w" "links w1 = links w" using evolvesD(1,2) [OF w1(4)] by simp_all
    have l1: "linked w1 p i c j k a" using l at_line_evolves [OF w1(4)] n1 L(8) by (simp add: linked_def)
    have "lower (st w c a) (st w1 c a)" using evolvesD(6) [OF w1(4), of c a] L by simp
    moreover have "st w1 c a = st w c a \<and> dir w1 c a = dir w c a" if "IsPut ty" using F that L by (simp add: fetched_def)
    moreover have "IsGet ty \<or> IsPut ty" by (cases ty) (simp_all add: IsGet_def IsPut_def)
    ultimately have ask1: "may_ask ty (st w1 c a) (dir w1 c a)" using may_ask_lower [OF ask] ask by auto
    note L1 = linkedD [OF l1 goodD(2) [OF w1(2)]]
    have ls: "line_state p i w1 = Some (st w1 p a)" by (rule at_lineD(3) [OF goodD(2) [OF w1(2)] L1(1)])
    have "ok (do { (respCycle, wb, w2) \<leftarrow> tcc_processAccess inval p a i ty k (st w1 p a = StE \<or> st w1 p a = StM) (Cell c j) False resp1 src f w1;
      w3 \<leftarrow> (if wb then processWritebackOnAccess p i w2 else Some w2);
      Some (respCycle, w3) }) (served ty c a cyc src w)"
    proof (rule ok_bind [OF tcc_processAccess_ok [OF goodD(1) [OF w1(2)] l1 inval(1) _ ask1 w1(6) f(2)]])
      show "numCaches w1 \<le> Suc (p + m')" using inval(2) n1 by simp
      fix y assume y: "granted ty p c a resp1 w1 y"
      obtain resp2 wb w2 where y': "y = (resp2, wb, w2)" by (cases y)
      have G: "resp1 \<le> resp2" "coherent w2" "quiet w1 w2" "grant ty (st w2 c a)" "wb \<Longrightarrow> excl (st w2 p a)"
        "\<And>d x. d < numCaches w1 \<Longrightarrow> x \<noteq> 0 \<Longrightarrow> (d, x) \<noteq> (c, a) \<Longrightarrow> lower (st w1 d x) (st w2 d x)" using y y' by (simp_all add: granted_def)
      have e2: "evolves src c {(c, a)} w1 w2" by (rule evolves_quiet [OF G(3)]) (use G(6) in auto)
      have g2: "good w2" using w1(2) G(2,3) by (simp add: good_def quiet_def)
      have al2: "at_line w2 p a i" using at_line_quiet [OF G(3)] L1(1) by simp
      obtain w3 where w3: "(if wb then processWritebackOnAccess p i w2 else Some w2) = Some w3" "good w3" "quiet w2 w3" "evolves src c {(c, a)} w2 w3"
        "\<forall>d. d \<noteq> p \<longrightarrow> st w3 d a = st w2 d a" using writeback_ok [OF g2 al2 G(5), of wb src c "{(c, a)}"] by auto
      have q3: "quiet w1 w3" by (rule quiet_trans [OF G(3) w3(3)])
      have "ca_closed (arr (caches w3 d))" if "d < c" for d
        using closed_quiet [OF q3] closed_evolves [OF w1(4), of d] w1(5) cl that by (cases "d < p") simp_all
      moreover have "bnd w3 = bnd w1" using q3 by (simp add: quiet_def)
      ultimately have "served ty c a cyc src w (resp2, w3)"
        using w1(1,3) G(1,4) w3 evolves_trans [OF e1 evolves_trans [OF e2 w3(4)]] L(8) by (simp add: served_def)
      then show "ok (case y of (respCycle, wb, w2) \<Rightarrow> do { w3 \<leftarrow> (if wb then processWritebackOnAccess p i w2 else Some w2); Some (respCycle, w3) })
        (served ty c a cyc src w)" using y' w3(1) by simp
    qed
    then show ?thesis using ls by simp
  qed
  have "\<forall>d < p. ca_closed (arr (caches w d))" using cl L(8) by simp
  then have "ok (bcc_processAccess acc p a i ty cyc src f w) (fetched ty p a cyc src w)"
    by (rule bcc_processAccess_ok [OF acc g L(1) rd _ f(1) put])
  then have "ok (do { (respCycle, w1) \<leftarrow> bcc_processAccess acc p a i ty cyc src f w;
      s \<leftarrow> line_state p i w1;
      (respCycle, wb, w2) \<leftarrow> tcc_processAccess inval p a i ty k (s = StE \<or> s = StM) (Cell c j) False respCycle src f w1;
      w3 \<leftarrow> (if wb then processWritebackOnAccess p i w2 else Some w2);
      Some (respCycle, w3) }) (served ty c a cyc src w)"
    by (rule ok_bind) (use rest in auto)
  moreover have "line_state p i w = Some (st w p a)" by (rule at_lineD(3) [OF ok L(1)])
  moreover have "IsPut ty \<longrightarrow> st w p a \<noteq> StI" using put by (auto simp: IsPut_def excl_def)
  ultimately show ?thesis using t req fl(1) by (simp add: cc_processAccess_def req_is_def f_def [symmetric])
qed

section \<open>Accesses of caches\<close>

lemma evolves_bnd: "grows (bnd w) b \<Longrightarrow> (\<And>s. s \<noteq> src \<Longrightarrow> ready s (bnd w) \<Longrightarrow> ready s b) \<Longrightarrow> evolves src m X w (w\<lparr>bnd := b\<rparr>)"
  by (simp add: evolves_def)

text \<open>The part of an access between the search for the line and the answer, with the record of a write-back set aside.\<close>

lemma set_aside:
  assumes r: "recorded cyc src (bnd w)" "cyc \<le> cyc'" and tk: "take_wb src (bnd w) = (r, b)"
    and X: "ok X (\<lambda>(resp, w'). P resp w' \<and> recorded cyc' src (bnd w') \<and> evolves src m Y (w\<lparr>bnd := b\<rparr>) w')"
    and P: "\<And>resp w' b. P resp w' \<Longrightarrow> P resp (w'\<lparr>bnd := b\<rparr>)"
  shows "ok (do { (resp, w') \<leftarrow> X; b' \<leftarrow> stitch cyc src r (bnd w'); Some (resp, w'\<lparr>bnd := b'\<rparr>) })
    (\<lambda>(resp, w'). P resp w' \<and> recorded cyc src (bnd w') \<and> evolves src m Y w w')"
proof (rule ok_bind [OF X], clarify)
  fix resp w' assume p: "P resp w'" and r': "recorded cyc' src (bnd w')" and e: "evolves src m Y (w\<lparr>bnd := b\<rparr>) w'"
  note T = take_wb_ok [OF r(1) tk]
  have t: "taken cyc src (bnd w') r" using taken_grows [OF T(4)] evolvesD(3) [OF e] by simp
  have e0: "evolves src m Y w (w\<lparr>bnd := b\<rparr>)" by (rule evolves_bnd [OF T(2,3)])
  show "ok (do { b' \<leftarrow> stitch cyc src r (bnd w'); Some (resp, w'\<lparr>bnd := b'\<rparr>) }) (\<lambda>(resp, w'). P resp w' \<and> recorded cyc src (bnd w') \<and> evolves src m Y w w')"
  proof (rule ok_bind [OF stitch_ok [OF recorded_mono [OF r' r(2)] t]])
    fix b' assume b': "recorded cyc src b' \<and> grows (bnd w') b' \<and> (\<forall>s'. s' \<noteq> src \<longrightarrow> ready s' (bnd w') \<longrightarrow> ready s' b')"
    have "evolves src m Y w' (w'\<lparr>bnd := b'\<rparr>)" by (rule evolves_bnd) (use b' in auto)
    then show "ok (Some (resp, w'\<lparr>bnd := b'\<rparr>)) (\<lambda>(resp, w'). P resp w' \<and> recorded cyc src (bnd w') \<and> evolves src m Y w w')"
      using P [OF p] b' evolves_trans [OF evolves_trans [OF e0 e]] by simp
  qed
qed

lemma good_bnd [simp]: "good (w\<lparr>bnd := b\<rparr>) = good w"
  by (simp add: good_def)

text \<open>The line of the request at the parent.\<close>

definition located :: "AccessType \<Rightarrow> nat \<Rightarrow> nat \<Rightarrow> nat \<Rightarrow> nat \<Rightarrow> address \<Rightarrow> cyc \<Rightarrow> nat \<Rightarrow> 'm world \<Rightarrow> nat option \<times> 'm world \<Rightarrow> bool" where
  "located ty p c j k a cyc src w = (\<lambda>(lineId, w1). \<exists>i. lineId = Some i \<and> good w1 \<and> linked w1 p i c j k a \<and> recorded cyc src (bnd w1) \<and>
     evolves src c {(c, a)} w w1 \<and> (\<forall>d < c. ca_closed (arr (caches w1 d))) \<and> may_ask ty (st w1 c a) (dir w1 c a))"

lemma located_ok:
  assumes acc: "acc_ok D m acc" "c \<le> Suc m" "numCaches w \<le> D" and inval: "inv_ok D inval" and r: "may_request w c a j ty src flags"
    and h: "home (links w) a c = Some (CacheObj p)"
  shows "ok (cache_find acc inval p (request w c a ty cyc src flags) w) (located ty p c j (selfId (fst (links w c))) a cyc src w)"
proof -
  let ?req = "request w c a ty cyc src flags"
  have R: "good w" "at_line w c a j" "may_ask ty (st w c a) (dir w c a)" "ready src (bnd w)" "\<forall>d < c. ca_closed (arr (caches w d))"
    using r by (simp_all add: may_request_def)
  note G = goodD [OF R(1)]
  have cn: "c < numCaches w" "a \<noteq> 0" using R(2) by (simp_all add: at_line_def)
  note K = home_kid [OF G(3) cn(1) h]
  have pn: "p < numCaches w" "p \<le> m" using K(1) cn(1) acc(2) by simp_all
  have req: "lineAddr ?req = a" "req_type ?req = ty" "cycle ?req = cyc" "srcId ?req = src" by (simp_all add: request_def)
  show ?thesis
  proof (cases "IsGet ty")
    case True
    have "ok (cache_find acc inval p ?req w) (\<lambda>(lineId, w'). \<exists>i. lineId = Some i \<and> placed p a cyc src w (i, w'))"
      using cache_find_ok [OF acc(1) pn(2) acc(3) inval _ R(1) pn(1), of ?req] acc(3) cn(2) R(4,5) K(1) True by (simp add: req)
    then show ?thesis
    proof (rule ok_conseq)
      fix y assume y: "case y of (lineId, w') \<Rightarrow> \<exists>i. lineId = Some i \<and> placed p a cyc src w (i, w')"
      then obtain i w1 where y': "y = (Some i, w1)" and "placed p a cyc src w (i, w1)" by (cases y) auto
      then have w1: "good w1" "recorded cyc src (bnd w1)" "evolves src (Suc p) {} w w1" "\<forall>d \<le> p. ca_closed (arr (caches w1 d))" "at_line w1 p a i"
        by (simp_all add: placed_def)
      have e: "evolves src c {(c, a)} w w1" by (rule evolves_mono [OF w1(3)]) (use K(1) in auto)
      have "linked w1 p i c j (selfId (fst (links w c))) a" using w1(5) R(2) h at_line_evolves [OF e] evolvesD(1) [OF e] by (simp add: linked_def)
      moreover have "ca_closed (arr (caches w1 d))" if "d < c" for d
        using closed_evolves [OF w1(3), of d] w1(4) R(5) that by (cases "d \<le> p") simp_all
      moreover have "may_ask ty (st w1 c a) (dir w1 c a)" using may_ask_lower [OF R(3) True] evolvesD(6) [OF w1(3), of c a] K(1) cn by simp
      ultimately show "located ty p c j (selfId (fst (links w c))) a cyc src w y" using y' w1(1,2) e by (simp add: located_def)
    qed
  next
    case False
    then have put: "IsPut ty" by (cases ty) (simp_all add: IsGet_def IsPut_def)
    note E = ent_okD [OF coherentD(4) [OF G(1) pn(1) cn(2)]]
    have "st w c a \<noteq> StI" using R(3) put by (auto simp: IsPut_def)
    then have "selfId (fst (links w c)) \<in> sharers (dir w p a)" using E(1) K h by simp
    then have "st w p a \<noteq> StI" by (rule E(4))
    then obtain i where "ca_found (arr (caches w p)) a = Some i" by (auto simp: st_def split: option.splits)
    then have al: "at_line w p a i" using pn(1) cn(2) by (simp add: at_line_def)
    obtain w1 where w1: "cache_find acc inval p ?req w = Some (Some i, w1)" "quiet w w1" "good w1" "st w1 = st w" "dir w1 = dir w"
      using cache_find_put [OF R(1), of p ?req i acc inval] al put by (auto simp: req)
    have "evolves src c {(c, a)} w w1" by (rule evolves_quiet [OF w1(2)]) (simp add: w1(4))
    moreover have "linked w1 p i c j (selfId (fst (links w c))) a" unfolding linked_quiet [OF w1(2)] using al R(2) h by (simp add: linked_def)
    moreover have "bnd w1 = bnd w" using w1(2) by (simp add: quiet_def)
    ultimately show ?thesis using w1 R(3-5) closed_quiet [OF w1(2)] by (simp add: located_def ready_recorded)
  qed
qed

lemma access_parts:
  assumes start: "startAccess p ptr req w = Some (False, req_type req)" and find: "ok (cache_find acc inval p req w) F"
    and body: "\<And>lineId w1. F (lineId, w1) \<Longrightarrow> ok (case take_wb (srcId req) (bnd w1) of (r, b) \<Rightarrow> do {
      (resp, w') \<leftarrow> cc_processAccess acc inval p ptr req lineId (cycle req + accLat (caches w1 p)) (w1\<lparr>bnd := b\<rparr>);
      b' \<leftarrow> stitch (cycle req) (srcId req) r (bnd w'); Some (resp, w'\<lparr>bnd := b'\<rparr>) }) Q"
    and Q: "\<And>resp w'. Q (resp, w') \<Longrightarrow> cycle req \<le> resp"
  shows "ok (Cache_access acc inval p ptr req w) Q"
proof -
  have "ok (do { (lineId, w1) \<leftarrow> cache_find acc inval p req w;
      case take_wb (srcId req) (bnd w1) of (r, b) \<Rightarrow> do {
        (resp, w') \<leftarrow> cc_processAccess acc inval p ptr req lineId (cycle req + accLat (caches w1 p)) (w1\<lparr>bnd := b\<rparr>);
        b' \<leftarrow> stitch (cycle req) (srcId req) r (bnd w');
        Some (resp, w'\<lparr>bnd := b'\<rparr>) } }) Q"
    by (rule ok_bind [OF find]) (use body in auto)
  then have "ok (do { (resp, w') \<leftarrow> do { (lineId, w1) \<leftarrow> cache_find acc inval p req w;
      case take_wb (srcId req) (bnd w1) of (r, b) \<Rightarrow> do {
        (resp, w') \<leftarrow> cc_processAccess acc inval p ptr req lineId (cycle req + accLat (caches w1 p)) (w1\<lparr>bnd := b\<rparr>);
        b' \<leftarrow> stitch (cycle req) (srcId req) r (bnd w');
        Some (resp, w'\<lparr>bnd := b'\<rparr>) } }; assert_that (cycle req \<le> resp); Some (resp, w') }) Q"
    by (rule ok_bind) (use Q in auto)
  then show ?thesis using start by (simp add: Cache_access_def Let_def)
qed

lemma Cache_access_ok:
  assumes acc: "acc_ok D m acc" "c \<le> Suc m" "numCaches w \<le> D" and inval: "inv_ok D inval" and r: "may_request w c a j ty src flags"
    and h: "home (links w) a c = Some (CacheObj p)"
  shows "ok (Cache_access acc inval p (Cell c j) (request w c a ty cyc src flags) w) (served ty c a cyc src w)"
proof -
  let ?req = "request w c a ty cyc src flags"
  have R: "good w" "at_line w c a j" "flags AND PREFETCH = 0" "IsPut ty \<Longrightarrow> flags AND PUTX_KEEPEXCL = 0" using r by (simp_all add: may_request_def)
  note G = goodD [OF R(1)]
  have cn: "c < numCaches w" using R(2) by (simp add: at_line_def)
  note K = home_kid [OF G(3) cn h]
  have tc: "tcc (caches w p) \<noteq> None" using K(2) by (auto simp: kids_def links_def split: option.splits)
  have ls: "line_state c j w = Some (st w c a)" by (rule at_lineD(3) [OF G(2) R(2)])
  have start: "startAccess p (Cell c j) ?req w = Some (False, req_type ?req)" using tc ls by (auto simp: startAccess_def CheckForMESIRace_def request_def)
  let ?P = "\<lambda>resp w'. cyc \<le> resp \<and> good w' \<and> (\<forall>d < c. ca_closed (arr (caches w' d))) \<and> grant ty (st w' c a)"
  have body: "ok (case take_wb src (bnd w1) of (r, b) \<Rightarrow> do {
      (resp, w') \<leftarrow> cc_processAccess acc inval p (Cell c j) ?req (Some i) (cyc + accLat (caches w1 p)) (w1\<lparr>bnd := b\<rparr>);
      b' \<leftarrow> stitch cyc src r (bnd w'); Some (resp, w'\<lparr>bnd := b'\<rparr>) }) (served ty c a cyc src w)"
    if loc: "located ty p c j (selfId (fst (links w c))) a cyc src w (Some i, w1)" for i w1
  proof -
    obtain r b where tk: "take_wb src (bnd w1) = (r, b)" by (cases "take_wb src (bnd w1)")
    have w1: "good w1" "linked w1 p i c j (selfId (fst (links w c))) a" "recorded cyc src (bnd w1)" "evolves src c {(c, a)} w w1"
      "\<forall>d < c. ca_closed (arr (caches w1 d))" "may_ask ty (st w1 c a) (dir w1 c a)" using loc by (simp_all add: located_def)
    have rd: "ready src b" by (rule take_wb_ok(1) [OF w1(3) tk])
    have n1: "numCaches w1 = numCaches w" by (rule evolvesD(2) [OF w1(4)])
    let ?cyc = "cyc + accLat (caches w1 p)"
    have "ok (cc_processAccess acc inval p (Cell c j) ?req (Some i) ?cyc (w1\<lparr>bnd := b\<rparr>)) (served ty c a ?cyc src (w1\<lparr>bnd := b\<rparr>))"
      by (rule cc_processAccess_ok [OF acc(1) _ _ inval]) (use K(1) acc(2,3) n1 w1 rd R(3,4) in \<open>simp_all add: request_def linked_def\<close>)
    then have "ok (cc_processAccess acc inval p (Cell c j) ?req (Some i) ?cyc (w1\<lparr>bnd := b\<rparr>))
      (\<lambda>(resp, w'). ?P resp w' \<and> recorded ?cyc src (bnd w') \<and> evolves src c {(c, a)} (w1\<lparr>bnd := b\<rparr>) w')"
      by (rule ok_conseq) (auto simp: served_def)
    from set_aside [where P = ?P, OF w1(3) _ tk this]
    have "ok (do { (resp, w') \<leftarrow> cc_processAccess acc inval p (Cell c j) ?req (Some i) ?cyc (w1\<lparr>bnd := b\<rparr>); b' \<leftarrow> stitch cyc src r (bnd w'); Some (resp, w'\<lparr>bnd := b'\<rparr>) })
      (\<lambda>(resp, w'). ?P resp w' \<and> recorded cyc src (bnd w') \<and> evolves src c {(c, a)} w1 w')" by simp
    then show ?thesis unfolding tk prod.case
      by (rule ok_conseq) (use evolves_trans [OF w1(4)] in \<open>auto simp: served_def\<close>)
  qed
  show ?thesis
    by (rule access_parts [OF start located_ok [OF acc inval r h]]) (use body in \<open>auto simp: request_def located_def served_def\<close>)
qed

lemma access_ok: "acc_ok D n (access mem_acc D n)"
proof (induction n)
  case 0
  show ?case unfolding acc_ok_def
  proof (intro allI impI)
    fix w c i a ty obj cyc src flags
    assume c: "c \<le> 0" and r: "may_request w c a i ty src flags" and h: "home (links w) a c = Some obj"
    have g: "good w" "c < numCaches w" using r by (simp_all add: may_request_def at_line_def)
    show "ok (access mem_acc D 0 obj (Cell c i) (request w c a ty cyc src flags) w) (served ty c a cyc src w)"
      using memory_request [OF r] h home_kid(1) [OF goodD(3) [OF g(1)] g(2)] c by (cases obj) auto
  qed
next
  case (Suc n)
  show ?case unfolding acc_ok_def
  proof (intro allI impI)
    fix w c i a ty obj cyc src flags
    assume c: "c \<le> Suc n" "numCaches w \<le> D" and r: "may_request w c a i ty src flags" and h: "home (links w) a c = Some obj"
    show "ok (access mem_acc D (Suc n) obj (Cell c i) (request w c a ty cyc src flags) w) (served ty c a cyc src w)"
      using memory_request [OF r] Cache_access_ok [OF Suc c invalidate_ok r] h by (cases obj) auto
  qed
qed

end

section \<open>Races\<close>

text \<open>
  C8. The race check resolves every race that an intervening invalidation can cause.  A request that was permitted in state
  \<open>s\<close> finds its line in state \<open>s'\<close>, which an invalidation or a downgrade may have lowered: the check does not panic, a write-back is
  skipped exactly if its line is gone, and otherwise the request, which may have turned from a dirty into a clean write-back, is one
  that state \<open>s'\<close> permits.
\<close>

theorem race_resolved:
  assumes "may_ask ty s e" "s' = s \<or> s' = down INV s \<or> excl s \<and> s' = down INVX s"
  shows "\<exists>skip ty'. CheckForMESIRace ty s' s = Some (skip, ty') \<and> (skip \<longleftrightarrow> IsPut ty \<and> s' = StI) \<and>
    (\<not> skip \<longrightarrow> may_ask ty' s' e \<and> IsPut ty' = IsPut ty)"
  using assms by (cases ty; cases s) (auto simp: CheckForMESIRace_def IsPut_def excl_def)

theorem race_resolved_witness:
  "\<exists>skip ty'. CheckForMESIRace PUTX StS StM = Some (skip, ty') \<and> \<not> skip \<and> may_ask ty' StS Entry_clear \<and> IsPut ty'"
  using race_resolved [of PUTX StM Entry_clear StS] by (auto simp: excl_def IsPut_def)

end
