(* ===== verification/Coh_Run.thy ===== *)
theory Coh_Run
  imports Coh_Serve Mc_Run
begin

text \<open>
  The whole hierarchy: cores on top of their first-level caches, caches, and memory controllers with their memories.  Any sequence of
  accesses of the cores is served, and the caches stay coherent all the time.
\<close>

section \<open>Accesses of cores\<close>

context memory_side
begin

text \<open>Nothing is under way.\<close>

definition idle :: "'m world \<Rightarrow> bool" where
  "idle w \<longleftrightarrow> good w \<and> (\<forall>d < numCaches w. ca_closed (arr (caches w d))) \<and> (\<forall>s. ready s (bnd w))"

definition core_done :: "AccessType \<Rightarrow> nat \<Rightarrow> address \<Rightarrow> cyc \<Rightarrow> nat \<Rightarrow> 'm world \<Rightarrow> cyc \<times> 'm world \<Rightarrow> bool" where
  "core_done ty p a cyc src w = (\<lambda>(resp, w'). cyc \<le> resp \<and> good w' \<and> (\<forall>d < numCaches w. ca_closed (arr (caches w' d))) \<and>
     recorded cyc src (bnd w') \<and> evolves src (Suc p) {} w w' \<and> held ty (st w' p a))"

lemma terminal_access_ok:
  assumes acc: "acc_ok D m acc" "p \<le> m" "numCaches w \<le> D" and inval: "inv_ok D inval" and i: "idle w" and p: "p < numCaches w" "tcc (caches w p) = None"
    and req: "lineAddr req \<noteq> 0" "IsGet (req_type req)" "initialState req = StI" "req_flags req AND PREFETCH = 0"
  shows "ok (Cache_access acc inval p (Local StI) req w) (core_done (req_type req) p (lineAddr req) (cycle req) (srcId req) w)"
proof -
  define a ty cyc src where "a = lineAddr req" and "ty = req_type req" and "cyc = cycle req" and "src = srcId req"
  note ds = a_def [symmetric] ty_def [symmetric] cyc_def [symmetric] src_def [symmetric]
  have I: "good w" "\<forall>d < numCaches w. ca_closed (arr (caches w d))" "ready src (bnd w)" using i by (simp_all add: idle_def)
  have start: "startAccess p (Local StI) req w = Some (False, req_type req)" using p(2) req(2,3) by (simp add: startAccess_def CheckForMESIRace_def)
  have find: "ok (cache_find acc inval p req w) (\<lambda>(lineId, w'). \<exists>i. lineId = Some i \<and> placed p a cyc src w (i, w'))"
    using cache_find_ok [OF acc inval _ I(1) p(1), of req] acc(3) req(1,2) I(2,3) p(1) by (simp add: ds)
  let ?P = "\<lambda>resp w'. cyc \<le> resp \<and> good w' \<and> (\<forall>d < numCaches w. ca_closed (arr (caches w' d))) \<and> held ty (st w' p a)"
  have body: "ok (case take_wb src (bnd w1) of (r, b) \<Rightarrow> do {
      (resp, w') \<leftarrow> cc_processAccess acc inval p (Local StI) req (Some i) (cyc + accLat (caches w1 p)) (w1\<lparr>bnd := b\<rparr>);
      b' \<leftarrow> stitch cyc src r (bnd w'); Some (resp, w'\<lparr>bnd := b'\<rparr>) }) (core_done ty p a cyc src w)"
    if pl: "placed p a cyc src w (i, w1)" for i w1
  proof -
    obtain r b where tk: "take_wb src (bnd w1) = (r, b)" by (cases "take_wb src (bnd w1)")
    have w1: "good w1" "recorded cyc src (bnd w1)" "evolves src (Suc p) {} w w1" "\<forall>d \<le> p. ca_closed (arr (caches w1 d))" "at_line w1 p a i"
      using pl by (simp_all add: placed_def)
    have rd: "ready src b" by (rule take_wb_ok(1) [OF w1(2) tk])
    have n1: "numCaches w1 = numCaches w" "links w1 = links w" using evolvesD(1,2) [OF w1(3)] by simp_all
    have t1: "tcc (caches w1 p) = None" using n1(2) p(2) by (auto simp: links_def fun_eq_iff dest: spec [of _ p])
    let ?cyc = "cyc + accLat (caches w1 p)" and ?w = "w1\<lparr>bnd := b\<rparr>"
    have "ok (bcc_processAccess acc p a i ty ?cyc src (req_flags req) ?w) (fetched ty p a ?cyc src ?w)"
      by (rule bcc_processAccess_ok [OF acc(1,2)]) (use acc(3) n1 w1 rd req(2,4) in \<open>auto simp: ty_def IsGet_def\<close>)
    then have "ok (cc_processAccess acc inval p (Local StI) req (Some i) ?cyc ?w) (fetched ty p a ?cyc src ?w)"
      using t1 by (simp add: cc_processAccess_def ds)
    then have "ok (cc_processAccess acc inval p (Local StI) req (Some i) ?cyc ?w) (\<lambda>(resp, w'). ?P resp w' \<and> recorded ?cyc src (bnd w') \<and> evolves src (Suc p) {} ?w w')"
    proof (rule ok_conseq, clarify)
      fix resp w' assume f: "fetched ty p a ?cyc src ?w (resp, w')"
      then have F: "?cyc \<le> resp" "good w'" "recorded ?cyc src (bnd w')" "evolves src p {(p, a)} ?w w'" "\<forall>d < p. ca_closed (arr (caches w' d))" "held ty (st w' p a)"
        by (simp_all add: fetched_def)
      have e: "evolves src (Suc p) {} ?w w'" by (rule evolves_mono [OF F(4)]) auto
      have "ca_closed (arr (caches w' d))" if d: "d < numCaches w" for d
      proof (cases "d < p")
        case False
        then have "ca_closed (arr (caches w' d)) = ca_closed (arr (caches w1 d))" using closed_evolves [OF F(4), of d] by simp
        also have "\<dots>" using w1(4) I(2) d closed_evolves [OF w1(3), of d] by (cases "d = p") (use False in auto)
        finally show ?thesis .
      qed (use F(5) in simp)
      then show "?P resp w' \<and> recorded ?cyc src (bnd w') \<and> evolves src (Suc p) {} ?w w'" using F e by simp
    qed
    from set_aside [where P = ?P, OF w1(2) _ tk this] show ?thesis unfolding tk prod.case
      by (rule ok_conseq) (use evolves_trans [OF w1(3)] in \<open>auto simp: core_done_def\<close>)
  qed
  show ?thesis
    by (rule access_parts [OF start find]) (use body in \<open>auto simp: ds core_done_def\<close>)
qed

lemma core_access_ok:
  assumes i: "idle w" and p: "p < numCaches w" "tcc (caches w p) = None" and a: "a \<noteq> 0" and ty: "IsGet ty" and fl: "flags AND PREFETCH = 0"
  shows "ok (core_access mem_acc p a ty cyc src flags w) (core_done ty p a cyc src w)"
proof -
  obtain n where n: "numCaches w = Suc n" using p(1) by (cases "numCaches w") auto
  have pn: "p \<le> n" "numCaches w \<le> Suc n" using p(1) n by simp_all
  show ?thesis
    using terminal_access_ok [OF access_ok pn(1) pn(2) invalidate_ok i p, of "\<lparr>lineAddr = a, req_type = ty, childId = 0, req_state = StI,
      cycle = cyc, initialState = StI, srcId = src, req_flags = flags\<rparr>"] a ty fl n by (simp add: core_access_def)
qed

end

section \<open>Single writer, multiple readers\<close>

lemma fork:
  assumes "inside N a r c" "inside N a r d" "\<not> inside N a c d"
  shows "\<exists>x q. home N a x = Some (CacheObj q) \<and> inside N a x c \<and> \<not> inside N a x d \<and> inside N a q d"
  using assms(1,3)
proof (induction rule: converse_rtrancl_induct)
  case base
  then show ?case using assms(2) by simp
next
  case (step c e)
  then have h: "home N a c = Some (CacheObj e)" by (simp add: up_def)
  show ?case
  proof (cases "inside N a e d")
    case True
    then show ?thesis using h step.prems by blast
  next
    case False
    then obtain x q where "home N a x = Some (CacheObj q)" "inside N a x e" "\<not> inside N a x d" "inside N a q d" using step.IH by blast
    moreover have "inside N a x c" using \<open>inside N a x e\<close> step.hyps(1) by (rule converse_rtrancl_into_rtrancl [rotated])
    ultimately show ?thesis by blast
  qed
qed

lemma above:
  assumes co: "coherent w" and a: "a \<noteq> 0" and d: "d < numCaches w" "inside (links w) a c d"
  shows "st w d a \<noteq> StI \<Longrightarrow> st w c a \<noteq> StI" "excl (st w d a) \<Longrightarrow> excl (st w c a)"
proof -
  have N: "net_ok (numCaches w) (links w)" by (rule coherentD(2) [OF co])
  have "ent_ok (links w) (\<lambda>c. st w c a) (dir w q a) a q" if "q < numCaches w" "inside (links w) a c q" for q by (rule coherentD(4) [OF co that(1) a])
  note b = below [OF N this d(2,1)]
  show "st w d a \<noteq> StI \<Longrightarrow> st w c a \<noteq> StI" "excl (st w d a) \<Longrightarrow> excl (st w c a)" using b by blast+
qed

lemma single_writer:
  assumes co: "coherent w" and a: "a \<noteq> 0" and c: "c < numCaches w" "inside (links w) a r c" and d: "d < numCaches w" "inside (links w) a r d"
    and apart: "\<not> inside (links w) a c d" "\<not> inside (links w) a d c" and ex: "excl (st w c a)"
  shows "st w d a = StI"
proof (rule ccontr)
  assume v: "st w d a \<noteq> StI"
  have N: "net_ok (numCaches w) (links w)" by (rule coherentD(2) [OF co])
  obtain x q where x: "home (links w) a x = Some (CacheObj q)" "inside (links w) a x c" "\<not> inside (links w) a x d" "inside (links w) a q d"
    using fork [OF c(2) d(2) apart(1)] by blast
  have xn: "x < numCaches w" using under_le [OF N c(1) x(2)] c(1) by simp
  note h = home_kid [OF N xn x(1)]
  have qn: "q < numCaches w" using h(1) xn by simp
  have "d \<noteq> q" using kid_under [OF x(1) x(2)] apart(2) by auto
  then obtain k where k: "k < length (kids (links w) q)" "home (links w) a (kids (links w) q ! k) = Some (CacheObj q)" "inside (links w) a (kids (links w) q ! k) d"
    using under_via_kid [OF N d(1) x(4)] by blast
  note E = ent_okD [OF coherentD(4) [OF co qn a]]
  define k' where "k' = selfId (fst (links w x))"
  have kx: "k' < length (kids (links w) q)" "kids (links w) q ! k' = x" using h by (simp_all add: k'_def)
  have ne: "k \<noteq> k'" using k(3) x(3) kx by auto
  have exx: "excl (st w x a)" by (rule above(2) [OF co a c(1) x(2) ex])
  then have m: "k' \<in> holders (links w) (\<lambda>d. st w d a) a q" using kx x(1) by (auto simp: excl_def)
  have "k \<in> holders (links w) (\<lambda>d. st w d a) a q" using k above(1) [OF co a d(1) k(3) v] by simp
  then have "{k, k'} \<subseteq> holders (links w) (\<lambda>d. st w d a) a q" using m by blast
  then have "2 \<le> card (holders (links w) (\<lambda>d. st w d a) a q)" using card_mono [OF finite_holders, of "{k, k'}" "links w" "\<lambda>d. st w d a" a q] ne by simp
  moreover have "exclusive (dir w q a)" using E(5) [of k'] m E(1) exx kx(2) by simp
  ultimately show False using E(3) by simp
qed

section \<open>Caches that were just built\<close>

definition cold :: "Cache \<Rightarrow> bool" where
  "cold ch \<longleftrightarrow> ca_wf (arr ch) \<and> ca_closed (arr ch) \<and> b_array (bcc ch) = replicate (ca_lines (arr ch)) StI \<and>
     (\<forall>t. tcc ch = Some t \<longrightarrow> t_array t = replicate (ca_lines (arr ch)) Entry_clear)"

lemma built_cold:
  assumes "ca_wf (arr ch)" "ca_closed (arr ch)" "tcc ch = None" "n = ca_lines (arr ch)"
  shows "cold (setParents n self hack ps net ch)"
    "setChildren n hack' cs net' (setParents n self hack ps net ch) = Some ch' \<Longrightarrow> cold ch'"
proof -
  show p: "cold (setParents n self hack ps net ch)" using assms by (simp add: cold_def setParents_def bcc_init_def MESIBottomCC_new_def)
  show "cold ch'" if "setChildren n hack' cs net' (setParents n self hack ps net ch) = Some ch'"
    using that p assms(4) by (auto simp: setChildren_def tcc_init_def MESITopCC_new_def cold_def setParents_def bind_eq_Some_conv)
qed

lemma cold_coherent:
  assumes N: "net_ok (numCaches w) (links w)" and c: "\<And>c. c < numCaches w \<Longrightarrow> cold (caches w c)"
  shows "coherent w"
proof -
  have ok: "cache_ok (caches w c)" if "c < numCaches w" for c using c [OF that] by (auto simp: cold_def cache_ok_def)
  have st: "st w c a = StI" if "c < numCaches w" "a \<noteq> 0" for c a
    using c [OF that(1)] ca.found_tag [OF _ that(2), of "arr (caches w c)"] by (auto simp: cold_def st_def split: option.split)
  have "agrees w a q" if q: "q < numCaches w" "a \<noteq> 0" for q a
  proof -
    have "vacant (dir w q a)" by (rule dir_vacant [OF ok [OF q(1)] q(2) st [OF q]])
    moreover have "holders (links w) (\<lambda>c. st w c a) a q = {}" using kid_less(2) [OF N q(1)] st [OF _ q(2)] by auto
    ultimately show ?thesis by (intro ent_okI) (simp_all add: vacant_def)
  qed
  then show ?thesis using N ok by (simp add: coherent_def caches_ok_def)
qed

section \<open>The memories\<close>

text \<open>Every memory at the top of the hierarchy is a controller with the memories behind it.\<close>

definition memory_access :: "mem_system list \<Rightarrow> MemoryController list mem_call" where
  "memory_access mss i req mcs b = do {
     ms \<leftarrow> elem_at mss i;
     mc \<leftarrow> elem_at mcs i;
     (resp, s, mc, b) \<leftarrow> mc_access (mem_access ms) mc b req;
     Some (resp, s, mcs[i := mc], b) }"

definition memories_ok :: "mem_system list \<Rightarrow> MemoryController list \<Rightarrow> bool" where
  "memories_ok mss mcs \<longleftrightarrow> length mcs = length mss \<and> (\<forall>i < length mss. mc_inv (mcs ! i) \<and> memories_for (mss ! i) (cfg (mcs ! i)))"

interpretation hier: memory_side "memory_access mss" "memories_ok mss" "length mss" for mss
proof
  fix m i and req :: MemReq and b :: bound
  assume m: "memories_ok mss m" "i < length mss" and rd: "ready (srcId req) b"
  have i: "mc_inv (m ! i)" "memories_for (mss ! i) (cfg (m ! i))" "i < length m" using m by (simp_all add: memories_ok_def)
  have upd: "memories_ok mss (m[i := mc'])" if "mc_inv mc'" "cfg mc' = cfg (m ! i)" for mc'
    using m i that by (auto simp: memories_ok_def nth_list_update)
  show "\<exists>resp m' b'. memory_access mss i req m b = Some (resp, mem_grant req, m', b') \<and> cycle req \<le> resp \<and> memories_ok mss m' \<and>
      recorded (cycle req) (srcId req) b' \<and> grows b b' \<and> (\<forall>s. s \<noteq> srcId req \<longrightarrow> ready s b \<longrightarrow> ready s b')"
  proof (cases "req_type req = PUTS")
    case True
    then show ?thesis using m(2) i(3) upd [OF i(1)] rd
      by (simp add: memory_access_def mem_grant_def ready_recorded mc_access_clean)
  next
    case False
    obtain c mc' b' where r: "mc_access (mem_access (mss ! i)) (m ! i) b req = Some (c, mem_grant req, mc', b')" "cycle req \<le> c" "mc_inv mc'" "cfg mc' = cfg (m ! i)"
      "pending (cycle req) (srcId req) b'" "grows b b'" "\<forall>s. s \<noteq> srcId req \<longrightarrow> ready s b \<longrightarrow> ready s b'"
      using mc_access_drams [OF i(1,2) rd False] by blast
    show ?thesis using m(2) i(3) r upd [OF r(3,4)] pending_recorded [OF r(5)] by (simp add: memory_access_def)
  qed
qed

section \<open>The system\<close>

definition system_ok :: "mem_system list \<Rightarrow> MemoryController list world \<Rightarrow> bool" where
  "system_ok mss w \<longleftrightarrow> coherent w \<and> memories_ok mss (mem w) \<and>
     (\<forall>c < numCaches w. \<forall>m. MainMem m \<in> set (parents (fst (links w c))) \<longrightarrow> m < length mss) \<and>
     (\<forall>d < numCaches w. ca_closed (arr (caches w d))) \<and> (\<forall>s. ready s (bnd w))"

lemma system_idle: "system_ok mss w \<longleftrightarrow> hier.idle mss w"
  by (auto simp: system_ok_def hier.idle_def hier.good_def)

text \<open>A core and the access it issues to its first-level cache.\<close>

record core_req =
  cr_cache :: nat
  cr_addr :: address
  cr_type :: AccessType
  cr_cycle :: cyc
  cr_src :: nat
  cr_flags :: flags

definition issues :: "'m world \<Rightarrow> core_req \<Rightarrow> bool" where
  "issues w r \<longleftrightarrow> cr_cache r < numCaches w \<and> tcc (caches w (cr_cache r)) = None \<and> cr_addr r \<noteq> 0 \<and> IsGet (cr_type r) \<and> cr_flags r AND PREFETCH = 0"

definition core_step :: "mem_system list \<Rightarrow> core_req \<Rightarrow> MemoryController list world \<Rightarrow> MemoryController list world option" where
  "core_step mss r w = do {
     (resp, w) \<leftarrow> core_access (memory_access mss) (cr_cache r) (cr_addr r) (cr_type r) (cr_cycle r) (cr_src r) (cr_flags r) w;
     Some (w\<lparr>bnd := take_record (cr_src r) (bnd w)\<rparr>) }"

lemma take_record_recorded:
  assumes "recorded c s b"
  shows "ready s (take_record s b)"
proof -
  have "take_record s b = snd (take_wb s b)" by (simp add: take_record_def take_wb_def split: option.split)
  then show ?thesis using take_wb_ok(1) [OF assms, of "fst (take_wb s b)" "snd (take_wb s b)"] by simp
qed

lemma core_access_system:
  assumes w: "system_ok mss w" and r: "issues w r"
  shows "\<exists>resp w1. core_access (memory_access mss) (cr_cache r) (cr_addr r) (cr_type r) (cr_cycle r) (cr_src r) (cr_flags r) w = Some (resp, w1) \<and>
    cr_cycle r \<le> resp \<and> held (cr_type r) (st w1 (cr_cache r) (cr_addr r)) \<and> system_ok mss (w1\<lparr>bnd := take_record (cr_src r) (bnd w1)\<rparr>) \<and>
    links w1 = links w \<and> numCaches w1 = numCaches w"
proof -
  have i: "hier.idle mss w" using w by (simp add: system_idle)
  have "ok (core_access (memory_access mss) (cr_cache r) (cr_addr r) (cr_type r) (cr_cycle r) (cr_src r) (cr_flags r) w)
      (hier.core_done mss (cr_type r) (cr_cache r) (cr_addr r) (cr_cycle r) (cr_src r) w)"
    by (rule hier.core_access_ok [OF i]) (use r in \<open>simp_all add: issues_def\<close>)
  then obtain resp w1 where a: "core_access (memory_access mss) (cr_cache r) (cr_addr r) (cr_type r) (cr_cycle r) (cr_src r) (cr_flags r) w = Some (resp, w1)"
    "cr_cycle r \<le> resp" "hier.good mss w1" "\<forall>d < numCaches w. ca_closed (arr (caches w1 d))" "recorded (cr_cycle r) (cr_src r) (bnd w1)"
    "evolves (cr_src r) (Suc (cr_cache r)) {} w w1" "held (cr_type r) (st w1 (cr_cache r) (cr_addr r))"
    by (auto simp: ok_def hier.core_done_def)
  let ?w = "w1\<lparr>bnd := take_record (cr_src r) (bnd w1)\<rparr>"
  have "ready s (bnd ?w)" for s
    using take_record_recorded [OF a(5)] take_record_other evolvesD(4) [OF a(6), of s] i by (cases "s = cr_src r") (simp_all add: hier.idle_def)
  then have "system_ok mss ?w" using a(3,4) evolvesD(2) [OF a(6)] by (simp add: system_idle hier.idle_def)
  then show ?thesis using a(1,2,7) evolvesD(1,2) [OF a(6)] by simp
qed

lemma core_step_ok:
  assumes "system_ok mss w" "issues w r"
  shows "\<exists>w'. core_step mss r w = Some w' \<and> system_ok mss w' \<and> held (cr_type r) (st w' (cr_cache r) (cr_addr r)) \<and> links w' = links w \<and>
    numCaches w' = numCaches w"
  using core_access_system [OF assms] by (auto simp: core_step_def)

text \<open>The worlds that the cores can reach from \<open>w0\<close>, in whatever order they run.\<close>

inductive reaches :: "mem_system list \<Rightarrow> MemoryController list world \<Rightarrow> MemoryController list world \<Rightarrow> bool" for mss w0 where
  start: "reaches mss w0 w0"
| step: "reaches mss w0 w \<Longrightarrow> issues w r \<Longrightarrow> core_step mss r w = Some w' \<Longrightarrow> reaches mss w0 w'"

inductive_cases reachesE: "reaches mss w0 w"

lemma reaches_ok:
  assumes "reaches mss w0 w" "system_ok mss w0"
  shows "system_ok mss w \<and> links w = links w0 \<and> numCaches w = numCaches w0"
  using assms
proof (induction rule: reaches.induct)
  case (step w r w')
  then show ?case using core_step_ok [of mss w r] by auto
qed simp

lemma directory_typed:
  assumes co: "coherent w" and c: "c < numCaches w"
  shows "length (b_array (bcc (caches w c))) = ca_lines (arr (caches w c))"
    "tcc (caches w c) = Some t \<Longrightarrow> length (t_array t) = ca_lines (arr (caches w c))"
    "tcc (caches w c) = Some t \<Longrightarrow> e \<in> set (t_array t) \<Longrightarrow> sharers e \<subseteq> {..<length (children (t_link t))} \<and> numSharers e = card (sharers e)"
proof -
  note K = cache_okD [OF coherentD(3) [OF co c]]
  show "length (b_array (bcc (caches w c))) = ca_lines (arr (caches w c))" by (rule K(2))
  assume t: "tcc (caches w c) = Some t"
  show len: "length (t_array t) = ca_lines (arr (caches w c))" by (rule K(4) [OF t])
  assume "e \<in> set (t_array t)"
  then obtain i where i: "i < ca_lines (arr (caches w c))" "e = t_array t ! i" using len by (auto simp: in_set_conv_nth)
  show "sharers e \<subseteq> {..<length (children (t_link t))} \<and> numSharers e = card (sharers e)"
  proof (cases "b_array (bcc (caches w c)) ! i = StI")
    case True
    then show ?thesis using K(5) [OF t i(1)] i(2) by (simp add: vacant_def)
  next
    case False
    define a where "a = ca_tag (arr (caches w c)) i"
    have a: "a \<noteq> 0" "ca_found (arr (caches w c)) a = Some i" using K(3) [OF i(1) False] by (simp_all add: a_def)
    have "dir w c a = e" using t a(2) i(2) by (simp add: dir_def)
    moreover have "kids (links w) c = children (t_link t)" using t by (simp add: kids_def links_def)
    ultimately show ?thesis using ent_okD(1,2) [OF coherentD(4) [OF co c a(1)]] by auto
  qed
qed

end
