(* ===== verification/Coh_Demo.thy ===== *)
theory Coh_Demo
  imports Coh_Run
begin

text \<open>
  A concrete hierarchy: two cores with set-associative first-level caches under a shared zcache, which is attached to a Banshee
  controller.
\<close>

definition demo_llc :: "ZArray \<Rightarrow> Cache" where
  "demo_llc z = \<lparr>tcc = Some \<lparr>t_link = \<lparr>children = [1, 2], childrenRTTs = [3, 3], t_nonInclusiveHack = False\<rparr>, t_array = replicate 16 Entry_clear\<rparr>,
     bcc = bcc_init [MainMem 0] None (MESIBottomCC_new 16 0 False), arr = ZCache z, accLat = 10, invLat = 5\<rparr>"

definition demo_l1 :: "SetAssocArray \<Rightarrow> nat \<Rightarrow> Cache" where
  "demo_l1 a k = \<lparr>tcc = None, bcc = bcc_init [CacheObj 0] (Some (\<lambda>_. 3)) (MESIBottomCC_new 8 k False), arr = SetAssoc a, accLat = 4, invLat = 2\<rparr>"

definition demo_world :: "ZArray \<Rightarrow> SetAssocArray \<Rightarrow> MemoryController \<Rightarrow> MemoryController list world" where
  "demo_world z a mc = \<lparr>caches = (\<lambda>c. if c = 0 then demo_llc z else demo_l1 a (c - 1)), numCaches = 3, mem = [mc], bnd = demo_bound\<rparr>"

definition demo_start :: "MemoryController list world \<Rightarrow> bool" where
  "demo_start w \<longleftrightarrow> (\<exists>z a mc. w = demo_world z a mc \<and> ZArray_new 16 4 16 (LRURepl (LRU_new True 16)) demo_h3 = Some z \<and>
     SetAssocArray_new 8 2 (NRURepl (NRU_new 8 2)) IdHash = Some a \<and> MemoryController_new demo_config ''mem-1'' demo_raw = Some mc)"

lemma demo_links:
  "links (demo_world z a mc) 0 = (\<lparr>parents = [MainMem 0], parentRTTs = [0], selfId = 0, b_nonInclusiveHack = False\<rparr>,
     Some \<lparr>children = [1, 2], childrenRTTs = [3, 3], t_nonInclusiveHack = False\<rparr>)"
  "links (demo_world z a mc) 1 = (\<lparr>parents = [CacheObj 0], parentRTTs = [3], selfId = 0, b_nonInclusiveHack = False\<rparr>, None)"
  "links (demo_world z a mc) 2 = (\<lparr>parents = [CacheObj 0], parentRTTs = [3], selfId = 1, b_nonInclusiveHack = False\<rparr>, None)"
  by (simp_all add: links_def demo_world_def demo_llc_def demo_l1_def bcc_init_def MESIBottomCC_new_def)

lemma less_3: "c < (3 :: nat) \<longleftrightarrow> c = 0 \<or> c = 1 \<or> c = 2"
  by auto

lemma demo_net: "net_ok 3 (links (demo_world z a mc))"
proof -
  have k: "kids (links (demo_world z a mc)) 0 = [1, 2]" "kids (links (demo_world z a mc)) 1 = []" "kids (links (demo_world z a mc)) 2 = []"
    by (simp_all add: kids_def demo_links del: One_nat_def)
  have two: "j < 2 \<longleftrightarrow> j = 0 \<or> j = (1 :: nat)" for j by auto
  show ?thesis unfolding net_ok_def less_3
    by (auto simp: demo_links k two less_Suc_eq nth_Cons' simp del: One_nat_def split: if_splits)
qed

lemma demo_system:
  shows "\<exists>w. demo_start w" "demo_start w \<Longrightarrow> system_ok [demo_memories] w"
proof -
  have four: "4 AND (3 :: nat) = 0" by simp
  have z: "\<exists>z. ZArray_new 16 4 16 (LRURepl (LRU_new True 16)) demo_h3 = Some z" using four by (simp add: ZArray_new_def isPow2_def)
  have a: "\<exists>a. SetAssocArray_new 8 2 (NRURepl (NRU_new 8 2)) IdHash = Some a" using four by (simp add: SetAssocArray_new_def isPow2_def)
  show "\<exists>w. demo_start w" unfolding demo_start_def using z a demo_new by blast
  assume "demo_start w"
  then obtain z a mc where w: "w = demo_world z a mc" and za: "ZArray_new 16 4 16 (LRURepl (LRU_new True 16)) demo_h3 = Some z"
    "SetAssocArray_new 8 2 (NRURepl (NRU_new 8 2)) IdHash = Some a" and mc: "MemoryController_new demo_config ''mem-1'' demo_raw = Some mc"
    unfolding demo_start_def by blast
  have "hf_ok 4 demo_h3" "rp_wf 16 16 (LRURepl (LRU_new True 16))" "rp_closed (LRURepl (LRU_new True 16))" "\<not> rp_exact (LRURepl (LRU_new True 16))"
    by (simp_all add: hf_ok_def demo_h3_def h3_ok_def rp_wf_def lru_wf_def rp_closed_def rp_exact_def LRU_new_def)
  note Z = ZArray_new_wf [OF za(1) this]
  have "hf_ok 1 IdHash" "rp_wf 8 2 (NRURepl (NRU_new 8 2))" "rp_closed (NRURepl (NRU_new 8 2))"
    by (simp_all add: hf_ok_def rp_wf_def nru_wf_def rp_closed_def NRU_new_def)
  note A = SetAssocArray_new_wf [OF za(2) this]
  have "cold (caches w c)" if "c < 3" for c
    using Z A by (simp add: cold_def w demo_world_def demo_llc_def demo_l1_def bcc_init_def MESIBottomCC_new_def)
  then have "coherent w" by (intro cold_coherent) (use demo_net w in \<open>simp_all add: demo_world_def\<close>)
  moreover obtain mc' where "MemoryController_new demo_config ''mem-1'' demo_raw = Some mc'" "runnable mc'" "memories_for demo_memories (cfg mc')" using demo_new by blast
  then have "memories_ok [demo_memories] [mc]" using mc MemoryController_new_inv by (auto simp: memories_ok_def)
  moreover have "\<forall>c < 3. \<forall>m. MainMem m \<in> set (parents (fst (links w c))) \<longrightarrow> m < 1" unfolding less_3 by (auto simp: w demo_links simp del: One_nat_def)
  moreover have "\<forall>c < 3. ca_closed (arr (caches w c))" using Z(2) A(2) by (simp add: w demo_world_def demo_llc_def demo_l1_def)
  ultimately show "system_ok [demo_memories] w" using demo_ready by (simp add: system_ok_def) (simp add: w demo_world_def)
qed

text \<open>Both cores are below the shared cache.\<close>

lemma demo_tree:
  assumes "demo_start w"
  shows "numCaches w = 3" "inside (links w) x 0 1" "inside (links w) x 0 2" "\<not> inside (links w) x 1 2" "\<not> inside (links w) x 2 1"
    "tcc (caches w 1) = None" "tcc (caches w 2) = None"
proof -
  obtain z a mc where w: "w = demo_world z a mc" using assms unfolding demo_start_def by blast
  show "numCaches w = 3" "tcc (caches w 1) = None" "tcc (caches w 2) = None" by (simp_all add: w demo_world_def demo_l1_def)
  have h: "home (links w) x 1 = Some (CacheObj 0)" "home (links w) x 2 = Some (CacheObj 0)" by (simp_all add: w home_def demo_links getParentId_def del: One_nat_def)
  then show "inside (links w) x 0 1" "inside (links w) x 0 2" by (auto simp: up_def)
  have "\<not> inside (links w) x 1 0" "\<not> inside (links w) x 2 0" using under_le [OF demo_net, of 0] w by fastforce+
  then show "\<not> inside (links w) x 1 2" "\<not> inside (links w) x 2 1" using h under_step [of 2 1 "links w" x] under_step [of 1 2 "links w" x] by auto
qed

lemma demo_children:
  assumes "demo_start w0" "links w 0 = links w0 0"
  shows "\<exists>t. tcc (caches w 0) = Some t \<and> children (t_link t) = [1, 2]"
proof -
  obtain z a mc where w: "w0 = demo_world z a mc" using assms unfolding demo_start_def by blast
  have "map_option t_link (tcc (caches w 0)) = Some \<lparr>children = [1, 2], childrenRTTs = [3, 3], t_nonInclusiveHack = False\<rparr>"
    using assms(2) demo_links(1) [of z a mc] w by (simp add: links_def)
  then show ?thesis by auto
qed

definition demo_core :: "nat \<Rightarrow> address \<Rightarrow> AccessType \<Rightarrow> core_req" where
  "demo_core c addr ty = \<lparr>cr_cache = c, cr_addr = addr, cr_type = ty, cr_cycle = 100, cr_src = c, cr_flags = 0\<rparr>"

lemma demo_issues: "demo_start w \<Longrightarrow> c = 1 \<or> c = 2 \<Longrightarrow> addr \<noteq> 0 \<Longrightarrow> IsGet ty \<Longrightarrow> issues w (demo_core c addr ty)"
  using demo_tree by (auto simp: issues_def demo_core_def)

text \<open>Core 1 has written a line.\<close>

lemma demo_written: "\<exists>w0 w. demo_start w0 \<and> reaches [demo_memories] w0 w \<and> st w 1 77 = StM"
proof -
  obtain w0 where w0: "demo_start w0" "system_ok [demo_memories] w0" using demo_system by blast
  have i: "issues w0 (demo_core 1 77 GETX)" by (rule demo_issues [OF w0(1)]) (simp_all add: IsGet_def)
  obtain w where w: "core_step [demo_memories] (demo_core 1 77 GETX) w0 = Some w" "held GETX (st w 1 77)"
    using core_step_ok [OF w0(2) i] by (auto simp: demo_core_def)
  have "reaches [demo_memories] w0 w" by (rule reaches.step [OF reaches.start i w(1)])
  then show ?thesis using w0(1) w(2) by auto
qed

end
