(* ===== verification/Act_Window.thy ===== *)
theory Act_Window
  imports Prelude "HOL-Library.Multiset"
begin

text \<open>
  The activation window of a DRAM rank (\<open>ActWindow\<close> in \<open>src/src/ddr_mem.h\<close>): a circular buffer with
  the cycles of the last activations of the rank, oldest at \<open>idx\<close>, that the controller reads to keep
  the four-activation window \<open>tFAW\<close>.  Activations may arrive slightly out of order, so
  \<open>addActivation\<close> sorts the new one into the buffer.

  The lemmas show that the window is the sorted sequence of the last activations as long as a new
  activation is not older than all of those that stay, that it then enforces \<open>tFAW\<close>, and what the
  loop does to the window when the new activation is older than all of them.
\<close>

record ActWindow =
  aw_buf :: "cyc list"
  aw_idx :: nat

definition aw_init :: "nat \<Rightarrow> ActWindow" where
  "aw_init sz = \<lparr>aw_buf = replicate sz 0, aw_idx = 0\<rparr>"

definition aw_inc :: "cyc list \<Rightarrow> nat \<Rightarrow> nat" where
  "aw_inc buf i = (if i < length buf - 1 then i + 1 else 0)"

definition aw_dec :: "cyc list \<Rightarrow> nat \<Rightarrow> nat" where
  "aw_dec buf i = (if i \<noteq> 0 then i - 1 else length buf - 1)"

definition minActCycle :: "ActWindow \<Rightarrow> cyc" where
  "minActCycle w = aw_buf w ! aw_idx w"

text \<open>
  The loop of \<open>addActivation\<close>.  It leaves when \<open>cur\<close> is back at \<open>idx\<close>, so that it runs at most once
  per entry of the buffer; the number of entries is the fuel.
\<close>

primrec aw_shift :: "nat \<Rightarrow> nat \<Rightarrow> cyc \<Rightarrow> cyc list \<Rightarrow> nat \<Rightarrow> (cyc list \<times> nat) option" where
  "aw_shift 0 idx actCycle buf cur = None"
| "aw_shift (Suc fuel) idx actCycle buf cur =
     (if buf ! aw_dec buf cur > actCycle
      then let buf = buf[cur := buf ! aw_dec buf cur]; cur = aw_dec buf cur
           in if cur = idx then Some (buf, cur) else aw_shift fuel idx actCycle buf cur
      else Some (buf, cur))"

definition addActivation :: "cyc \<Rightarrow> ActWindow \<Rightarrow> ActWindow option" where
  "addActivation actCycle w = do {
     assert_that (aw_buf w ! aw_idx w \<le> actCycle);
     (buf, cur) \<leftarrow> aw_shift (length (aw_buf w)) (aw_idx w) actCycle (aw_buf w) (aw_idx w);
     Some \<lparr>aw_buf = buf[cur := actCycle], aw_idx = aw_inc buf (aw_idx w)\<rparr> }"

section \<open>The window as a sequence\<close>

definition aw_seq :: "ActWindow \<Rightarrow> cyc list" where
  "aw_seq w = rotate (aw_idx w) (aw_buf w)"

definition aw_wf :: "ActWindow \<Rightarrow> bool" where
  "aw_wf w \<longleftrightarrow> 2 \<le> length (aw_buf w) \<and> aw_idx w < length (aw_buf w)"

lemma aw_seq_nth: "k < length (aw_buf w) \<Longrightarrow> aw_seq w ! k = aw_buf w ! ((aw_idx w + k) mod length (aw_buf w))"
  by (simp add: aw_seq_def nth_rotate)

lemma length_aw_seq [simp]: "length (aw_seq w) = length (aw_buf w)"
  by (simp add: aw_seq_def)

lemma aw_step_update [simp]: "aw_dec (buf[i := x]) j = aw_dec buf j" "aw_inc (buf[i := x]) j = aw_inc buf j"
  by (simp_all add: aw_dec_def aw_inc_def)

lemma aw_inc_mod: "i < length buf \<Longrightarrow> aw_inc buf i = (i + 1) mod length buf"
  by (auto simp: aw_inc_def mod_if)

lemma aw_dec_mod:
  assumes "i < length buf" "0 < k" "k \<le> length buf"
  shows "aw_dec buf ((i + k) mod length buf) = (i + (k - 1)) mod length buf"
proof -
  have "(i + k) mod length buf = (if i + k < length buf then i + k else i + k - length buf)"
    using assms by (auto simp: mod_if)
  moreover have "(i + (k - 1)) mod length buf = (if i + (k - 1) < length buf then i + (k - 1) else i + (k - 1) - length buf)"
    using assms by (auto simp: mod_if)
  ultimately show ?thesis using assms by (auto simp: aw_dec_def)
qed

lemma slot_eq_iff:
  fixes i n :: nat
  assumes "i < n" "0 < k" "k \<le> n" "0 < l" "l \<le> n"
  shows "(i + k) mod n = (i + l) mod n \<longleftrightarrow> k = l"
  using assms by (auto simp: mod_if split: if_splits)

text \<open>
  The buffer after the loop has moved the entries above position \<open>p\<close> one up: \<open>shifted s p\<close> describes
  the slots \<open>1, \<dots>, n\<close> counted from \<open>idx\<close>, slot \<open>n\<close> being \<open>idx\<close> itself.
\<close>

definition shifted :: "nat \<Rightarrow> (nat \<Rightarrow> cyc) \<Rightarrow> nat \<Rightarrow> cyc list \<Rightarrow> bool" where
  "shifted i s p buf \<longleftrightarrow> (\<forall>k. 0 < k \<and> k \<le> length buf \<longrightarrow>
     buf ! ((i + k) mod length buf) = (if p < k then s (k - 1) else s k))"

lemma shifted_step:
  assumes "shifted i s p buf" "i < length buf" "1 < p" "p \<le> length buf"
  shows "shifted i s (p - 1) (buf[(i + p) mod length buf := s (p - 1)])"
  unfolding shifted_def length_list_update
proof (intro allI impI)
  fix k assume k: "0 < k \<and> k \<le> length buf"
  have "(i + k) mod length buf < length buf" using assms(2) by (cases buf) auto
  then show "buf[(i + p) mod length buf := s (p - 1)] ! ((i + k) mod length buf) = (if p - 1 < k then s (k - 1) else s k)"
    using assms(1) k slot_eq_iff [of i "length buf" p k] assms(2-4)
    by (auto simp: nth_list_update_if shifted_def split: if_splits)
qed

lemma shifted_slot:
  "shifted i s p buf \<Longrightarrow> 0 < k \<Longrightarrow> k \<le> p \<Longrightarrow> p \<le> length buf \<Longrightarrow> buf ! ((i + k) mod length buf) = s k"
  by (simp add: shifted_def)

lemma aw_shift_to:
  assumes "shifted i s p buf" "i < length buf" "0 < q" "q \<le> p" "p \<le> length buf"
    and "\<And>k. q \<le> k \<Longrightarrow> k < p \<Longrightarrow> actCycle < s k"
  shows "\<exists>buf'. aw_shift (p - q + r) i actCycle buf ((i + p) mod length buf) = aw_shift r i actCycle buf' ((i + q) mod length buf) \<and>
    shifted i s q buf' \<and> length buf' = length buf"
  using assms
proof (induction "p - q" arbitrary: p buf)
  case (Suc d)
  have d: "aw_dec buf ((i + p) mod length buf) = (i + (p - 1)) mod length buf"
    using aw_dec_mod [of i buf p] Suc by simp
  have v: "buf ! ((i + (p - 1)) mod length buf) = s (p - 1)"
    using Suc by (intro shifted_slot) auto
  let ?buf = "buf[(i + p) mod length buf := s (p - 1)]"
  have gt: "actCycle < s (p - 1)" using Suc by auto
  have ne: "(i + (p - 1)) mod length buf \<noteq> i"
  proof -
    have "0 < p - 1" "p - 1 < length buf" "0 < length buf" using Suc(2-7) by auto
    then show ?thesis using slot_eq_iff [of i "length buf" "p - 1" "length buf"] Suc(4) by simp
  qed
  have "\<exists>buf'. aw_shift (p - 1 - q + r) i actCycle ?buf ((i + (p - 1)) mod length ?buf) = aw_shift r i actCycle buf' ((i + q) mod length ?buf) \<and>
    shifted i s q buf' \<and> length buf' = length ?buf"
  proof (rule Suc.hyps)
    show "shifted i s (p - 1) ?buf" using Suc.prems Suc(2) by (intro shifted_step) auto
  qed (use Suc.prems Suc(2) in auto)
  moreover have "aw_dec ?buf ((i + p) mod length buf) = (i + (p - 1)) mod length buf"
    using d by simp
  moreover have "p - q + r = Suc (p - 1 - q + r)" using Suc(2) by simp
  ultimately show ?case using d v gt ne by (simp add: Let_def)
qed auto


text \<open>The sequence that starts at the next index reads the slots \<open>1, \<dots>, n\<close> in this order.\<close>

lemma aw_seq_next:
  assumes "length buf = n" "i < n"
  shows "aw_seq \<lparr>aw_buf = buf, aw_idx = aw_inc buf i\<rparr> = map (\<lambda>k. buf ! ((i + k) mod n)) [1..<n + 1]"
proof (rule nth_equalityI)
  show "length (aw_seq \<lparr>aw_buf = buf, aw_idx = aw_inc buf i\<rparr>) = length (map (\<lambda>k. buf ! ((i + k) mod n)) [1..<n + 1])"
    using assms by simp
  fix k assume "k < length (aw_seq \<lparr>aw_buf = buf, aw_idx = aw_inc buf i\<rparr>)"
  then have k: "k < n" using assms by simp
  then have "aw_seq \<lparr>aw_buf = buf, aw_idx = aw_inc buf i\<rparr> ! k = buf ! ((aw_inc buf i + k) mod n)"
    using assms aw_seq_nth [of k "\<lparr>aw_buf = buf, aw_idx = aw_inc buf i\<rparr>"] by simp
  also have "(aw_inc buf i + k) mod n = (i + (1 + k)) mod n"
    using assms by (simp add: aw_inc_mod mod_simps)
  also have "buf ! \<dots> = map (\<lambda>k. buf ! ((i + k) mod n)) [1..<n + 1] ! k"
    using k by (simp del: upt_Suc)
  finally show "aw_seq \<lparr>aw_buf = buf, aw_idx = aw_inc buf i\<rparr> ! k = map (\<lambda>k. buf ! ((i + k) mod n)) [1..<n + 1] ! k" .
qed

section \<open>Adding an activation\<close>

lemma addActivation_split:
  assumes wf: "aw_wf w" and q: "0 < q" "q \<le> length (aw_buf w)"
    and hd: "aw_seq w ! 0 \<le> a" and gt: "\<And>k. q \<le> k \<Longrightarrow> k < length (aw_buf w) \<Longrightarrow> a < aw_seq w ! k"
  obtains buf where "shifted (aw_idx w) (\<lambda>k. aw_seq w ! (k mod length (aw_buf w))) q buf" "length buf = length (aw_buf w)"
    "addActivation a w = do {
       (buf', cur) \<leftarrow> aw_shift q (aw_idx w) a buf ((aw_idx w + q) mod length (aw_buf w));
       Some \<lparr>aw_buf = buf'[cur := a], aw_idx = aw_inc buf' (aw_idx w)\<rparr> }"
proof -
  let ?n = "length (aw_buf w)" and ?i = "aw_idx w" and ?s = "\<lambda>k. aw_seq w ! (k mod length (aw_buf w))"
  have n: "?i < ?n" "0 < ?n" using wf by (auto simp: aw_wf_def)
  have sh: "shifted ?i ?s ?n (aw_buf w)"
    using n by (simp add: shifted_def aw_seq_nth mod_simps)
  obtain buf where "aw_shift (?n - q + q) ?i a (aw_buf w) ((?i + ?n) mod ?n) = aw_shift q ?i a buf ((?i + q) mod ?n)"
    "shifted ?i ?s q buf" "length buf = ?n"
    using aw_shift_to [OF sh n(1) q(1) q(2) order_refl, of a q] gt by auto
  moreover have "aw_buf w ! ?i \<le> a" using hd n aw_seq_nth [of 0 w] by simp
  ultimately show thesis using that n q(2) by (simp add: addActivation_def)
qed

lemma slots_pivot:
  assumes "m < n" "f (Suc m) = a" "\<And>k. 1 \<le> k \<Longrightarrow> k \<le> m \<Longrightarrow> f k = s k" "\<And>k. m < k \<Longrightarrow> k < n \<Longrightarrow> f (Suc k) = s k"
  shows "map f [1..<n + 1] = map s [1..<Suc m] @ [a] @ map s [Suc m..<n]"
proof -
  have "[1..<n + 1] = [1..<Suc m] @ [Suc m] @ map Suc [Suc m..<n]"
    using assms(1) upt_add_eq_append [of 1 "Suc m" "n - m"] by (simp add: map_Suc_upt upt_conv_Cons del: upt_Suc)
  then show ?thesis using assms by (simp del: upt_Suc)
qed

lemma tl_pivot:
  assumes "m < length xs"
  shows "tl xs = map (\<lambda>k. xs ! k) [1..<Suc m] @ map (\<lambda>k. xs ! k) [Suc m..<length xs]"
proof -
  have n: "Suc (length xs - Suc 0) = length xs" using assms by simp
  have "[0..<length xs] = 0 # [1..<Suc m] @ [Suc m..<length xs]"
    using assms upt_add_eq_append [of 0 "Suc m" "length xs - Suc m"] upt_conv_Cons [of 0 "Suc m"] n by (simp del: upt_Suc)
  then have "map (\<lambda>k. xs ! k) [0..<length xs] = xs ! 0 # map (\<lambda>k. xs ! k) ([1..<Suc m] @ [Suc m..<length xs])"
    by (simp del: upt_Suc)
  then show ?thesis by (metis list.sel(3) map_append map_nth)
qed

text \<open>The loop stops behind the last entry that is not newer, position \<open>m\<close>, when that is not the oldest one.\<close>

lemma addActivation_inserts:
  assumes wf: "aw_wf w" and hd: "aw_seq w ! 0 \<le> a" and m: "1 \<le> m" "m < length (aw_buf w)" "aw_seq w ! m \<le> a"
    and gt: "\<And>k. m < k \<Longrightarrow> k < length (aw_buf w) \<Longrightarrow> a < aw_seq w ! k"
  shows "ok (addActivation a w) (\<lambda>w'. aw_wf w' \<and> length (aw_buf w') = length (aw_buf w) \<and>
    aw_seq w' = map (\<lambda>k. aw_seq w ! k) [1..<Suc m] @ [a] @ map (\<lambda>k. aw_seq w ! k) [Suc m..<length (aw_buf w)])"
proof -
  define n i where "n = length (aw_buf w)" and "i = aw_idx w"
  have n: "2 \<le> n" "i < n" "m < n" using wf m by (auto simp: aw_wf_def n_def i_def)
  obtain buf where buf: "shifted i (\<lambda>k. aw_seq w ! (k mod n)) (Suc m) buf" "length buf = n"
    and run: "addActivation a w = do {
       (buf', cur) \<leftarrow> aw_shift (Suc m) i a buf ((i + Suc m) mod n);
       Some \<lparr>aw_buf = buf'[cur := a], aw_idx = aw_inc buf' i\<rparr> }"
    using addActivation_split [OF wf, of "Suc m" a] hd gt m by (auto simp: n_def i_def)
  have "aw_dec buf ((i + Suc m) mod n) = (i + m) mod n"
    using aw_dec_mod [of i buf "Suc m"] buf(2) n m by simp
  moreover have "buf ! ((i + m) mod n) = aw_seq w ! m"
    using shifted_slot [OF buf(1), of m] m n buf(2) by simp
  ultimately have run: "addActivation a w = Some \<lparr>aw_buf = buf[(i + Suc m) mod n := a], aw_idx = aw_inc buf i\<rparr>"
    using run m by simp
  let ?b = "buf[(i + Suc m) mod n := a]"
  have slot: "?b ! ((i + k) mod n) = (if k = Suc m then a else if Suc m < k then aw_seq w ! (k - 1) else aw_seq w ! k)"
    if "0 < k" "k \<le> n" for k
    using that buf n m slot_eq_iff [of i n "Suc m" k] by (auto simp: nth_list_update shifted_def)
  have len: "length ?b = n" using buf(2) by simp
  have "aw_seq \<lparr>aw_buf = ?b, aw_idx = aw_inc buf i\<rparr> = map (\<lambda>k. ?b ! ((i + k) mod n)) [1..<n + 1]"
    using aw_seq_next [OF len n(2)] by (simp add: aw_inc_def)
  also have "\<dots> = map (\<lambda>k. aw_seq w ! k) [1..<Suc m] @ [a] @ map (\<lambda>k. aw_seq w ! k) [Suc m..<n]"
    by (rule slots_pivot) (use n slot [of "Suc m"] slot slot [of "Suc k" for k] in simp_all)
  moreover have "aw_inc buf i < n" using n buf(2) by (auto simp: aw_inc_def)
  ultimately show ?thesis using run n len by (simp add: aw_wf_def n_def)
qed

text \<open>
  When the new activation is older than every activation that stays in the window, the loop goes once
  around the buffer and reads back the entry it wrote first.  The newest activation then stands where
  the oldest belongs, and the new one where the newest belongs.
\<close>

lemma addActivation_wraps:
  assumes wf: "aw_wf w" and hd: "aw_seq w ! 0 \<le> a" and gt: "\<And>k. 0 < k \<Longrightarrow> k < length (aw_buf w) \<Longrightarrow> a < aw_seq w ! k"
  shows "ok (addActivation a w) (\<lambda>w'. aw_wf w' \<and> length (aw_buf w') = length (aw_buf w) \<and>
    aw_seq w' = last (aw_seq w) # butlast (tl (aw_seq w)) @ [a])"
proof -
  define n i where "n = length (aw_buf w)" and "i = aw_idx w"
  have n: "2 \<le> n" "i < n" using wf by (auto simp: aw_wf_def n_def i_def)
  obtain buf where buf: "shifted i (\<lambda>k. aw_seq w ! (k mod n)) 1 buf" "length buf = n"
    and run: "addActivation a w = do {
       (buf', cur) \<leftarrow> aw_shift 1 i a buf ((i + 1) mod n);
       Some \<lparr>aw_buf = buf'[cur := a], aw_idx = aw_inc buf' i\<rparr> }"
    using addActivation_split [OF wf, of 1 a] hd gt n by (auto simp: n_def i_def)
  have d: "aw_dec buf ((i + 1) mod n) = i" using aw_dec_mod [of i buf 1] buf(2) n by simp
  moreover have v: "buf ! i = aw_seq w ! (n - 1)" using buf n by (auto simp: shifted_def dest: spec [of _ n])
  ultimately have run: "addActivation a w = Some \<lparr>aw_buf = buf[(i + 1) mod n := aw_seq w ! (n - 1), i := a], aw_idx = aw_inc buf i\<rparr>"
    using run gt [of "n - 1"] n by (simp add: Let_def aw_dec_def aw_inc_def n_def split: if_splits)
  let ?b = "buf[(i + 1) mod n := aw_seq w ! (n - 1), i := a]"
  have slot: "?b ! ((i + k) mod n) = (if k = 1 then aw_seq w ! (n - 1) else if k = n then a else aw_seq w ! (k - 1))"
    if "0 < k" "k \<le> n" for k
    using that buf n slot_eq_iff [of i n 1 k] slot_eq_iff [of i n n k] by (auto simp: nth_list_update shifted_def)
  have len: "length ?b = n" using buf(2) by simp
  have "aw_seq \<lparr>aw_buf = ?b, aw_idx = aw_inc buf i\<rparr> = map (\<lambda>k. ?b ! ((i + k) mod n)) [1..<n + 1]"
    using aw_seq_next [OF len n(2)] by (simp add: aw_inc_def)
  also have "\<dots> = last (aw_seq w) # butlast (tl (aw_seq w)) @ [a]"
  proof (rule nth_equalityI)
    have ne: "aw_seq w \<noteq> []" using n length_aw_seq [of w] by (auto simp: n_def simp del: length_aw_seq)
    show "length (map (\<lambda>k. ?b ! ((i + k) mod n)) [1..<n + 1]) = length (last (aw_seq w) # butlast (tl (aw_seq w)) @ [a])"
      using n by (simp add: n_def)
    fix k assume "k < length (map (\<lambda>k. ?b ! ((i + k) mod n)) [1..<n + 1])"
    then have k: "k < n" by (simp del: upt_Suc)
    then have "map (\<lambda>k. ?b ! ((i + k) mod n)) [1..<n + 1] ! k = ?b ! ((i + Suc k) mod n)" by (simp del: upt_Suc)
    then show "map (\<lambda>k. ?b ! ((i + k) mod n)) [1..<n + 1] ! k = (last (aw_seq w) # butlast (tl (aw_seq w)) @ [a]) ! k"
      using slot [of "Suc k"] k n last_conv_nth [of "aw_seq w"] length_aw_seq [of w] ne
      by (cases k) (auto simp: n_def nth_append nth_butlast nth_tl simp del: length_aw_seq)
  qed
  moreover have "aw_inc buf i < n" using n buf(2) by (auto simp: aw_inc_def)
  ultimately show ?thesis using run n len by (simp add: aw_wf_def n_def)
qed

lemma last_not_newer:
  assumes "(xs :: cyc list) ! 0 \<le> a" "0 < length xs"
  shows "\<exists>m < length xs. xs ! m \<le> a \<and> (\<forall>k. m < k \<longrightarrow> k < length xs \<longrightarrow> a < xs ! k)"
proof -
  let ?K = "{k. k < length xs \<and> xs ! k \<le> a}"
  have fin: "finite ?K" and ne: "?K \<noteq> {}" using assms by auto
  have "Max ?K < length xs \<and> xs ! Max ?K \<le> a" using Max_in [OF fin ne] by blast
  moreover have "a < xs ! k" if "Max ?K < k" "k < length xs" for k
    using Max_ge [OF fin, of k] that by (force simp: not_le [symmetric])
  ultimately show ?thesis by blast
qed

text \<open>Whatever the order of the window, the operation replaces its first entry by the new activation.\<close>

lemma addActivation_mset:
  assumes wf: "aw_wf w" and hd: "aw_seq w ! 0 \<le> a"
  shows "ok (addActivation a w) (\<lambda>w'. aw_wf w' \<and> length (aw_buf w') = length (aw_buf w) \<and>
    mset (aw_seq w') = add_mset a (mset (tl (aw_seq w))))"
proof -
  have n: "2 \<le> length (aw_seq w)" using wf by (simp add: aw_wf_def)
  then have "0 < length (aw_seq w)" by linarith
  from last_not_newer [OF hd this] obtain m where m: "m < length (aw_seq w)" "aw_seq w ! m \<le> a" "\<forall>k. m < k \<longrightarrow> k < length (aw_seq w) \<longrightarrow> a < aw_seq w ! k"
    by (elim exE conjE)
  show ?thesis
  proof (cases "m = 0")
    case True
    have "length (tl (aw_seq w)) \<noteq> 0" using n by simp
    then have ne: "tl (aw_seq w) \<noteq> []" by (metis list.size(3))
    then have "last (tl (aw_seq w)) = last (aw_seq w)" by (simp add: last_tl)
    with ne have "tl (aw_seq w) = butlast (tl (aw_seq w)) @ [last (aw_seq w)]"
      using append_butlast_last_id [of "tl (aw_seq w)"] by simp
    then have "mset (tl (aw_seq w)) = mset (butlast (tl (aw_seq w)) @ [last (aw_seq w)])" by (rule arg_cong)
    moreover have "a < aw_seq w ! k" if "0 < k" "k < length (aw_buf w)" for k
      using m(3) [rule_format, of k] that True by simp
    ultimately show ?thesis
      by (intro ok_conseq [OF addActivation_wraps [OF wf hd]]) simp_all
  next
    case False
    have "mset (map (\<lambda>k. aw_seq w ! k) [1..<Suc m] @ [a] @ map (\<lambda>k. aw_seq w ! k) [Suc m..<length (aw_buf w)])
        = add_mset a (mset (tl (aw_seq w)))"
      using tl_pivot [OF m(1)] by simp
    then show ?thesis
      by (intro ok_conseq [OF addActivation_inserts [OF wf hd, of m]]) (use m False in \<open>simp_all del: upt_Suc\<close>)
  qed
qed

lemma addActivation_sorts:
  assumes wf: "aw_wf w" and sorted: "sorted (aw_seq w)" and le: "aw_seq w ! 1 \<le> a"
  shows "ok (addActivation a w) (\<lambda>w'. aw_wf w' \<and> length (aw_buf w') = length (aw_buf w) \<and> aw_seq w' = sort (a # tl (aw_seq w)))"
proof -
  have n: "2 \<le> length (aw_seq w)" using wf by (simp add: aw_wf_def)
  have hd: "aw_seq w ! 0 \<le> a" using sorted_nth_mono [OF sorted, of 0 1] n le by simp
  have "0 < length (aw_seq w)" using n by linarith
  from last_not_newer [OF hd this] obtain m where m: "m < length (aw_seq w)" "aw_seq w ! m \<le> a" "\<forall>k. m < k \<longrightarrow> k < length (aw_seq w) \<longrightarrow> a < aw_seq w ! k"
    by (elim exE conjE)
  have "1 \<le> m" using m(3) [rule_format, of 1] le n by (cases m) auto
  let ?r = "map (\<lambda>k. aw_seq w ! k) [1..<Suc m] @ [a] @ map (\<lambda>k. aw_seq w ! k) [Suc m..<length (aw_seq w)]"
  have le: "aw_seq w ! k \<le> a" if "k \<le> m" for k
    using sorted_nth_mono [OF sorted that m(1)] m(2) by simp
  note tl = tl_pivot [OF m(1)]
  have "sorted (tl (aw_seq w))" using sorted by (simp add: sorted_tl)
  then have "sorted ?r"
    using le m(3) unfolding tl sorted_append by (auto simp del: upt_Suc intro: less_imp_le)
  moreover have "mset ?r = mset (a # tl (aw_seq w))" unfolding tl by simp
  ultimately have "?r = sort (a # tl (aw_seq w))" using properties_for_sort by metis
  then show ?thesis
    by (intro ok_conseq [OF addActivation_inserts [OF wf hd \<open>1 \<le> m\<close>]]) (use m in \<open>simp_all del: upt_Suc\<close>)
qed

section \<open>The four-activation window\<close>

text \<open>
  Activations are recorded one after the other; before each, the controller waits until \<open>tFAW\<close>
  cycles after the entry the window names.
\<close>

fun acts_legal :: "nat \<Rightarrow> ActWindow \<Rightarrow> cyc list \<Rightarrow> bool" where
  "acts_legal faw w [] \<longleftrightarrow> True"
| "acts_legal faw w (a # as) \<longleftrightarrow>
     minActCycle w + faw \<le> a \<and> (case addActivation a w of Some w' \<Rightarrow> acts_legal faw w' as | None \<Rightarrow> True)"

definition in_window :: "nat \<Rightarrow> cyc \<Rightarrow> cyc list \<Rightarrow> nat" where
  "in_window faw c as = length (filter (\<lambda>a. c \<le> a \<and> a < c + faw) as)"

text \<open>
  Fix a window of \<open>faw\<close> cycles from \<open>c\<close>.  An activation inside it replaces an entry below \<open>c\<close>, and an
  entry below \<open>c\<close> can only replace an entry below \<open>c\<close>.
\<close>

lemma in_window_bound:
  assumes "aw_wf w" "acts_legal faw w as"
  shows "ok (foldM addActivation as w) (\<lambda>w'. aw_wf w' \<and>
    in_window faw c as + length (filter (\<lambda>x. x < c) (aw_seq w')) \<le> length (filter (\<lambda>x. x < c) (aw_seq w)))"
  using assms
proof (induction as arbitrary: w)
  case (Cons a as)
  have n: "2 \<le> length (aw_seq w)" using Cons.prems(1) by (simp add: aw_wf_def)
  then have "0 < length (aw_buf w)" by (simp del: length_greater_0_conv)
  then have min: "aw_seq w ! 0 + faw \<le> a"
    using Cons.prems aw_seq_nth [of 0 w] by (simp add: aw_wf_def minActCycle_def)
  then obtain w' where w': "addActivation a w = Some w'" "aw_wf w'" "mset (aw_seq w') = add_mset a (mset (tl (aw_seq w)))"
    using addActivation_mset [OF Cons.prems(1), of a] by (auto simp: ok_def)
  have cnt: "length (filter P xs) = size (filter_mset P (mset xs))" for P and xs :: "cyc list"
    by (metis mset_filter size_mset)
  obtain x xs where xs: "aw_seq w = x # xs" using n by (metis Zero_not_Suc length_0_conv list.exhaust not_numeral_le_zero)
  have "length (filter (\<lambda>x. x < c) (aw_seq w')) + (if c \<le> a \<and> a < c + faw then 1 else 0) \<le> length (filter (\<lambda>x. x < c) (aw_seq w))"
    using min w'(3) by (simp add: cnt xs)
  moreover have "in_window faw c (a # as) = (if c \<le> a \<and> a < c + faw then 1 else 0) + in_window faw c as"
    by (simp add: in_window_def)
  moreover have "ok (foldM addActivation as w') (\<lambda>w''. aw_wf w'' \<and>
    in_window faw c as + length (filter (\<lambda>x. x < c) (aw_seq w'')) \<le> length (filter (\<lambda>x. x < c) (aw_seq w')))"
    using Cons.IH [OF w'(2)] Cons.prems(2) w'(1) by simp
  ultimately show ?case using w'(1) by (auto elim!: ok_conseq)
qed (simp add: in_window_def)

section \<open>Properties\<close>

text \<open>
  C11.  The activation window enforces \<open>tFAW\<close>: if every activation of a rank waits until \<open>tFAW\<close>
  cycles after the entry \<open>minActCycle\<close> names, as the controller does, then no assertion of
  \<open>addActivation\<close> fails, its loop ends, and no window of \<open>tFAW\<close> cycles has more activations than the
  buffer has entries, four in the constructor.  This holds for activations in any order.
\<close>

theorem act_window_faw:
  assumes "2 \<le> n" "acts_legal faw (aw_init n) as"
  shows "ok (foldM addActivation as (aw_init n)) (\<lambda>w. in_window faw c as \<le> n)"
proof -
  have "aw_wf (aw_init n)" using assms(1) by (simp add: aw_wf_def aw_init_def)
  moreover have "length (filter (\<lambda>x. x < c) (aw_seq (aw_init n))) \<le> n"
    using length_filter_le [of "\<lambda>x. x < c" "aw_seq (aw_init n)"] by (simp add: aw_init_def)
  ultimately show ?thesis
    using in_window_bound [OF _ assms(2), of c] by (auto elim!: ok_conseq)
qed

theorem act_window_faw_witness:
  "ok (foldM addActivation [20, 24, 22, 30, 40, 44] (aw_init 4)) (\<lambda>w. in_window 20 22 [20, 24, 22, 30, 40, 44] \<le> 4)"
  by (rule act_window_faw) (simp_all add: aw_init_def minActCycle_def addActivation_def aw_dec_def aw_inc_def Let_def numeral_eq_Suc)

text \<open>
  C12.  The order of the window.  An activation that is not older than the second entry is sorted in:
  the window stays the sorted sequence of the latest activations, so that its first entry is the
  oldest.  An activation older than all entries but the first makes the loop of \<open>addActivation\<close> go
  once around the buffer: the newest activation ends up where \<open>minActCycle\<close> reads the oldest.
\<close>

theorem act_window_order:
  assumes "aw_wf w" "sorted (aw_seq w)" "aw_seq w ! 0 \<le> a"
  shows "ok (addActivation a w) (\<lambda>w'. aw_seq w' =
    (if aw_seq w ! 1 \<le> a then sort (a # tl (aw_seq w)) else last (aw_seq w) # butlast (tl (aw_seq w)) @ [a]))"
proof (cases "aw_seq w ! 1 \<le> a")
  case True
  then show ?thesis by (intro ok_conseq [OF addActivation_sorts [OF assms(1,2)]]) simp_all
next
  case False
  have "a < aw_seq w ! k" if "0 < k" "k < length (aw_buf w)" for k
    using sorted_nth_mono [OF assms(2), of 1 k] that False by simp
  with False show ?thesis by (intro ok_conseq [OF addActivation_wraps [OF assms(1,3)]]) simp_all
qed

theorem act_window_order_witness:
  "ok (addActivation 1000 \<lparr>aw_buf = [1020, 1030, 100, 1010], aw_idx = 2\<rparr>) (\<lambda>w'. aw_seq w' = [1030, 1010, 1020, 1000])"
proof -
  have "aw_seq \<lparr>aw_buf = [1020, 1030, 100, 1010], aw_idx = 2\<rparr> = [100, 1010, 1020, 1030]"
    by (simp add: aw_seq_def rotate_drop_take numeral_2_eq_2)
  then show ?thesis
    using act_window_order [of "\<lparr>aw_buf = [1020, 1030, 100, 1010], aw_idx = 2\<rparr>" 1000] by (simp add: aw_wf_def)
qed

end
