(* ===== verification/Weave_Event.thy ===== *)
theory Weave_Event
  imports Dram
begin

text \<open>
  The events in the weave phase: \<open>TimingEvent::done\<close> and the two versions of \<open>parentDone\<close>
  (\<open>src/src/timing_event.h\<close>, \<open>src/src/timing_event.cpp\<close>).  When an event is done it tells its
  children; a child whose last parent is done enters the queue of the contention simulator, and a
  \<open>DelayEvent\<close>, which never enters a queue, is itself done at once.

  The recorded heap has memory access events (\<open>ev_acc\<close> set) and delay events.  The second component
  of the state collects the calls \<open>contentionSim->enqueue(ev, cycle)\<close> in order.  The lemmas show that
  the notification of children keeps the counts of the parents that are not done, aborts never, and
  queues an event exactly when its last parent is done.
\<close>

type_synonym weave_state = "TimingEvent list \<times> (ev \<times> cyc) list"

definition child_parentDone ::
    "(ev \<Rightarrow> cyc \<Rightarrow> weave_state \<Rightarrow> weave_state option) \<Rightarrow> cyc \<Rightarrow> ev \<Rightarrow> weave_state \<Rightarrow> weave_state option" where
  "child_parentDone run_done startCycle ch s = (case s of (evs, q) \<Rightarrow>
     (case ev_acc (evs ! ch) of
        None \<Rightarrow>
          (let e = (evs ! ch)\<lparr>ev_cycle := max (ev_cycle (evs ! ch)) startCycle,
                              ev_numParents := (if ev_numParents (evs ! ch) = 0 then 2 ^ 32 - 1 else ev_numParents (evs ! ch) - 1)\<rparr>
           in if ev_numParents e = 0
              then run_done ch (ev_cycle e + ev_preDelay e) (evs[ch := e\<lparr>ev_state := EV_RUNNING\<rparr>], q)
              else Some (evs[ch := e], q))
      | Some a \<Rightarrow> do {
          (e, t) \<leftarrow> parentDone (evs ! ch) startCycle;
          Some (evs[ch := e], case t of None \<Rightarrow> q | Some t \<Rightarrow> q @ [(ch, t)]) }))"

text \<open>
  Every nested call of \<open>done\<close> marks one more event as done, so that the number of events bounds the
  depth of the recursion, which is the fuel.
\<close>

primrec run_done :: "nat \<Rightarrow> ev \<Rightarrow> cyc \<Rightarrow> weave_state \<Rightarrow> weave_state option" where
  "run_done 0 e doneCycle s = None"
| "run_done (Suc fuel) e doneCycle s = (case s of (evs, q) \<Rightarrow> do {
     assert_that (ev_state (evs ! e) = EV_RUNNING);
     let evs = evs[e := (evs ! e)\<lparr>ev_state := EV_DONE\<rparr>];
     cs \<leftarrow> visitChildren (evs ! e);
     foldM (child_parentDone (run_done fuel) (doneCycle + ev_postDelay (evs ! e))) cs (evs, q) })"

definition ev_done :: "ev \<Rightarrow> cyc \<Rightarrow> weave_state \<Rightarrow> weave_state option" where
  "ev_done e doneCycle s = run_done (length (fst s)) e doneCycle s"

section \<open>The parents that are not done\<close>

definition kids :: "TimingEvent \<Rightarrow> ev list" where
  "kids e = (case visitChildren e of None \<Rightarrow> [] | Some cs \<Rightarrow> cs)"

definition edges_into :: "TimingEvent list \<Rightarrow> ev \<Rightarrow> nat" where
  "edges_into evs c = (\<Sum>e \<leftarrow> evs. if ev_state e = EV_DONE then 0 else count_list (kids e) c)"

definition undone :: "TimingEvent list \<Rightarrow> nat" where
  "undone evs = count_if (\<lambda>e. ev_state e \<noteq> EV_DONE) evs"

text \<open>
  \<open>weave_inv pend evs\<close>: every event counts its parents that are not done, and the notifications
  \<open>pend\<close> that are still to be delivered; an event that waits for a parent has not been queued.
\<close>

definition weave_inv :: "ev list \<Rightarrow> TimingEvent list \<Rightarrow> bool" where
  "weave_inv pend evs \<longleftrightarrow> graph_ok evs \<and> (\<forall>c < length evs.
     ev_numParents (evs ! c) = edges_into evs c + count_list pend c \<and>
     (ev_numParents (evs ! c) \<noteq> 0 \<longrightarrow> ev_state (evs ! c) = EV_NONE))"

text \<open>What a notification leaves alone: the graph, and every event that is past waiting.\<close>

definition weave_frame :: "TimingEvent list \<Rightarrow> TimingEvent list \<Rightarrow> bool" where
  "weave_frame evs evs' \<longleftrightarrow> length evs' = length evs \<and> (\<forall>p < length evs.
     kids (evs' ! p) = kids (evs ! p) \<and> ev_acc (evs' ! p) = ev_acc (evs ! p) \<and>
     (ev_state (evs ! p) \<noteq> EV_NONE \<longrightarrow> evs' ! p = evs ! p))"

text \<open>The entries a notification adds to the queue.\<close>

definition queued_ok :: "cyc \<Rightarrow> TimingEvent list \<Rightarrow> TimingEvent list \<Rightarrow> (ev \<times> cyc) list \<Rightarrow> bool" where
  "queued_ok c evs evs' new \<longleftrightarrow> (\<forall>(x, t) \<in> set new. x < length evs \<and> ev_acc (evs ! x) \<noteq> None \<and>
     ev_state (evs ! x) = EV_NONE \<and> ev_state (evs' ! x) = EV_QUEUED \<and>
     c \<le> ev_cycle (evs' ! x) \<and> t = ev_cycle (evs' ! x) + ev_preDelay (evs' ! x))"

text \<open>Every access event that waited for a parent still does, or is one of them.\<close>

definition queued_all :: "TimingEvent list \<Rightarrow> TimingEvent list \<Rightarrow> (ev \<times> cyc) list \<Rightarrow> bool" where
  "queued_all evs evs' new \<longleftrightarrow> (\<forall>x < length evs. ev_acc (evs ! x) \<noteq> None \<and> ev_numParents (evs ! x) \<noteq> 0 \<longrightarrow>
     ev_numParents (evs' ! x) \<noteq> 0 \<or> x \<in> fst ` set new)"

lemma visit_update [simp]:
  "visitChildren (e\<lparr>ev_state := s\<rparr>) = visitChildren e" "visitChildren (e\<lparr>ev_cycle := y\<rparr>) = visitChildren e"
  "visitChildren (e\<lparr>ev_numParents := n\<rparr>) = visitChildren e"
  by (cases "ev_children e"; simp add: visitChildren_def)+

lemma kids_update [simp]:
  "kids (e\<lparr>ev_state := s\<rparr>) = kids e" "kids (e\<lparr>ev_cycle := y\<rparr>) = kids e" "kids (e\<lparr>ev_numParents := n\<rparr>) = kids e"
  by (simp_all add: kids_def)

lemma edges_into_update:
  assumes "i < length evs" "kids e = kids (evs ! i)"
  shows "edges_into (evs[i := e]) c + (if ev_state (evs ! i) = EV_DONE then 0 else count_list (kids (evs ! i)) c)
    = edges_into evs c + (if ev_state e = EV_DONE then 0 else count_list (kids (evs ! i)) c)"
  using sum_list_update_nat [of i "map (\<lambda>e. if ev_state e = EV_DONE then 0 else count_list (kids e) c) evs"
      "if ev_state e = EV_DONE then 0 else count_list (kids e) c"] assms
  by (simp add: edges_into_def map_update)

lemma visit_kids: "graph_ok evs \<Longrightarrow> e < length evs \<Longrightarrow> visitChildren (evs ! e) = Some (kids (evs ! e))"
  "graph_ok evs \<Longrightarrow> e < length evs \<Longrightarrow> c \<in> set (kids (evs ! e)) \<Longrightarrow> c < length evs"
  by (fastforce simp: graph_ok_def links_ok_def kids_def)+

text \<open>Marking an event as done turns its edges into notifications.\<close>

lemma weave_inv_done:
  assumes "weave_inv pend evs" "e < length evs" "ev_state (evs ! e) = EV_RUNNING"
  shows "weave_inv (kids (evs ! e) @ pend) (evs[e := (evs ! e)\<lparr>ev_state := EV_DONE\<rparr>])"
    "undone (evs[e := (evs ! e)\<lparr>ev_state := EV_DONE\<rparr>]) + 1 = undone evs"
proof -
  let ?evs = "evs[e := (evs ! e)\<lparr>ev_state := EV_DONE\<rparr>]"
  have "edges_into ?evs c + count_list (kids (evs ! e)) c = edges_into evs c" for c
    using edges_into_update [OF assms(2), of "(evs ! e)\<lparr>ev_state := EV_DONE\<rparr>" c] assms(3) by simp
  moreover have "graph_ok ?evs" using graph_ok_update [of evs "(evs ! e)\<lparr>ev_state := EV_DONE\<rparr>" e] assms(1)
    by (simp add: weave_inv_def)
  moreover have "ev_numParents (evs ! e) = 0" using assms by (auto simp: weave_inv_def)
  ultimately show "weave_inv (kids (evs ! e) @ pend) ?evs"
    using assms(1) by (auto simp: weave_inv_def nth_list_update_if add.assoc [symmetric])
  show "undone ?evs + 1 = undone evs"
    using count_if_update [OF assms(2), of "\<lambda>e. ev_state e \<noteq> EV_DONE" "(evs ! e)\<lparr>ev_state := EV_DONE\<rparr>"] assms(3)
    by (simp add: undone_def)
qed

section \<open>Delivering the notifications\<close>

definition notified :: "cyc \<Rightarrow> ev list \<Rightarrow> weave_state \<Rightarrow> weave_state \<Rightarrow> bool" where
  "notified c pend s s' \<longleftrightarrow> weave_inv pend (fst s') \<and> weave_frame (fst s) (fst s') \<and> undone (fst s') \<le> undone (fst s) \<and>
     (\<exists>new. snd s' = snd s @ new \<and> queued_ok c (fst s) (fst s') new \<and> queued_all (fst s) (fst s') new)"

lemma weave_frame_trans: "weave_frame a b \<Longrightarrow> weave_frame b c \<Longrightarrow> weave_frame a c"
  by (auto simp: weave_frame_def)

lemma weave_frameD:
  assumes "weave_frame a b" "x < length a"
  shows "ev_acc (b ! x) = ev_acc (a ! x)" "ev_state (b ! x) = EV_NONE \<Longrightarrow> ev_state (a ! x) = EV_NONE"
    "ev_state (a ! x) \<noteq> EV_NONE \<Longrightarrow> b ! x = a ! x"
  using assms unfolding weave_frame_def by metis+

lemma queued_ok_trans:
  assumes f: "weave_frame a b" "weave_frame b d" and new: "queued_ok c a b new1" "queued_ok c b d new2"
  shows "queued_ok c a d (new1 @ new2)"
  unfolding queued_ok_def
proof (rule ballI, clarify)
  have len: "length b = length a" using f(1) by (simp add: weave_frame_def)
  fix x t assume "(x, t) \<in> set (new1 @ new2)"
  then consider "(x, t) \<in> set new1" | "(x, t) \<in> set new2" by auto
  then show "x < length a \<and> ev_acc (a ! x) \<noteq> None \<and> ev_state (a ! x) = EV_NONE \<and> ev_state (d ! x) = EV_QUEUED \<and>
    c \<le> ev_cycle (d ! x) \<and> t = ev_cycle (d ! x) + ev_preDelay (d ! x)"
  proof cases
    case 1
    then have "x < length a" "ev_state (b ! x) = EV_QUEUED" using new(1) by (auto simp: queued_ok_def)
    then have "d ! x = b ! x" using weave_frameD(3) [OF f(2), of x] len by simp
    then show ?thesis using 1 new(1) by (auto simp: queued_ok_def)
  next
    case 2
    then have "x < length b" "ev_acc (b ! x) \<noteq> None" "ev_state (b ! x) = EV_NONE" "ev_state (d ! x) = EV_QUEUED"
      "c \<le> ev_cycle (d ! x)" "t = ev_cycle (d ! x) + ev_preDelay (d ! x)" using new(2) by (auto simp: queued_ok_def)
    then show ?thesis using weave_frameD(1,2) [OF f(1), of x] len by simp
  qed
qed

lemma queued_all_trans:
  assumes f: "weave_frame a b" and new: "queued_all a b new1" "queued_all b d new2"
  shows "queued_all a d (new1 @ new2)"
  unfolding queued_all_def
proof (intro allI impI)
  have len: "length b = length a" using f by (simp add: weave_frame_def)
  fix x assume x: "x < length a" "ev_acc (a ! x) \<noteq> None \<and> ev_numParents (a ! x) \<noteq> 0"
  then have "ev_numParents (b ! x) \<noteq> 0 \<or> x \<in> fst ` set new1" using new(1) by (simp add: queued_all_def)
  moreover have "ev_numParents (d ! x) \<noteq> 0 \<or> x \<in> fst ` set new2" if "ev_numParents (b ! x) \<noteq> 0"
    using new(2) x that len weave_frameD(1) [OF f x(1)] by (simp add: queued_all_def)
  ultimately show "ev_numParents (d ! x) \<noteq> 0 \<or> x \<in> fst ` set (new1 @ new2)" by auto
qed

lemma notified_trans:
  assumes "notified c pend s s'" "notified c pend' s' s''"
  shows "notified c pend' s s''"
proof -
  obtain n1 where n1: "snd s' = snd s @ n1" "queued_ok c (fst s) (fst s') n1" "queued_all (fst s) (fst s') n1"
    using assms(1) by (auto simp: notified_def)
  obtain n2 where n2: "snd s'' = snd s' @ n2" "queued_ok c (fst s') (fst s'') n2" "queued_all (fst s') (fst s'') n2"
    using assms(2) by (auto simp: notified_def)
  have f: "weave_frame (fst s) (fst s')" "weave_frame (fst s') (fst s'')" using assms by (auto simp: notified_def)
  have "snd s'' = snd s @ (n1 @ n2)" using n1 n2 by simp
  moreover note queued_ok_trans [OF f n1(2) n2(2)] queued_all_trans [OF f(1) n1(3) n2(3)] weave_frame_trans [OF f]
  moreover have "undone (fst s'') \<le> undone (fst s)" "weave_inv pend' (fst s'')" using assms by (auto simp: notified_def)
  ultimately show ?thesis unfolding notified_def by blast
qed

text \<open>One notification delivered, when the child only changes in place.\<close>

lemma notified_update:
  assumes inv: "weave_inv (ch # pend) evs" and ch: "ch < length evs"
    and e: "kids e = kids (evs ! ch)" "ev_children e = ev_children (evs ! ch)" "ev_numChildren e = ev_numChildren (evs ! ch)"
      "ev_acc e = ev_acc (evs ! ch)" "ev_numParents e = ev_numParents (evs ! ch) - 1" "ev_state e \<noteq> EV_DONE"
      "ev_numParents e \<noteq> 0 \<Longrightarrow> ev_state e = EV_NONE"
    and new: "\<forall>(x, t) \<in> set new. x = ch \<and> ev_acc e \<noteq> None \<and> ev_state e = EV_QUEUED \<and>
      c \<le> ev_cycle e \<and> t = ev_cycle e + ev_preDelay e"
    and all: "ev_acc e \<noteq> None \<Longrightarrow> ev_numParents e = 0 \<Longrightarrow> ch \<in> fst ` set new"
  shows "notified c pend (evs, q) (evs[ch := e], q @ new)"
proof -
  have n: "ev_numParents (evs ! ch) = edges_into evs ch + count_list pend ch + 1"
    using inv ch by (simp add: weave_inv_def)
  then have none: "ev_state (evs ! ch) = EV_NONE" using inv ch by (simp add: weave_inv_def)
  have same: "edges_into (evs[ch := e]) x = edges_into evs x" for x
    using edges_into_update [OF ch e(1), of x] e(6) none by simp
  have "graph_ok (evs[ch := e])" using graph_ok_update(1) [OF _ e(2,3)] inv by (simp add: weave_inv_def)
  moreover have "ev_numParents (evs ! x) = edges_into evs x + count_list pend x" if "x < length evs" "x \<noteq> ch" for x
    using inv that by (simp add: weave_inv_def)
  ultimately have "weave_inv pend (evs[ch := e])"
    using inv n e(5,7) ch by (auto simp: weave_inv_def same nth_list_update_if)
  moreover have "weave_frame evs (evs[ch := e])"
    using e none by (auto simp: weave_frame_def nth_list_update_if)
  moreover have "undone (evs[ch := e]) \<le> undone evs"
    using count_if_update [OF ch, of "\<lambda>e. ev_state e \<noteq> EV_DONE" e] e(6) none by (simp add: undone_def)
  moreover have "queued_ok c evs (evs[ch := e]) new"
    using new ch none e(4) by (auto simp: queued_ok_def)
  moreover have "queued_all evs (evs[ch := e]) new"
    using all e(4) by (auto simp: queued_all_def nth_list_update_if)
  ultimately show ?thesis by (auto simp: notified_def)
qed

lemma parentDone_waiting:
  assumes "ev_state e = EV_NONE" "ev_numParents e \<noteq> 0"
  shows "parentDone e startCycle =
    Some (e\<lparr>ev_cycle := max (ev_cycle e) startCycle, ev_numParents := ev_numParents e - 1,
            ev_state := (if ev_numParents e = 1 then EV_QUEUED else EV_NONE)\<rparr>,
          if ev_numParents e = 1 then Some (max (ev_cycle e) startCycle + ev_preDelay e) else None)"
  using assms by (cases e) (simp add: parentDone_def Let_def)

lemma child_parentDone_ok:
  assumes inv: "weave_inv (ch # pend) evs" and ch: "ch < length evs" and c: "c \<le> startCycle"
    and IH: "\<And>evs e d q. weave_inv pend evs \<Longrightarrow> e < length evs \<Longrightarrow> ev_state (evs ! e) = EV_RUNNING \<Longrightarrow> undone evs \<le> n \<Longrightarrow> c \<le> d \<Longrightarrow>
      ok (rd e d (evs, q)) (notified c pend (evs[e := (evs ! e)\<lparr>ev_state := EV_DONE\<rparr>], q))"
    and n: "undone evs \<le> n"
  shows "ok (child_parentDone rd startCycle ch (evs, q)) (notified c pend (evs, q))"
proof -
  have par: "ev_numParents (evs ! ch) \<noteq> 0" using inv ch by (simp add: weave_inv_def)
  then have none: "ev_state (evs ! ch) = EV_NONE" using inv ch by (simp add: weave_inv_def)
  show ?thesis
  proof (cases "ev_acc (evs ! ch)")
    case None
    define e where "e = (evs ! ch)\<lparr>ev_cycle := max (ev_cycle (evs ! ch)) startCycle, ev_numParents := ev_numParents (evs ! ch) - 1\<rparr>"
    show ?thesis
    proof (cases "ev_numParents e = 0")
      case True
      let ?e = "e\<lparr>ev_state := EV_RUNNING\<rparr>"
      let ?evs = "evs[ch := ?e]"
      have m: "notified c pend (evs, q) (?evs, q @ [])"
        using inv ch by (rule notified_update) (use None True in \<open>simp_all add: e_def\<close>)
      then have i: "weave_inv pend ?evs" "undone ?evs \<le> n" using n by (simp_all add: notified_def)
      let ?evs2 = "?evs[ch := (?evs ! ch)\<lparr>ev_state := EV_DONE\<rparr>]"
      have "ok (rd ch (ev_cycle e + ev_preDelay e) (?evs, q)) (notified c pend (?evs2, q))"
        using i by (intro IH) (use c ch in \<open>simp_all add: e_def\<close>)
      moreover have "weave_frame evs ?evs2"
        using none ch by (auto simp: weave_frame_def nth_list_update_if e_def)
      moreover have "undone ?evs2 \<le> undone evs"
        using weave_inv_done(2) [OF i(1), of ch] m ch by (simp add: notified_def)
      moreover have "queued_ok c evs evs' new" if "queued_ok c ?evs2 evs' new" for evs' new
        using that ch none \<open>weave_frame evs ?evs2\<close> by (fastforce simp: queued_ok_def weave_frame_def)
      moreover have "queued_all evs evs' new" if "queued_all ?evs2 evs' new" for evs' new
        using that ch None by (fastforce simp: queued_all_def nth_list_update_if)
      ultimately have "ok (rd ch (ev_cycle e + ev_preDelay e) (?evs, q)) (notified c pend (evs, q))"
        using weave_frame_trans by (fastforce simp: notified_def elim!: ok_conseq)
      then show ?thesis using None True par by (simp add: child_parentDone_def e_def Let_def)
    next
      case False
      have "notified c pend (evs, q) (evs[ch := e], q @ [])"
        using inv ch by (rule notified_update) (use False none in \<open>simp_all add: e_def\<close>)
      then show ?thesis using None False par by (simp add: child_parentDone_def e_def Let_def)
    qed
  next
    case (Some a)
    obtain e t where e: "parentDone (evs ! ch) startCycle = Some (e, t)"
      "e = (evs ! ch)\<lparr>ev_cycle := max (ev_cycle (evs ! ch)) startCycle, ev_numParents := ev_numParents (evs ! ch) - 1,
        ev_state := (if ev_numParents (evs ! ch) = 1 then EV_QUEUED else EV_NONE)\<rparr>"
      "t = (if ev_numParents (evs ! ch) = 1 then Some (max (ev_cycle (evs ! ch)) startCycle + ev_preDelay (evs ! ch)) else None)"
      using parentDone_waiting [OF none par] by blast
    have "notified c pend (evs, q) (evs[ch := e], q @ (case t of None \<Rightarrow> [] | Some t \<Rightarrow> [(ch, t)]))"
      using inv ch by (rule notified_update) (use Some none c par e(2,3) in auto)
    then show ?thesis using Some e by (auto simp: child_parentDone_def split: if_splits)
  qed
qed

lemma children_notified:
  assumes "weave_inv (cs @ pend) evs" "\<forall>ch \<in> set cs. ch < length evs" "c \<le> startCycle" "undone evs \<le> n"
    and IH: "\<And>pend evs e d q. weave_inv pend evs \<Longrightarrow> e < length evs \<Longrightarrow> ev_state (evs ! e) = EV_RUNNING \<Longrightarrow> undone evs \<le> n \<Longrightarrow> c \<le> d \<Longrightarrow>
      ok (rd e d (evs, q)) (notified c pend (evs[e := (evs ! e)\<lparr>ev_state := EV_DONE\<rparr>], q))"
  shows "ok (foldM (child_parentDone rd startCycle) cs (evs, q)) (notified c pend (evs, q))"
  using assms(1,2,4)
proof (induction cs arbitrary: evs q)
  case Nil
  then show ?case by (auto simp: notified_def weave_frame_def queued_ok_def queued_all_def)
next
  case (Cons ch cs)
  have "ok (child_parentDone rd startCycle ch (evs, q)) (notified c (cs @ pend) (evs, q))"
    by (rule child_parentDone_ok) (use Cons.prems assms(3) IH in auto)
  then obtain evs' q' where s': "child_parentDone rd startCycle ch (evs, q) = Some (evs', q')" "notified c (cs @ pend) (evs, q) (evs', q')"
    by (auto simp: ok_def)
  then have "weave_inv (cs @ pend) evs'" "length evs' = length evs" "undone evs' \<le> n"
    using Cons.prems(3) by (auto simp: notified_def weave_frame_def)
  then have "ok (foldM (child_parentDone rd startCycle) cs (evs', q')) (notified c pend (evs', q'))"
    using Cons.prems(2) by (intro Cons.IH) auto
  then show ?case using s' by (auto elim!: ok_conseq intro: notified_trans)
qed

lemma run_done_ok:
  assumes "weave_inv pend evs" "e < length evs" "ev_state (evs ! e) = EV_RUNNING" "undone evs \<le> fuel" "c \<le> d"
  shows "ok (run_done fuel e d (evs, q)) (notified c pend (evs[e := (evs ! e)\<lparr>ev_state := EV_DONE\<rparr>], q))"
  using assms
proof (induction fuel arbitrary: pend evs e d q)
  case 0
  then show ?case using weave_inv_done(2) [OF 0(1-3)] by simp
next
  case (Suc fuel)
  let ?evs = "evs[e := (evs ! e)\<lparr>ev_state := EV_DONE\<rparr>]"
  note inv = weave_inv_done [OF Suc.prems(1-3)]
  have g: "graph_ok evs" using Suc.prems(1) by (simp add: weave_inv_def)
  have "ok (foldM (child_parentDone (run_done fuel) (d + ev_postDelay (evs ! e))) (kids (evs ! e)) (?evs, q)) (notified c pend (?evs, q))"
    by (rule children_notified [OF inv(1) _ _ _ Suc.IH]) (use visit_kids(2) [OF g Suc.prems(2)] inv(2) Suc.prems(4,5) in auto)
  then show ?case using Suc.prems(2,3) visit_kids(1) [OF g Suc.prems(2)] by (simp add: Let_def)
qed

lemma undone_le: "undone evs \<le> length evs"
  by (simp add: undone_def count_if_def)

lemmas ev_done_ok = run_done_ok [OF _ _ _ undone_le order_refl, folded ev_done_def]

section \<open>Properties\<close>

text \<open>
  C10.  When a running event is done, the notification of its children neither aborts nor runs
  forever, also through chains of delay events.  It keeps, for every event, the count of the parents
  that are not done.  A memory access event that waited for parents enters the queue of the
  contention simulator exactly if none of its parents is left, at its start cycle plus its
  \<open>preDelay\<close>, and not before the event that was done.
\<close>

theorem done_notifies:
  assumes "weave_inv [] evs" "e < length evs" "ev_state (evs ! e) = EV_RUNNING"
  shows "ok (ev_done e d (evs, q)) (\<lambda>(evs', q'). weave_inv [] evs' \<and> ev_state (evs' ! e) = EV_DONE \<and>
    (\<exists>new. q' = q @ new \<and>
      (\<forall>x < length evs. ev_acc (evs ! x) \<noteq> None \<and> ev_numParents (evs ! x) \<noteq> 0 \<longrightarrow>
         (x \<in> fst ` set new \<longleftrightarrow> edges_into evs' x = 0)) \<and>
      (\<forall>(x, t) \<in> set new. d \<le> ev_cycle (evs' ! x) \<and> t = ev_cycle (evs' ! x) + ev_preDelay (evs' ! x))))"
proof -
  let ?evs = "evs[e := (evs ! e)\<lparr>ev_state := EV_DONE\<rparr>]"
  obtain evs' new where r: "ev_done e d (evs, q) = Some (evs', q @ new)" and inv: "weave_inv [] evs'" and f: "weave_frame ?evs evs'"
    and new: "queued_ok d ?evs evs' new" "queued_all ?evs evs' new"
    using ev_done_ok [OF assms, of d q] by (auto simp: ok_def notified_def ev_done_def)
  have e: "ev_numParents (evs ! e) = 0" "evs' ! e = (evs ! e)\<lparr>ev_state := EV_DONE\<rparr>"
    using assms weave_frameD(3) [OF f, of e] by (auto simp: weave_inv_def)
  have "x \<in> fst ` set new \<longleftrightarrow> edges_into evs' x = 0"
    if x: "x < length evs" "ev_acc (evs ! x) \<noteq> None" "ev_numParents (evs ! x) \<noteq> 0" for x
  proof -
    have ne: "x \<noteq> e" using x(3) e by auto
    have len: "length evs' = length evs" using f by (simp add: weave_frame_def)
    then have n: "ev_numParents (evs' ! x) = edges_into evs' x" and st: "ev_numParents (evs' ! x) \<noteq> 0 \<longrightarrow> ev_state (evs' ! x) = EV_NONE"
      using inv x(1) by (simp_all add: weave_inv_def)
    have "ev_state (evs' ! x) \<noteq> EV_NONE" if "x \<in> fst ` set new"
      using that new(1) by (auto simp: queued_ok_def)
    moreover have "x \<in> fst ` set new" if "ev_numParents (evs' ! x) = 0"
      using new(2) x ne that by (auto simp: queued_all_def)
    ultimately show ?thesis using n st by metis
  qed
  moreover have "\<forall>(x, t) \<in> set new. d \<le> ev_cycle (evs' ! x) \<and> t = ev_cycle (evs' ! x) + ev_preDelay (evs' ! x)"
    using new(1) by (auto simp: queued_ok_def)
  ultimately show ?thesis using r inv e(2) by simp
qed

text \<open>A running access whose child is a delay of five cycles in front of a second access.\<close>

definition demo_chain_ddr :: DDRMemory where
  "demo_chain_ddr = \<lparr>ddr_id = 0, minRdLatency = 40, minWrLatency = 10, ddr_preDelay = 10, postDelayRd = 30, postDelayWr = 0,
     ddr_domain = 0, sysFreqKHz = 2000000, memFreqKHz = 666666\<rparr>"

definition demo_first :: TimingEvent where
  "demo_first = (DDRMemoryAccEvent_new demo_chain_ddr False 64 4)\<lparr>ev_state := EV_RUNNING, ev_numChildren := 1, ev_children := Child (Some 1)\<rparr>"

definition demo_delay :: TimingEvent where
  "demo_delay = (TimingEvent_new 5 0 0 None)\<lparr>ev_numChildren := 1, ev_children := Child (Some 2), ev_numParents := 1\<rparr>"

definition demo_second :: TimingEvent where
  "demo_second = (DDRMemoryAccEvent_new demo_chain_ddr True 128 4)\<lparr>ev_numParents := 1\<rparr>"

definition demo_chain :: "TimingEvent list" where
  "demo_chain = [demo_first, demo_delay, demo_second]"

lemma acyclic_forward: "edges evs \<subseteq> less_than \<Longrightarrow> acyclic (edges evs)"
  using acyclic_subset wf_acyclic wf_less_than by blast

lemma demo_events:
  "visitChildren demo_first = Some [1]" "visitChildren demo_delay = Some [2]" "visitChildren demo_second = Some []"
  "children_ok demo_first" "children_ok demo_delay" "children_ok demo_second"
  "ev_state demo_first = EV_RUNNING" "ev_state demo_delay = EV_NONE" "ev_state demo_second = EV_NONE"
  "ev_numParents demo_first = 0" "ev_numParents demo_delay = 1" "ev_numParents demo_second = 1"
  by (simp_all add: demo_first_def demo_delay_def demo_second_def visitChildren_def children_ok_def DDRMemoryAccEvent_new_def TimingEvent_new_def)

lemma demo_cases:
  assumes "p < length demo_chain"
  obtains "p = 0" "demo_chain ! p = demo_first" | "p = 1" "demo_chain ! p = demo_delay" | "p = 2" "demo_chain ! p = demo_second"
proof -
  have "p < 3" using assms by (simp add: demo_chain_def)
  then consider "p = 0" | "p = 1" | "p = 2" by linarith
  then show thesis using that by cases (simp_all add: demo_chain_def)
qed

lemma demo_chain_inv: "weave_inv [] demo_chain"
proof -
  have "edges demo_chain \<subseteq> less_than"
  proof (rule subrelI)
    fix p c assume "(p, c) \<in> edges demo_chain"
    then have p: "p < length demo_chain" "c \<in> children_of (demo_chain ! p)" by (simp_all add: edges_def)
    from p(1) show "(p, c) \<in> less_than"
      by (cases rule: demo_cases) (use p(2) in \<open>simp_all add: children_of_def demo_events\<close>)
  qed
  moreover have "links_ok (length demo_chain) (demo_chain ! p)" if "p < length demo_chain" for p
    using that by (cases rule: demo_cases) (simp_all add: links_ok_def demo_events, simp_all add: demo_chain_def)
  ultimately have g: "graph_ok demo_chain" by (simp add: graph_ok_def acyclic_forward)
  have into: "edges_into demo_chain c = (if c = 1 \<or> c = 2 then 1 else 0)" for c
    by (simp add: edges_into_def kids_def demo_chain_def demo_events)
  have "ev_numParents (demo_chain ! c) = edges_into demo_chain c \<and> (ev_numParents (demo_chain ! c) \<noteq> 0 \<longrightarrow> ev_state (demo_chain ! c) = EV_NONE)"
    if "c < length demo_chain" for c
    using that by (cases rule: demo_cases) (simp_all add: into demo_events)
  with g show ?thesis by (simp add: weave_inv_def)
qed

theorem done_notifies_witness:
  "ok (ev_done 0 100 (demo_chain, [])) (\<lambda>(evs', q'). weave_inv [] evs' \<and> ev_state (evs' ! 0) = EV_DONE) \<and>
   map_option snd (ev_done 0 100 (demo_chain, [])) = Some [(2, 145)]"
proof
  have "ev_state (demo_chain ! 0) = EV_RUNNING" "0 < length demo_chain" by (simp_all add: demo_chain_def demo_events)
  from done_notifies [OF demo_chain_inv this(2,1), of 100 "[]"]
  show "ok (ev_done 0 100 (demo_chain, [])) (\<lambda>(evs', q'). weave_inv [] evs' \<and> ev_state (evs' ! 0) = EV_DONE)"
    by (rule ok_conseq) auto
  show "map_option snd (ev_done 0 100 (demo_chain, [])) = Some [(2, 145)]"
    by (simp add: ev_done_def demo_chain_def demo_first_def demo_delay_def demo_second_def DDRMemoryAccEvent_new_def TimingEvent_new_def
        demo_chain_ddr_def child_parentDone_def parentDone_def visitChildren_def Let_def numeral_2_eq_2)
qed

end
