(* ===== verification/Spec2Isabelle.thy ===== *)
theory Spec2Isabelle
  imports Mc_Run Coh_Demo Act_Window Weave_Event
begin

text \<open>
  A verification of the DRAM-cache simulator Banshee, a fork of zsim whose memory controller
  models in-package DRAM caches (\<open>src/src\<close>).

  \<^bold>\<open>The program.\<close>  Cores send requests through a hierarchy of caches to memory controllers.
  \<open>MemoryController\<close> (\<open>mc.cpp\<close>) implements seven schemes of using in-package DRAM as a cache
  of the external DRAM: none, in-package only, Alloy (lines), Unison, HMA, Tagless and Hybrid, which
  is Banshee (pages).  A placement policy (\<open>line_placement.cpp\<close>, \<open>page_placement.cpp\<close>,
  \<open>os_placement.cpp\<close>) decides what is cached; Banshee's tag buffer (\<open>TagBuffer\<close> in \<open>mc.cpp\<close>)
  remembers pages whose mapping changed.  Every access is priced by a DRAM model (\<open>ddr_mem.cpp\<close>,
  \<open>mem_ctrls.cpp\<close>, \<open>dramsim_mem_ctrl.cpp\<close>), which also records timing events
  (\<open>timing_event.h\<close>, \<open>event_recorder.h\<close>) for the weave phase.

  \<^bold>\<open>Conventions.\<close>  A failed \<open>assert\<close>, a \<open>panic\<close>, a division by zero and a null or out-of-range
  access are the value \<open>None\<close>; everything else is state passing in the option monad.  Addresses,
  cycles and counters are natural numbers, with the reduction modulo the word size written out where the
  code depends on it; bit vectors are words.  Doubles are rationals rounded as IEEE binary64 does.

  \<^bold>\<open>Theories.\<close>
  \<^item> \<open>Prelude\<close>: generic lemmas; \<open>ok m P\<close> says that a computation returns and its result satisfies \<open>P\<close>.
  \<^item> \<open>Numerics\<close>: doubles and the rand48 generator.
  \<^item> \<open>Tag_Buffer\<close>: \<open>TagBuffer\<close>; it implements the interface \<open>remap_table\<close>, a set of remapped pages.
  \<^item> \<open>Mem_Types\<close>, \<open>Placement\<close>, \<open>Page_Placement\<close>: requests, ways and sets, and the placement policies.
  \<^item> \<open>Timing_Event\<close>, \<open>Dram\<close>: timing events and the DRAM models; they implement the interface
    \<open>dram_system\<close>, the protocol between the controller and its memories.
  \<^item> \<open>Weave_Event\<close>: what happens in the weave phase when an event is done: the notification of its children.
  \<^item> \<open>Act_Window\<close>: the window of activations with which a DDR memory keeps the limit of four activations of a rank.
  \<^item> \<open>Mc\<close>: the memory controller, each phase of \<open>MemoryController::access\<close> a definition.
  \<^item> \<open>Mc_Inv\<close>, \<open>Mc_Phases\<close>, \<open>Mc_Safe\<close>, \<open>Mc_Access\<close>: the controller's invariant, that each phase preserves
    it without aborting, and the whole access over any \<open>dram_system\<close>.
  \<^item> \<open>Config\<close>, \<open>Mc_Init\<close>, \<open>Mc_Run\<close>: the configuration and its parsers, the controller's constructor, and
    sequences of requests.
  \<^item> \<open>Mtrand\<close>, \<open>Hash\<close>, \<open>Repl\<close>: the Mersenne twister, the H3 hash family and the replacement policies.
  \<^item> \<open>Cache_Array\<close>, \<open>Zcache\<close>: set-associative arrays and zcaches; both implement the interface
    \<open>cache_array\<close>.
  \<^item> \<open>Coherence\<close>: the caches and their MESI controllers (\<open>cache.cpp\<close>, \<open>coherence_ctrls.h\<close>, \<open>coherence_ctrls.cpp\<close>), objects
    in a store that refer to each other by number.
  \<^item> \<open>Coh_Inv\<close>: the coherence invariant, in terms of the tree that the parents of an address form: every directory entry
    lists exactly the copies of the children.
  \<^item> \<open>Coh_Inval\<close>: invalidations and downgrades reach exactly the copies below a cache.
  \<^item> \<open>Coh_Record\<close>: how a cache joins the timing records of an access and of the write-back it caused.
  \<^item> \<open>Coh_Access\<close>, \<open>Coh_Evict\<close>, \<open>Coh_Grant\<close>, \<open>Coh_Serve\<close>: accesses, over any memory that meets the interface
    \<open>memory_side\<close>: the bottom controller, evictions and allocations, the top controller, and the composition at every level.
  \<^item> \<open>Coh_Run\<close>, \<open>Coh_Demo\<close>: the whole system of cores, caches and memory controllers, which implement \<open>memory_side\<close>; single
    writer and multiple readers; a concrete system.

  \<^bold>\<open>Bounds.\<close>  \<open>access\<close> and \<open>invalidate\<close> are virtual functions that call each other through the hierarchy; their first argument bounds
  the depth of the calls.  Parents have smaller numbers than children, so the number of caches is always enough, and the theorems
  are about that bound.  The walk of a zcache, the insertion into
  an activation window and the notification of children have a fuel that is proved to be enough.  The rejection loop of the random
  generator is a partial function whose value \<open>None\<close> is a search that never ends; a theorem says exactly when it returns.

  \<^bold>\<open>Not modelled.\<close>
  \<^item> Locks and the interleaving of threads inside one access: an access runs as a whole.  What the code does about an
    invalidation that overtakes a request is the race check, which is modelled.
  \<^item> Cores, the decoder and the instrumentation: they are callbacks of the Pin framework on x86 instructions.  A request of a core is
    an argument of the model.
  \<^item> The weave phase beyond the state of an event and the notification of its children: the queues of the contention simulator,
    its threads and the crossing of domains; of the scheduling of DDR commands only the activation window; the detailed memory model.
  \<^item> Filter caches except for the request they send, timing and tracing caches, prefetchers, and partitioned caches.
  \<^item> Scheduling, processes, shared memory, statistics, traces and the construction of the system: system calls, files, HDF5 and
    libconfig.
\<close>

section \<open>The memory controller is safe\<close>

text \<open>
  C3. An access to a controller that satisfies its invariant, whose memories are DDR or DRAMSim memories, by a core that has
  no timing record open, never fails an assertion, dereferences a null pointer or divides by zero: it returns no earlier than
  it was issued, grants the coherence state the request asks for, preserves the invariant, and opens no record of another
  core.  A clean write-back (PUTS) returns at once and changes nothing; any other request leaves a record of the requesting
  core open, if the core has an event recorder.  This holds for all seven schemes.
\<close>

theorem mc_access_safe:
  assumes "mc_inv mc" "memories_for ms (cfg mc)" "ready (srcId req) b"
  shows "\<exists>c mc' b'. mc_access (mem_access ms) mc b req = Some (c, mem_grant req, mc', b') \<and> cycle req \<le> c \<and>
    mc_inv mc' \<and> cfg mc' = cfg mc \<and>
    (if req_type req = PUTS then c = cycle req \<and> mc' = mc \<and> b' = b else pending (cycle req) (srcId req) b') \<and>
    (\<forall>s. s \<noteq> srcId req \<longrightarrow> ready s b \<longrightarrow> ready s b')"
proof (cases "req_type req = PUTS")
  case True
  then show ?thesis using mc_access_clean [OF True, of "mem_access ms" mc b] assms(1) by (simp add: mem_grant_def)
next
  case False
  then show ?thesis using mc_access_drams [OF assms] by auto
qed

theorem mc_access_safe_witness:
  "\<exists>mc c mc' b'. MemoryController_new demo_config ''mem-1'' demo_raw = Some mc \<and>
    mc_access (mem_access demo_memories) mc demo_bound (demo_req 77 GETS 0) = Some (c, StE, mc', b') \<and> 100 \<le> c \<and> mc_inv mc'"
proof -
  obtain mc where mc: "MemoryController_new demo_config ''mem-1'' demo_raw = Some mc" "runnable mc"
    "memories_for demo_memories (cfg mc)" using demo_new by blast
  have "mem_grant (demo_req 77 GETS 0) = StE" by (simp add: mem_grant_def demo_req_def req_is_def)
  then show ?thesis
    using mc_access_safe [OF MemoryController_new_inv [OF mc(1,2)] mc(3) demo_ready, of "demo_req 77 GETS 0"] mc(1)
    by (auto simp: demo_req_def)
qed

text \<open>
  C5. The constructor establishes the invariant: for every configuration it accepts, if the resulting
  controller is \<open>runnable\<close> (there is at least one memory and one set, pages have 4096 bytes, the interval of
  HMA is not zero, and the frequency-based policy is used with the scheme that has a tag buffer), the
  invariant holds, whatever the uninitialised memory contained.
\<close>

theorem mc_constructor_invariant:
  assumes "MemoryController_new c name raw = Some mc" "runnable mc"
  shows "mc_inv mc"
  by (rule MemoryController_new_inv [OF assms])

theorem mc_constructor_invariant_witness:
  "\<exists>mc. MemoryController_new demo_config ''mem-1'' demo_raw = Some mc \<and> mc_inv mc"
  using demo_new mc_constructor_invariant by blast



section \<open>The cache hierarchy is coherent\<close>

text \<open>
  C1. In a system that is idle and coherent, every access of a core to its first-level cache is served without an abort, at whatever
  level its line is found and whatever evictions, write-backs, invalidations and downgrades it causes on its way: it returns no earlier
  than it was issued, the core's cache then holds the permission asked for, and the system is idle and coherent again.  This
  composes the caches, their arrays and replacement policies, the coherence controllers, the memory controllers with their placement
  policies, and the DRAM models.
\<close>

theorem hierarchy_access_safe:
  assumes "system_ok mss w" "issues w r"
  shows "\<exists>resp w1. core_access (memory_access mss) (cr_cache r) (cr_addr r) (cr_type r) (cr_cycle r) (cr_src r) (cr_flags r) w = Some (resp, w1) \<and>
    cr_cycle r \<le> resp \<and> held (cr_type r) (st w1 (cr_cache r) (cr_addr r)) \<and> system_ok mss (w1\<lparr>bnd := take_record (cr_src r) (bnd w1)\<rparr>)"
  using core_access_system [OF assms] by blast

theorem hierarchy_access_safe_witness:
  "\<exists>w resp w1. demo_start w \<and> core_access (memory_access [demo_memories]) 1 77 GETX 100 1 0 w = Some (resp, w1) \<and> 100 \<le> resp \<and> st w1 1 77 = StM"
proof -
  obtain w where w: "demo_start w" "system_ok [demo_memories] w" using demo_system by blast
  have "issues w (demo_core 1 77 GETX)" by (rule demo_issues [OF w(1)]) (simp_all add: IsGet_def)
  from hierarchy_access_safe [OF w(2) this] w(1) show ?thesis by (auto simp: demo_core_def)
qed

text \<open>
  C2. Single writer, multiple readers.  In every world that the cores can reach, in whatever order they run: if a cache holds an
  address in state E or M, then no cache of the same tree holds a copy, except the caches above it and below it.
\<close>

theorem hierarchy_single_writer:
  assumes "system_ok mss w0" "reaches mss w0 w" "a \<noteq> 0" "c < numCaches w" "d < numCaches w"
    "inside (links w) a r c" "inside (links w) a r d" "\<not> inside (links w) a c d" "\<not> inside (links w) a d c" "st w c a = StE \<or> st w c a = StM"
  shows "st w d a = StI"
  by (rule single_writer [OF _ assms(3,4,6,5,7-9)]) (use reaches_ok [OF assms(2,1)] assms(10) in \<open>simp_all add: system_ok_def excl_def\<close>)

theorem hierarchy_single_writer_witness:
  "\<exists>w0 w. demo_start w0 \<and> reaches [demo_memories] w0 w \<and> st w 1 77 = StM \<and> st w 2 77 = StI"
proof -
  obtain w0 w where w: "demo_start w0" "reaches [demo_memories] w0 w" "st w 1 77 = StM" using demo_written by blast
  have ok: "system_ok [demo_memories] w0" by (rule demo_system(2) [OF w(1)])
  have "links w = links w0" "numCaches w = 3" using reaches_ok [OF w(2) ok] demo_tree(1) [OF w(1)] by simp_all
  then have "st w 2 77 = StI"
    using hierarchy_single_writer [OF ok w(2), where a = 77 and c = 1 and d = 2 and r = 0] demo_tree(2-5) [OF w(1)] w(3) by simp
  then show ?thesis using w by blast
qed

text \<open>
  C7. The directories are well typed.  In every world that the cores can reach, the hierarchy has the shape it was built with, every
  controller has a state and a directory entry for each line of its array, and an entry names children that exist, as many as it counts.
\<close>

theorem hierarchy_shape:
  assumes "system_ok mss w0" "reaches mss w0 w" "c < numCaches w0"
  shows "numCaches w = numCaches w0 \<and> links w c = links w0 c \<and> length (b_array (bcc (caches w c))) = ca_lines (arr (caches w c)) \<and>
    (\<forall>t. tcc (caches w c) = Some t \<longrightarrow> length (t_array t) = ca_lines (arr (caches w c)) \<and>
      (\<forall>e \<in> set (t_array t). sharers e \<subseteq> {..<length (children (t_link t))} \<and> numSharers e = card (sharers e)))"
  using reaches_ok [OF assms(2,1)] assms(3) directory_typed [of w c] by (auto simp: system_ok_def)

theorem hierarchy_shape_witness:
  "\<exists>w0 w t. demo_start w0 \<and> reaches [demo_memories] w0 w \<and> st w 1 77 = StM \<and> tcc (caches w 0) = Some t \<and> length (t_array t) = ca_lines (arr (caches w 0)) \<and>
    (\<forall>e \<in> set (t_array t). sharers e \<subseteq> {0, 1})"
proof -
  obtain w0 w where w: "demo_start w0" "reaches [demo_memories] w0 w" "st w 1 77 = StM" using demo_written by blast
  have n: "0 < numCaches w0" using demo_tree(1) [OF w(1)] by simp
  note H = hierarchy_shape [OF demo_system(2) [OF w(1)] w(2) n]
  obtain t where t: "tcc (caches w 0) = Some t" "children (t_link t) = [1, 2]" using demo_children [OF w(1), of w] H by auto
  have two: "{..<Suc (Suc 0)} = {0, Suc 0}" by auto
  have "length (t_array t) = ca_lines (arr (caches w 0))" "\<forall>e \<in> set (t_array t). sharers e \<subseteq> {0, 1}" using H t by (simp_all add: two)
  then show ?thesis using w t(1) by blast
qed

text \<open>
  C6. An invalidation or downgrade of a valid copy reaches exactly the copies in the caches below it, tells whether one of them was
  modified, and changes no other copy; the recursion ends within the depth of the hierarchy.
\<close>

theorem invalidation_exact:
  assumes "coherent w" "c < numCaches w" "a \<noteq> 0" "ty = INV \<or> ty = INVX \<and> (st w c a = StE \<or> st w c a = StM)" "st w c a \<noteq> StI"
  shows "\<exists>resp wb w'. invalidate (numCaches w) c \<lparr>inv_addr = a, inv_type = ty, inv_cycle = cyc, inv_srcId = src\<rparr> False w = Some (resp, wb, w') \<and>
    cyc \<le> resp \<and> (wb \<longleftrightarrow> (\<exists>d \<in> subtree w a c. st w d a = StM)) \<and>
    (\<forall>d x. d < numCaches w \<longrightarrow> x \<noteq> 0 \<longrightarrow> st w' d x = (if x = a \<and> d \<in> subtree w a c then down ty (st w d x) else st w d x))"
proof -
  have "ok (invalidate (numCaches w) c \<lparr>inv_addr = a, inv_type = ty, inv_cycle = cyc, inv_srcId = src\<rparr> False w) (\<lambda>(resp, wb', w'). cyc \<le> resp \<and>
    (wb' \<longleftrightarrow> False \<or> (\<exists>d \<in> subtree w a c. st w d a = StM)) \<and> effect ty a (subtree w a c) {} w w')"
    by (rule inv_okD [OF invalidate_ok coherentD(1) [OF assms(1)] assms(2) _ assms(3) _ coherentD(4) [OF assms(1)]])
      (use assms(3-5) in \<open>auto simp: subtree_def excl_def\<close>)
  then obtain resp wb w' where r: "invalidate (numCaches w) c \<lparr>inv_addr = a, inv_type = ty, inv_cycle = cyc, inv_srcId = src\<rparr> False w = Some (resp, wb, w')"
    "cyc \<le> resp" "wb \<longleftrightarrow> (\<exists>d \<in> subtree w a c. st w d a = StM)" "effect ty a (subtree w a c) {} w w'" by (auto simp: ok_def)
  then show ?thesis using effectD(5) [OF r(4)] by blast
qed

theorem invalidation_exact_witness:
  "\<exists>w0 w resp wb w'. demo_start w0 \<and> reaches [demo_memories] w0 w \<and>
    invalidate 3 1 \<lparr>inv_addr = 77, inv_type = INVX, inv_cycle = 200, inv_srcId = 2\<rparr> False w = Some (resp, wb, w') \<and> wb \<and> st w' 1 77 = StS"
proof -
  obtain w0 w where w: "demo_start w0" "reaches [demo_memories] w0 w" "st w 1 77 = StM" using demo_written by blast
  have ok: "coherent w" "numCaches w = 3" using reaches_ok [OF w(2) demo_system(2) [OF w(1)]] demo_tree(1) [OF w(1)] by (simp_all add: system_ok_def)
  then have sub: "1 \<in> subtree w 77 1" by (simp add: subtree_def)
  obtain resp wb w' where r: "invalidate 3 1 \<lparr>inv_addr = 77, inv_type = INVX, inv_cycle = 200, inv_srcId = 2\<rparr> False w = Some (resp, wb, w')"
    "wb \<longleftrightarrow> (\<exists>d \<in> subtree w 77 1. st w d 77 = StM)"
    "\<forall>d x. d < 3 \<longrightarrow> x \<noteq> 0 \<longrightarrow> st w' d x = (if x = 77 \<and> d \<in> subtree w 77 1 then down INVX (st w d x) else st w d x)"
    using invalidation_exact [OF ok(1), of 1 77 INVX 200 2] w(3) ok(2) by auto
  have "wb" "st w' 1 77 = StS" using r(2) r(3) [rule_format, of 1 77] sub w(3) by auto
  then show ?thesis using w r(1) by blast
qed

end
